(* ===== verification/Prelude.thy ===== *)
theory Prelude
  imports Main "HOL-Library.Word" "HOL-Library.Multiset" "HOL-Library.Sublist"
begin

unbundle bit_operations_syntax

text \<open>
  What every component shares: names for the machine types of the Rust sources, the few
  operations of \<^verbatim>\<open>Vec\<close>, \<^verbatim>\<open>VecDeque\<close> and of iterators the code uses, the iteration order of
  a concurrent map, and the generic lemmas on lists, maps and words that the component proofs
  rest on.

  \<^item> \<open>u8\<close>, \<open>u32\<close>, \<open>u64\<close> and \<open>usize\<close> are words of the width Rust gives them (the 64-bit
    targets the runtime is built for); \<open>+\<close> and \<open>-\<close> wrap, as the atomics of the source do.
  \<^item> A Rust \<^verbatim>\<open>String\<close> is its UTF-8 byte sequence, a \<open>string\<close>: every operation of the
    sources on strings (\<^verbatim>\<open>starts_with\<close>, \<^verbatim>\<open>trim_end_matches('/')\<close>, \<^verbatim>\<open>contains('/')\<close>,
    byte slicing after an ASCII prefix) reads the same off the bytes.
  \<^item> \<^verbatim>\<open>DashMap\<close> and \<^verbatim>\<open>HashMap\<close> are partial maps. The order in which a \<^verbatim>\<open>DashMap\<close> is
    iterated is not specified: an operation that iterates takes the order \<open>ks\<close> as an
    argument, and \<open>iter_order m ks\<close> is the documented law, each key once.
\<close>

type_synonym u8 = "8 word"
type_synonym u32 = "32 word"
type_synonym u64 = "64 word"
type_synonym usize = "64 word"
type_synonym bytes = "u8 list"

named_theorems model_defs \<open>definitions unfolded when a whole operation is evaluated\<close>
named_theorems frame_simps \<open>what an operation leaves unchanged\<close>
named_theorems inv_intros \<open>every operation keeps its component's invariant\<close>

section \<open>Operations of the standard library\<close>

text \<open>\<^verbatim>\<open>Iterator::position\<close>: the index of the first element that satisfies the predicate.\<close>

primrec position :: "('a \<Rightarrow> bool) \<Rightarrow> 'a list \<Rightarrow> nat option" where
  "position p [] = None"
| "position p (x # xs) = (if p x then Some 0 else map_option Suc (position p xs))"

text \<open>\<^verbatim>\<open>VecDeque::remove\<close> and \<^verbatim>\<open>Vec::remove\<close> at an index in range.\<close>

definition remove_at :: "nat \<Rightarrow> 'a list \<Rightarrow> 'a list" where
  "remove_at i xs = take i xs @ drop (Suc i) xs"

text \<open>The order in which a concurrent map is iterated: every key once.\<close>

definition iter_order :: "('k \<rightharpoonup> 'v) \<Rightarrow> 'k list \<Rightarrow> bool" where
  "iter_order m ks \<longleftrightarrow> distinct ks \<and> set ks = dom m"

text \<open>The entries of a concurrent map, as a loop over \<^verbatim>\<open>iter()\<close> sees them.\<close>

definition iter_entries :: "('k \<rightharpoonup> 'v) \<Rightarrow> 'k list \<Rightarrow> ('k \<times> 'v) list" where
  "iter_entries m ks = List.map_filter (\<lambda>k. map_option (Pair k) (m k)) ks"

section \<open>Lists\<close>

lemma position_None_iff [simp]: "position p xs = None \<longleftrightarrow> (\<forall>x\<in>set xs. \<not> p x)"
  by (induction xs) auto

lemma position_miss: "\<forall>x\<in>set xs. \<not> p x \<Longrightarrow> position p xs = None"
  by simp

lemma position_Some_split:
  "position p xs = Some i \<Longrightarrow>
     \<exists>us x vs. xs = us @ x # vs \<and> length us = i \<and> p x \<and> (\<forall>u\<in>set us. \<not> p u)"
proof (induction xs arbitrary: i)
  case Nil
  then show ?case by simp
next
  case (Cons y ys)
  show ?case
  proof (cases "p y")
    case True
    with Cons.prems have "y # ys = [] @ y # ys \<and> length [] = i \<and> p y \<and> (\<forall>u\<in>set []. \<not> p u)"
      by simp
    then show ?thesis by blast
  next
    case False
    with Cons.prems obtain j where j: "position p ys = Some j" and i: "i = Suc j" by auto
    from Cons.IH [OF j] obtain us x vs
      where "ys = us @ x # vs" "length us = j" "p x" "\<forall>u\<in>set us. \<not> p u" by blast
    with False i have "y # ys = (y # us) @ x # vs \<and> length (y # us) = i \<and> p x
        \<and> (\<forall>u\<in>set (y # us). \<not> p u)" by simp
    then show ?thesis by blast
  qed
qed

lemma position_append_hit:
  "\<forall>u\<in>set us. \<not> p u \<Longrightarrow> p x \<Longrightarrow> position p (us @ x # vs) = Some (length us)"
  by (induction us) auto

lemma remove_at_append [simp]: "i = length us \<Longrightarrow> remove_at i (us @ x # vs) = us @ vs"
  by (simp add: remove_at_def)

lemma first_hit_unique:
  assumes "us @ x # vs = us' @ y # vs'"
    and "\<forall>u\<in>set us. \<not> p u" and "p x" and "\<forall>u\<in>set us'. \<not> p u" and "p y"
  shows "us = us'" and "x = y" and "vs = vs'"
proof -
  have "position p (us @ x # vs) = Some (length us)" "position p (us' @ y # vs') = Some (length us')"
    using assms(2-5) position_append_hit [of us p x vs] position_append_hit [of us' p y vs']
    by simp_all
  with assms(1) have "length us = length us'" by simp
  with assms(1) show "us = us'" "x = y" "vs = vs'" by auto
qed

text \<open>The two facts a removal at a found position gives, as one elimination rule.\<close>

lemma position_removeE:
  assumes "position p xs = Some i"
  obtains us x vs where "xs = us @ x # vs" "i = length us" "p x" "\<forall>u\<in>set us. \<not> p u"
    "xs ! i = x" "remove_at i xs = us @ vs"
proof -
  from position_Some_split [OF assms] obtain us x vs
    where *: "xs = us @ x # vs" "length us = i" "p x" "\<forall>u\<in>set us. \<not> p u" by blast
  then have "xs ! i = x" "remove_at i xs = us @ vs" by auto
  with * show thesis using that by blast
qed

lemma not_in_imageD: "f x \<notin> f ` A \<Longrightarrow> y \<in> A \<Longrightarrow> f y \<noteq> f x"
  by (metis imageI)

lemma filter_not_in: "x \<notin> set xs \<Longrightarrow> filter (\<lambda>y. y \<noteq> x) xs = xs"
  by (induction xs) auto

lemma count_list_filter_neq [simp]:
  "count_list (filter (\<lambda>y. y \<noteq> x) xs) z = (if z = x then 0 else count_list xs z)"
  by (induction xs) auto

section \<open>Maps\<close>

lemma iter_orderD:
  assumes "iter_order m ks"
  shows "distinct ks" and "set ks = dom m" and "finite (dom m)"
  using assms unfolding iter_order_def by (auto simp flip: set_empty2 intro: finite_subset)

lemma iter_order_empty [simp]: "iter_order Map.empty []"
  by (simp add: iter_order_def)

lemma iter_order_member: "iter_order m ks \<Longrightarrow> k \<in> set ks \<longleftrightarrow> (\<exists>v. m k = Some v)"
  by (auto simp: iter_order_def dom_def)

lemma iter_entries_simps [simp]:
  "iter_entries m [] = []"
  "iter_entries m (k # ks) =
     (case m k of None \<Rightarrow> iter_entries m ks | Some v \<Rightarrow> (k, v) # iter_entries m ks)"
  by (simp_all add: iter_entries_def map_filter_simps split: option.split)

lemma set_iter_entries: "set (iter_entries m ks) = {(k, v). k \<in> set ks \<and> m k = Some v}"
  by (induction ks) (auto split: option.split)

lemma iter_entries_member:
  "iter_order m ks \<Longrightarrow> (k, v) \<in> set (iter_entries m ks) \<longleftrightarrow> m k = Some v"
  by (auto simp: set_iter_entries iter_order_def)

lemma map_fst_iter_entries: "iter_order m ks \<Longrightarrow> map fst (iter_entries m ks) = ks"
proof -
  have "set ks \<subseteq> dom m \<Longrightarrow> map fst (iter_entries m ks) = ks"
    by (induction ks) (auto split: option.split)
  then show "iter_order m ks \<Longrightarrow> map fst (iter_entries m ks) = ks"
    by (simp add: iter_order_def)
qed

lemma distinct_iter_entries: "iter_order m ks \<Longrightarrow> distinct (map fst (iter_entries m ks))"
  by (simp add: map_fst_iter_entries iter_order_def)

section \<open>Words\<close>

lemma of_nat_eq_unat:
  fixes w :: "'a::len word"
  assumes "w = of_nat n" and "n < 2 ^ LENGTH('a)"
  shows "unat w = n"
  using assms by (simp add: unat_of_nat take_bit_nat_eq_self)

end
