(* ===== verification/Pid.thy ===== *)
theory Pid
  imports Prelude
begin

text \<open>
  \<^verbatim>\<open>src/pid.rs\<close>: the generational slab that hands out process identifiers. A \<^verbatim>\<open>Pid\<close> is a
  \<open>u64\<close> whose high half is the generation of a slot and whose low half is the slot's index.
  The slab is a vector of entries and a stack of free indices, kept as in the source (pushed and
  popped at the end). An access \<^verbatim>\<open>self.entries[idx]\<close> out of range panics: \<open>None\<close>.

  The contract the runtime relies on is the locale \<open>pid_source\<close>; the slab is its interpretation
  \<open>slab\<close>. The rest of the theory follows one slot through a run of operations and shows how
  many deallocations it takes before a stale identifier can be handed out again.
\<close>

unbundle bit_operations_syntax

type_synonym pid = u64

record entry =
  generation :: u32
  occupied :: bool

record SlabAllocator =
  entries :: "entry list"
  free_list :: "nat list"

section \<open>The operations\<close>

definition SlabAllocator_new :: SlabAllocator where
  "SlabAllocator_new = \<lparr>entries = [], free_list = []\<rparr>"

definition make_pid :: "nat \<Rightarrow> u32 \<Rightarrow> pid" where
  "make_pid index gen = (push_bit 32 (ucast gen) OR of_nat index)"

definition split_pid :: "pid \<Rightarrow> nat \<times> u32" where
  "split_pid p = (unat (p AND 0xffffffff), ucast (drop_bit 32 p))"

definition SlabAllocator_allocate :: "SlabAllocator \<Rightarrow> (pid \<times> SlabAllocator) option" where
  "SlabAllocator_allocate s =
     (if free_list s \<noteq> [] then
        let idx = last (free_list s); s = s\<lparr>free_list := butlast (free_list s)\<rparr> in
        if idx < length (entries s) then
          let e = (entries s ! idx)\<lparr>occupied := True\<rparr> in
          Some (make_pid idx (generation e), s\<lparr>entries := (entries s)[idx := e]\<rparr>)
        else None
      else
        let idx = length (entries s) in
        Some (make_pid idx 1, s\<lparr>entries := entries s @ [\<lparr>generation = 1, occupied = True\<rparr>]\<rparr>))"

definition SlabAllocator_deallocate :: "pid \<Rightarrow> SlabAllocator \<Rightarrow> bool \<times> SlabAllocator" where
  "SlabAllocator_deallocate p s =
     (let (idx, gen) = split_pid p in
      if length (entries s) \<le> idx then (False, s)
      else let e = entries s ! idx in
        if \<not> occupied e \<or> generation e \<noteq> gen then (False, s)
        else (True, s\<lparr>entries := (entries s)[idx := e\<lparr>occupied := False, generation := generation e + 1\<rparr>],
                      free_list := free_list s @ [idx]\<rparr>))"

definition SlabAllocator_is_valid :: "SlabAllocator \<Rightarrow> pid \<Rightarrow> bool" where
  "SlabAllocator_is_valid s p =
     (let (idx, gen) = split_pid p in
      idx < length (entries s) \<and> occupied (entries s ! idx) \<and> generation (entries s ! idx) = gen)"

text \<open>
  The invariant of the slab: the free list holds each vacant slot once. The bound is the range of
  indices an identifier can carry: beyond \<open>2 ^ 32\<close> slots \<^verbatim>\<open>make_pid\<close> would write into the
  generation half.
\<close>

definition slab_inv :: "SlabAllocator \<Rightarrow> bool" where
  "slab_inv s \<longleftrightarrow> distinct (free_list s)
     \<and> (\<forall>i. i \<in> set (free_list s) \<longleftrightarrow> i < length (entries s) \<and> \<not> occupied (entries s ! i))
     \<and> length (entries s) \<le> 2 ^ 32"

definition slab_room :: "SlabAllocator \<Rightarrow> bool" where
  "slab_room s \<longleftrightarrow> free_list s \<noteq> [] \<or> length (entries s) < 2 ^ 32"

text \<open>A run of the two operations, as the runtime issues them.\<close>

datatype slab_op = Allocate | Deallocate pid

fun slab_run :: "SlabAllocator \<Rightarrow> slab_op list \<Rightarrow> SlabAllocator option" where
  "slab_run s [] = Some s"
| "slab_run s (Allocate # ops) =
     (case SlabAllocator_allocate s of None \<Rightarrow> None | Some (p, s') \<Rightarrow> slab_run s' ops)"
| "slab_run s (Deallocate p # ops) = slab_run (snd (SlabAllocator_deallocate p s)) ops"

definition deallocations :: "slab_op list \<Rightarrow> nat" where
  "deallocations ops = length (filter (\<lambda>x. x \<noteq> Allocate) ops)"

lemma slab_inv_bound: "slab_inv s \<Longrightarrow> length (entries s) \<le> 2 ^ 32"
  by (simp add: slab_inv_def)

lemma slab_inv_vacant:
  "slab_inv s \<Longrightarrow> i \<in> set (free_list s) \<longleftrightarrow> i < length (entries s) \<and> \<not> occupied (entries s ! i)"
  by (simp add: slab_inv_def)

section \<open>The layout of an identifier\<close>

lemma low_half: "(p :: u64) AND 0xffffffff = take_bit 32 p"
  by (simp add: take_bit_eq_mask mask_eq_exp_minus_1)

lemma drop_bit_of_nat_small:
  assumes "n < 2 ^ 32"
  shows "drop_bit 32 (of_nat n :: u64) = 0"
proof -
  have "(of_nat n :: u64) = take_bit 32 (of_nat n)"
    using assms by (simp add: take_bit_of_nat take_bit_nat_eq_self)
  then have "drop_bit 32 (of_nat n :: u64) = drop_bit 32 (take_bit 32 (of_nat n))" by simp
  then show ?thesis by (simp add: drop_bit_take_bit)
qed

lemma split_make_pid_lemma:
  assumes "i < 2 ^ 32"
  shows "split_pid (make_pid i g) = (i, g)"
proof -
  have low: "take_bit 32 (make_pid i g) = of_nat i"
    using assms
    by (simp add: make_pid_def take_bit_or take_bit_push_bit take_bit_of_nat take_bit_nat_eq_self)
  have "drop_bit 32 (make_pid i g) = drop_bit 32 (push_bit 32 (ucast g))"
    using assms by (simp add: make_pid_def drop_bit_or drop_bit_of_nat_small)
  then have high: "ucast (drop_bit 32 (make_pid i g)) = g"
    by (simp only:) (intro bit_word_eqI, auto simp: bit_simps)
  have "unat (of_nat i :: u64) = i" using assms by (simp add: unat_of_nat)
  with low high show ?thesis by (simp add: split_pid_def low_half)
qed

lemma make_split_pid_lemma:
  assumes "split_pid p = (i, g)"
  shows "make_pid i g = p"
proof -
  from assms have i: "of_nat i = take_bit 32 p" and g: "g = ucast (drop_bit 32 p)"
    by (auto simp add: split_pid_def low_half)
  show ?thesis unfolding make_pid_def i g
    by (intro bit_word_eqI) (auto simp: bit_simps)
qed

lemma split_pid_bound: "split_pid p = (i, g) \<Longrightarrow> i < 2 ^ 32"
  using take_bit_nat_less_exp [of 32 "unat p"]
  by (auto simp: split_pid_def low_half unsigned_take_bit_eq)

lemma pid_eq_make_iff:
  assumes "split_pid q = (j, h)" and "i < 2 ^ 32"
  shows "q = make_pid i g \<longleftrightarrow> j = i \<and> h = g"
  using assms make_split_pid_lemma split_make_pid_lemma by (metis prod.inject)

text \<open>Slots without the bit fiddling: what the three operations do at a split identifier.\<close>

lemma is_valid_split:
  "split_pid p = (i, g) \<Longrightarrow> SlabAllocator_is_valid s p \<longleftrightarrow>
     i < length (entries s) \<and> occupied (entries s ! i) \<and> generation (entries s ! i) = g"
  by (simp add: SlabAllocator_is_valid_def)

lemma deallocate_split:
  assumes "split_pid p = (i, g)"
  shows "SlabAllocator_deallocate p s =
     (if SlabAllocator_is_valid s p
      then (True, s\<lparr>entries := (entries s)[i := \<lparr>generation = g + 1, occupied = False\<rparr>],
                    free_list := free_list s @ [i]\<rparr>)
      else (False, s))"
  using assms
  by (cases "entries s ! i") (auto simp: SlabAllocator_deallocate_def is_valid_split Let_def)

lemma allocate_reuse:
  assumes "slab_inv s" and "free_list s = us @ [i]"
  shows "SlabAllocator_allocate s =
      Some (make_pid i (generation (entries s ! i)),
            s\<lparr>free_list := us, entries := (entries s)[i := (entries s ! i)\<lparr>occupied := True\<rparr>]\<rparr>)"
    and "i < length (entries s)" and "\<not> occupied (entries s ! i)" and "i < 2 ^ 32"
proof -
  have "i \<in> set (free_list s)" using assms(2) by simp
  then show i: "i < length (entries s)" "\<not> occupied (entries s ! i)"
    using assms(1) by (auto simp: slab_inv_def)
  then show "i < 2 ^ 32" using assms(1) by (auto simp: slab_inv_def)
  show "SlabAllocator_allocate s =
      Some (make_pid i (generation (entries s ! i)),
            s\<lparr>free_list := us, entries := (entries s)[i := (entries s ! i)\<lparr>occupied := True\<rparr>]\<rparr>)"
    using i(1) assms(2) by (simp add: SlabAllocator_allocate_def Let_def)
qed

lemma allocate_grow:
  "free_list s = [] \<Longrightarrow> SlabAllocator_allocate s =
     Some (make_pid (length (entries s)) 1,
           s\<lparr>entries := entries s @ [\<lparr>generation = 1, occupied = True\<rparr>]\<rparr>)"
  by (simp add: SlabAllocator_allocate_def Let_def)

section \<open>The contract of an identifier source\<close>

text \<open>
  What the runtime needs of whatever hands out identifiers: while there is room an allocation
  succeeds and makes exactly one identifier valid that was not; a deallocation tells whether the
  identifier was valid and makes exactly that one invalid.
\<close>

locale pid_source =
  fixes inv :: "'s \<Rightarrow> bool"
    and room :: "'s \<Rightarrow> bool"
    and alloc :: "'s \<Rightarrow> ('p \<times> 's) option"
    and dealloc :: "'p \<Rightarrow> 's \<Rightarrow> bool \<times> 's"
    and valid :: "'s \<Rightarrow> 'p \<Rightarrow> bool"
  assumes alloc_total: "inv s \<Longrightarrow> \<exists>p s'. alloc s = Some (p, s')"
    and alloc_inv: "inv s \<Longrightarrow> room s \<Longrightarrow> alloc s = Some (p, s') \<Longrightarrow> inv s'"
    and alloc_fresh: "inv s \<Longrightarrow> room s \<Longrightarrow> alloc s = Some (p, s') \<Longrightarrow> \<not> valid s p"
    and alloc_valid: "inv s \<Longrightarrow> room s \<Longrightarrow> alloc s = Some (p, s') \<Longrightarrow>
        valid s' q \<longleftrightarrow> q = p \<or> valid s q"
    and dealloc_inv: "inv s \<Longrightarrow> inv (snd (dealloc p s))"
    and dealloc_result: "inv s \<Longrightarrow> fst (dealloc p s) \<longleftrightarrow> valid s p"
    and dealloc_valid: "inv s \<Longrightarrow> valid (snd (dealloc p s)) q \<longleftrightarrow> valid s q \<and> q \<noteq> p"
begin

lemma live_alloc:
  "inv s \<Longrightarrow> room s \<Longrightarrow> alloc s = Some (p, s') \<Longrightarrow> {q. valid s' q} = insert p {q. valid s q}"
  by (auto simp: alloc_valid)

lemma live_dealloc: "inv s \<Longrightarrow> {q. valid (snd (dealloc p s)) q} = {q. valid s q} - {p}"
  by (auto simp: dealloc_valid)

lemma dealloc_twice: "inv s \<Longrightarrow> fst (dealloc p (snd (dealloc p s))) = False"
  by (simp add: dealloc_inv dealloc_result dealloc_valid)

lemma dealloc_stale: "inv s \<Longrightarrow> \<not> valid s p \<Longrightarrow> fst (dealloc p s) = False"
  by (simp add: dealloc_result)

end

section \<open>The slab meets the contract\<close>

lemma allocate_slab_inv:
  assumes inv: "slab_inv s" and room: "slab_room s" and al: "SlabAllocator_allocate s = Some (p, s')"
  shows "slab_inv s'"
proof (cases "free_list s" rule: rev_cases)
  case Nil
  with room have "length (entries s) < 2 ^ 32" by (simp add: slab_room_def)
  moreover from Nil al have "entries s' = entries s @ [\<lparr>generation = 1, occupied = True\<rparr>]"
    and "free_list s' = []" by (auto simp: allocate_grow)
  moreover from Nil inv have "i < length (entries s) \<Longrightarrow> occupied (entries s ! i)" for i
    by (auto simp: slab_inv_def)
  ultimately show ?thesis by (auto simp: slab_inv_def nth_append)
next
  case (snoc us i)
  note r = allocate_reuse [OF inv snoc]
  from al r(1) have s': "s' = s\<lparr>free_list := us, entries := (entries s)[i := (entries s ! i)\<lparr>occupied := True\<rparr>]\<rparr>"
    by simp
  from inv snoc have d: "distinct us" "i \<notin> set us" by (auto simp: slab_inv_def)
  have "j \<in> set us \<longleftrightarrow> j < length (entries s) \<and> \<not> occupied ((entries s)[i := (entries s ! i)\<lparr>occupied := True\<rparr>] ! j)" for j
    using slab_inv_vacant [OF inv, of j] d(2) r(2,3) snoc by (cases "j = i") simp_all
  with d(1) show ?thesis using inv by (simp add: s' slab_inv_def)
qed

lemma allocate_slab_valid:
  assumes inv: "slab_inv s" and room: "slab_room s" and al: "SlabAllocator_allocate s = Some (p, s')"
  shows "SlabAllocator_is_valid s' q \<longleftrightarrow> q = p \<or> SlabAllocator_is_valid s q"
    and "\<not> SlabAllocator_is_valid s p"
proof -
  obtain j h where q: "split_pid q = (j, h)" by fastforce
  have "(SlabAllocator_is_valid s' q \<longleftrightarrow> q = p \<or> SlabAllocator_is_valid s q)
      \<and> \<not> SlabAllocator_is_valid s p"
  proof (cases "free_list s" rule: rev_cases)
    case Nil
    with room have len: "length (entries s) < 2 ^ 32" by (simp add: slab_room_def)
    with Nil al show ?thesis
      by (auto simp: allocate_grow is_valid_split [OF q] is_valid_split [OF split_make_pid_lemma]
          pid_eq_make_iff [OF q] nth_append)
  next
    case (snoc us i)
    note r = allocate_reuse [OF inv snoc]
    from al r show ?thesis
      by (auto simp: is_valid_split [OF q] is_valid_split [OF split_make_pid_lemma]
          pid_eq_make_iff [OF q] nth_list_update)
  qed
  then show "SlabAllocator_is_valid s' q \<longleftrightarrow> q = p \<or> SlabAllocator_is_valid s q"
    and "\<not> SlabAllocator_is_valid s p" by auto
qed

lemma deallocate_slab_inv:
  assumes inv: "slab_inv s"
  shows "slab_inv (snd (SlabAllocator_deallocate p s))"
proof -
  obtain i g where p: "split_pid p = (i, g)" by fastforce
  show ?thesis
  proof (cases "SlabAllocator_is_valid s p")
    case True
    then have i: "i < length (entries s)" "occupied (entries s ! i)"
      by (auto simp: is_valid_split [OF p])
    with inv have "i \<notin> set (free_list s)" by (simp add: slab_inv_def)
    with True inv i show ?thesis
      by (auto simp: deallocate_split [OF p] slab_inv_def nth_list_update)
  next
    case False
    with inv show ?thesis by (simp add: deallocate_split [OF p])
  qed
qed

lemma deallocate_slab_valid:
  "SlabAllocator_is_valid (snd (SlabAllocator_deallocate p s)) q
     \<longleftrightarrow> SlabAllocator_is_valid s q \<and> q \<noteq> p"
proof -
  obtain i g where p: "split_pid p = (i, g)" by fastforce
  obtain j h where q: "split_pid q = (j, h)" by fastforce
  have "q = p \<longleftrightarrow> j = i \<and> h = g"
    using pid_eq_make_iff [OF q split_pid_bound [OF p]] make_split_pid_lemma [OF p] by metis
  then show ?thesis
    by (auto simp: deallocate_split [OF p] is_valid_split [OF p] is_valid_split [OF q]
        nth_list_update)
qed

interpretation slab: pid_source slab_inv slab_room SlabAllocator_allocate
  SlabAllocator_deallocate SlabAllocator_is_valid
proof unfold_locales
  fix s assume "slab_inv s"
  then show "\<exists>p s'. SlabAllocator_allocate s = Some (p, s')"
    by (cases "free_list s" rule: rev_cases) (auto simp: allocate_grow allocate_reuse(1))
next
  fix s p assume "slab_inv s"
  obtain i g where p: "split_pid p = (i, g)" by fastforce
  show "fst (SlabAllocator_deallocate p s) \<longleftrightarrow> SlabAllocator_is_valid s p"
    by (simp add: deallocate_split [OF p])
qed (simp_all add: allocate_slab_inv allocate_slab_valid deallocate_slab_inv deallocate_slab_valid)

section \<open>Generations along a run\<close>

lemma room_iff_bounded:
  assumes "slab_inv s" and "SlabAllocator_allocate s = Some (p, s')"
  shows "slab_room s \<longleftrightarrow> length (entries s') \<le> 2 ^ 32"
  using assms
  by (cases "free_list s" rule: rev_cases)
    (auto simp: allocate_grow allocate_reuse(1) slab_room_def dest: slab_inv_bound)

lemma allocate_entries_length:
  "SlabAllocator_allocate s = Some (p, s') \<Longrightarrow> length (entries s) \<le> length (entries s')"
  by (auto simp: SlabAllocator_allocate_def Let_def split: if_splits)

lemma deallocate_entries_length [simp]:
  "length (entries (snd (SlabAllocator_deallocate p s))) = length (entries s)"
  by (simp add: SlabAllocator_deallocate_def Let_def split: prod.split)

lemma slab_run_length: "slab_run s ops = Some s' \<Longrightarrow> length (entries s) \<le> length (entries s')"
proof (induction s ops rule: slab_run.induct)
  case (2 s ops)
  then show ?case by (fastforce split: option.splits dest: allocate_entries_length)
next
  case (3 s p ops)
  then show ?case by fastforce
qed simp

lemma allocate_generation:
  assumes "slab_inv s" and "SlabAllocator_allocate s = Some (p, s')" and "i < length (entries s')"
  shows "generation (entries s' ! i) = (if i < length (entries s) then generation (entries s ! i) else 1)"
  using assms
  by (cases "free_list s" rule: rev_cases)
    (auto simp: allocate_grow allocate_reuse nth_append nth_list_update less_Suc_eq)

lemma deallocate_generation:
  assumes "i < length (entries s)"
  shows "\<exists>k\<le>1. generation (entries (snd (SlabAllocator_deallocate p s)) ! i)
           = generation (entries s ! i) + of_nat k"
proof -
  obtain j g where p: "split_pid p = (j, g)" by fastforce
  show ?thesis
  proof (cases "SlabAllocator_is_valid s p \<and> i = j")
    case True
    with assms show ?thesis
      by (intro exI [of _ 1]) (auto simp: deallocate_split [OF p] is_valid_split [OF p])
  next
    case False
    with assms show ?thesis by (intro exI [of _ 0]) (auto simp: deallocate_split [OF p])
  qed
qed

lemma slab_run_inv:
  assumes "slab_inv s" and "slab_run s ops = Some s'" and "length (entries s') \<le> 2 ^ 32"
  shows "slab_inv s'"
  using assms
proof (induction s ops rule: slab_run.induct)
  case (2 s ops)
  then obtain p s1 where a: "SlabAllocator_allocate s = Some (p, s1)" and r: "slab_run s1 ops = Some s'"
    by (auto split: option.splits)
  from slab_run_length [OF r] "2.prems" have "slab_room s"
    by (simp add: room_iff_bounded [OF _ a])
  with a "2.prems" have "slab_inv s1" by (auto intro: slab.alloc_inv)
  with "2.IH" [OF a refl] r "2.prems" show ?case by simp
next
  case (3 s p ops)
  then show ?case by (simp add: slab.dealloc_inv)
qed simp

lemma slab_run_generation:
  assumes "slab_inv s" and "slab_run s ops = Some s'" and "length (entries s') \<le> 2 ^ 32"
    and "i < length (entries s')"
  shows "\<exists>k\<le>deallocations ops. generation (entries s' ! i)
     = (if i < length (entries s) then generation (entries s ! i) else 1) + of_nat k"
  using assms
proof (induction s ops rule: slab_run.induct)
  case (1 s)
  then show ?case by (auto simp: deallocations_def)
next
  case (2 s ops)
  then obtain p s1 where a: "SlabAllocator_allocate s = Some (p, s1)" and r: "slab_run s1 ops = Some s'"
    by (auto split: option.splits)
  from slab_run_length [OF r] "2.prems" have "slab_room s"
    by (simp add: room_iff_bounded [OF _ a])
  with a "2.prems" have "slab_inv s1" by (auto intro: slab.alloc_inv)
  with "2.IH" [OF a refl] r "2.prems" obtain k where "k \<le> deallocations ops"
    and k: "generation (entries s' ! i)
      = (if i < length (entries s1) then generation (entries s1 ! i) else 1) + of_nat k" by auto
  moreover have "(if i < length (entries s1) then generation (entries s1 ! i) else 1)
      = (if i < length (entries s) then generation (entries s ! i) else 1)"
    using allocate_generation [OF "2.prems"(1) a] allocate_entries_length [OF a] by auto
  ultimately show ?case by (auto simp: deallocations_def)
next
  case (3 s p ops)
  let ?s1 = "snd (SlabAllocator_deallocate p s)"
  from 3 obtain k where k: "k \<le> deallocations ops"
    "generation (entries s' ! i)
      = (if i < length (entries s) then generation (entries ?s1 ! i) else 1) + of_nat k"
    by (auto simp: slab.dealloc_inv)
  show ?case
  proof (cases "i < length (entries s)")
    case True
    from deallocate_generation [OF this] obtain d where "d \<le> 1"
      "generation (entries ?s1 ! i) = generation (entries s ! i) + of_nat d" by blast
    with True k show ?thesis
      by (intro exI [of _ "d + k"]) (auto simp: deallocations_def)
  next
    case False
    with k show ?thesis by (intro exI [of _ k]) (auto simp: deallocations_def)
  qed
qed

lemma generation_not_wrapped:
  assumes "k < 2 ^ 32 - 1"
  shows "g + 1 + of_nat k \<noteq> (g :: u32)" and "1 + of_nat k \<noteq> (0 :: u32)"
proof -
  have "of_nat (Suc k) \<noteq> (0 :: u32)" using assms by (intro of_nat_neq_0) auto
  then show "1 + of_nat k \<noteq> (0 :: u32)" by simp
  then show "g + 1 + of_nat k \<noteq> g" by (simp add: add.assoc)
qed

text \<open>A slot that is freed and reused again and again: each round adds one to its generation.\<close>

fun reuse_ops :: "u32 \<Rightarrow> nat \<Rightarrow> slab_op list" where
  "reuse_ops g 0 = []"
| "reuse_ops g (Suc n) = Allocate # Deallocate (make_pid 0 g) # reuse_ops (g + 1) n"

lemma reuse_ops_run:
  "slab_run \<lparr>entries = [\<lparr>generation = g, occupied = False\<rparr>], free_list = [0]\<rparr> (reuse_ops g n)
   = Some \<lparr>entries = [\<lparr>generation = g + of_nat n, occupied = False\<rparr>], free_list = [0]\<rparr>"
proof (induction n arbitrary: g)
  case (Suc n)
  have "split_pid (make_pid 0 g) = (0, g)" by (simp add: split_make_pid_lemma)
  with Suc show ?case
    by (simp add: SlabAllocator_allocate_def SlabAllocator_deallocate_def Let_def add.assoc)
qed simp

lemma deallocations_reuse_ops: "deallocations (reuse_ops g n) = n"
  by (induction n arbitrary: g) (auto simp: deallocations_def)

section \<open>Properties\<close>

text \<open>
  C6: while the slab has room, \<^verbatim>\<open>allocate\<close> never panics, returns an identifier that was not
  valid, makes exactly that one valid in addition to those that were, and keeps the slab's
  invariant: no two live actors ever share an identifier.
\<close>

theorem slab_allocate_fresh:
  assumes "slab_inv s" and "slab_room s"
  shows "\<exists>p s'. SlabAllocator_allocate s = Some (p, s') \<and> slab_inv s'
      \<and> \<not> SlabAllocator_is_valid s p
      \<and> {q. SlabAllocator_is_valid s' q} = insert p {q. SlabAllocator_is_valid s q}"
  using slab.alloc_total [OF assms(1)] slab.alloc_inv [OF assms] slab.alloc_fresh [OF assms]
    slab.live_alloc [OF assms] by blast

definition one_actor :: SlabAllocator where
  "one_actor = \<lparr>entries = [\<lparr>generation = 1, occupied = True\<rparr>], free_list = []\<rparr>"

lemma one_actor_inv: "slab_inv one_actor" and one_actor_room: "slab_room one_actor"
  by (auto simp: one_actor_def slab_inv_def slab_room_def nth_Cons split: nat.splits)

lemma split_first_pid: "split_pid 0x100000000 = (0, 1)"
  by (simp add: split_pid_def drop_bit_eq_div)

theorem slab_allocate_fresh_witness:
  "SlabAllocator_allocate one_actor
     = Some (0x100000001, \<lparr>entries = [\<lparr>generation = 1, occupied = True\<rparr>, \<lparr>generation = 1, occupied = True\<rparr>],
                           free_list = []\<rparr>)
   \<and> \<not> SlabAllocator_is_valid one_actor 0x100000001"
proof -
  have "SlabAllocator_allocate one_actor
     = Some (0x100000001, \<lparr>entries = [\<lparr>generation = 1, occupied = True\<rparr>, \<lparr>generation = 1, occupied = True\<rparr>],
                           free_list = []\<rparr>)"
    by (simp add: SlabAllocator_allocate_def one_actor_def make_pid_def push_bit_eq_mult)
  with slab_allocate_fresh [OF one_actor_inv one_actor_room] show ?thesis by auto
qed

text \<open>
  \<^verbatim>\<open>deallocate\<close> returns \<^verbatim>\<open>true\<close> exactly for a valid identifier, makes exactly that one
  invalid, keeps the invariant, and a second \<^verbatim>\<open>deallocate\<close> of the same identifier returns
  \<^verbatim>\<open>false\<close>: a slot is never pushed on the free list twice.
\<close>

theorem slab_deallocate_exact:
  assumes "slab_inv s"
  shows "(fst (SlabAllocator_deallocate p s) \<longleftrightarrow> SlabAllocator_is_valid s p)
    \<and> {q. SlabAllocator_is_valid (snd (SlabAllocator_deallocate p s)) q}
         = {q. SlabAllocator_is_valid s q} - {p}
    \<and> slab_inv (snd (SlabAllocator_deallocate p s))
    \<and> \<not> fst (SlabAllocator_deallocate p (snd (SlabAllocator_deallocate p s)))"
  using slab.dealloc_result [OF assms] slab.live_dealloc [OF assms] slab.dealloc_inv [OF assms]
    slab.dealloc_twice [OF assms] by auto

theorem slab_deallocate_exact_witness:
  "fst (SlabAllocator_deallocate 0x100000000 one_actor)
   \<and> \<not> fst (SlabAllocator_deallocate 0x100000000 (snd (SlabAllocator_deallocate 0x100000000 one_actor)))"
  using slab_deallocate_exact [OF one_actor_inv, of "0x100000000"]
  by (simp add: is_valid_split [OF split_first_pid]) (simp add: one_actor_def)

lemma stale_pid:
  assumes inv: "slab_inv s" and val: "SlabAllocator_is_valid s p"
    and run: "slab_run (snd (SlabAllocator_deallocate p s)) ops = Some s'"
    and len: "length (entries s') \<le> 2 ^ 32" and few: "deallocations ops < 2 ^ 32 - 1"
  shows "\<not> SlabAllocator_is_valid s' p"
proof -
  obtain i g where p: "split_pid p = (i, g)" by fastforce
  let ?s1 = "snd (SlabAllocator_deallocate p s)"
  from val have i: "i < length (entries s)" and "generation (entries s ! i) = g"
    by (auto simp: is_valid_split [OF p])
  then have g1: "generation (entries ?s1 ! i) = g + 1"
    using val by (simp add: deallocate_split [OF p])
  from i slab_run_length [OF run] have "i < length (entries s')" by simp
  from slab_run_generation [OF slab.dealloc_inv [OF inv] run len this] i
  obtain k where "k \<le> deallocations ops" "generation (entries s' ! i) = g + 1 + of_nat k"
    using g1 by auto
  moreover from calculation(1) few have "k < 2 ^ 32 - 1" by simp
  ultimately have "generation (entries s' ! i) \<noteq> g" using generation_not_wrapped(1) by metis
  then show ?thesis by (simp add: is_valid_split [OF p])
qed

text \<open>
  C20: stale identifiers are detected. Once a valid identifier has been deallocated, no run of
  further allocations and deallocations makes it valid again, as long as the run has fewer than
  \<open>2 ^ 32 - 1\<close> deallocations: the generation of its slot would have to come round.
\<close>

theorem stale_pid_stays_invalid:
  assumes inv: "slab_inv s" and val: "SlabAllocator_is_valid s p"
    and run: "slab_run (snd (SlabAllocator_deallocate p s)) ops = Some s'"
    and len: "length (entries s') \<le> 2 ^ 32" and few: "deallocations ops < 2 ^ 32 - 1"
  shows "\<not> SlabAllocator_is_valid s' p"
  using inv val run len few by (rule stale_pid)

theorem stale_pid_stays_invalid_witness:
  "\<exists>s'. slab_run (snd (SlabAllocator_deallocate 0x100000000 one_actor)) [Allocate] = Some s'
      \<and> \<not> SlabAllocator_is_valid s' 0x100000000"
proof -
  have val: "SlabAllocator_is_valid one_actor 0x100000000"
    by (simp add: is_valid_split [OF split_first_pid]) (simp add: one_actor_def)
  have run: "slab_run (snd (SlabAllocator_deallocate 0x100000000 one_actor)) [Allocate]
      = Some \<lparr>entries = [\<lparr>generation = 2, occupied = True\<rparr>], free_list = []\<rparr>"
    by (simp add: deallocate_split [OF split_first_pid] val)
      (simp add: one_actor_def SlabAllocator_allocate_def Let_def)
  show ?thesis
    using stale_pid_stays_invalid [OF one_actor_inv val run] run by (simp add: deallocations_def)
qed

text \<open>
  The bound of the previous property is exact. In a slab whose only slot is the one of the
  deallocated identifier, \<open>2 ^ 32 - 1\<close> rounds of allocation and deallocation bring the generation
  round, and the next allocation hands out the stale identifier again.
\<close>

theorem stale_pid_returns_after_wrap:
  "\<exists>ops s1 s2. deallocations ops = 2 ^ 32 - 1
     \<and> slab_run (snd (SlabAllocator_deallocate (make_pid 0 g)
          \<lparr>entries = [\<lparr>generation = g, occupied = True\<rparr>], free_list = []\<rparr>)) ops = Some s1
     \<and> \<not> SlabAllocator_is_valid s1 (make_pid 0 g)
     \<and> SlabAllocator_allocate s1 = Some (make_pid 0 g, s2)"
proof -
  have sp: "split_pid (make_pid 0 g) = (0, g)" by (simp add: split_make_pid_lemma)
  have wrap: "g + 1 + of_nat (2 ^ 32 - 1) = g"
  proof -
    have "g + 1 + of_nat (2 ^ 32 - 1) = g + of_nat (Suc (2 ^ 32 - 1))" by simp
    also have "(of_nat (Suc (2 ^ 32 - 1)) :: u32) = 0"
      unfolding word_of_nat_eq_0_iff by simp
    finally show ?thesis by simp
  qed
  have d: "snd (SlabAllocator_deallocate (make_pid 0 g)
          \<lparr>entries = [\<lparr>generation = g, occupied = True\<rparr>], free_list = []\<rparr>)
      = \<lparr>entries = [\<lparr>generation = g + 1, occupied = False\<rparr>], free_list = [0]\<rparr>"
    by (simp add: SlabAllocator_deallocate_def sp)
  let ?ops = "reuse_ops (g + 1) (2 ^ 32 - 1)"
  let ?s1 = "\<lparr>entries = [\<lparr>generation = g, occupied = False\<rparr>], free_list = [0::nat]\<rparr>"
  have "slab_run \<lparr>entries = [\<lparr>generation = g + 1, occupied = False\<rparr>], free_list = [0]\<rparr> ?ops = Some ?s1"
    using reuse_ops_run [of "g + 1" "2 ^ 32 - 1"] unfolding wrap .
  moreover have "\<not> SlabAllocator_is_valid ?s1 (make_pid 0 g)" by (simp add: is_valid_split [OF sp])
  moreover have "\<exists>s2. SlabAllocator_allocate ?s1 = Some (make_pid 0 g, s2)"
    by (simp add: SlabAllocator_allocate_def)
  ultimately show ?thesis unfolding d using deallocations_reuse_ops [of "g + 1" "2 ^ 32 - 1"] by blast
qed

text \<open>
  The layout of an identifier loses nothing. Splitting what \<^verbatim>\<open>make_pid\<close> built from an index
  below \<open>2 ^ 32\<close> gives the index and the generation back, and every \<open>u64\<close> is rebuilt from its
  parts.
\<close>

theorem pid_layout_roundtrip:
  "(\<forall>i<2 ^ 32. split_pid (make_pid i g) = (i, g)) \<and> (case split_pid p of (i, h) \<Rightarrow> make_pid i h = p)"
  using split_make_pid_lemma make_split_pid_lemma by (auto split: prod.split)

theorem pid_layout_roundtrip_witness:
  "split_pid (make_pid 5 3) = (5, 3) \<and> make_pid 5 3 = 0x300000005"
proof -
  have "split_pid (make_pid 5 3) = (5, 3)" using pid_layout_roundtrip [of 3 0] by simp
  moreover have "make_pid 5 3 = 0x300000005" by (simp add: make_pid_def push_bit_eq_mult)
  ultimately show ?thesis by simp
qed

text \<open>
  The identifier \<open>0\<close>, which stands for "not found" on the wire, is never handed out by a
  fresh slab before \<open>2 ^ 32 - 1\<close> deallocations: generations start at one and only grow.
\<close>

theorem allocated_pid_nonzero:
  assumes run: "slab_run SlabAllocator_new ops = Some s" and few: "deallocations ops < 2 ^ 32 - 1"
    and al: "SlabAllocator_allocate s = Some (p, s')" and len: "length (entries s') \<le> 2 ^ 32"
  shows "p \<noteq> 0"
proof -
  have new: "slab_inv SlabAllocator_new" by (simp add: SlabAllocator_new_def slab_inv_def)
  from allocate_entries_length [OF al] len have "length (entries s) \<le> 2 ^ 32" by simp
  with new run have inv: "slab_inv s" by (rule slab_run_inv)
  have room: "slab_room s" using len by (simp add: room_iff_bounded [OF inv al])
  obtain i g where p: "split_pid p = (i, g)" by fastforce
  have "SlabAllocator_is_valid s' p" using slab.alloc_valid [OF inv room al] by simp
  then have i: "i < length (entries s')" and g: "generation (entries s' ! i) = g"
    by (auto simp: is_valid_split [OF p])
  have run2: "slab_run SlabAllocator_new (ops @ [Allocate]) = Some s'"
  proof -
    have "slab_run s0 ops = Some s \<Longrightarrow> slab_run s0 (ops @ [Allocate]) = slab_run s [Allocate]" for s0
      by (induction s0 ops rule: slab_run.induct) (auto split: option.splits)
    with run al show ?thesis by simp
  qed
  from slab_run_generation [OF new run2 len i] obtain k where "k \<le> deallocations ops"
    "g = 1 + of_nat k" using g by (auto simp: SlabAllocator_new_def deallocations_def)
  with few generation_not_wrapped(2) [of k] have "g \<noteq> 0" by simp
  then show ?thesis using p by (auto simp: split_pid_def)
qed

theorem allocated_pid_nonzero_witness:
  "\<exists>s'. SlabAllocator_allocate SlabAllocator_new = Some (0x100000000, s') \<and> (0x100000000 :: pid) \<noteq> 0"
proof -
  have al: "SlabAllocator_allocate SlabAllocator_new = Some (0x100000000, one_actor)"
    by (simp add: SlabAllocator_allocate_def SlabAllocator_new_def one_actor_def make_pid_def push_bit_eq_mult)
  have "slab_run SlabAllocator_new [] = Some SlabAllocator_new" by simp
  from allocated_pid_nonzero [OF this _ al] show ?thesis
    using al by (simp add: deallocations_def one_actor_def)
qed

end
