(* ===== verification/Supervisor.thy ===== *)
theory Supervisor
  imports Pid
begin

text \<open>
  \<^verbatim>\<open>src/supervisor.rs\<close>: child specifications, bidirectional links and restarts.

  \<^item> A factory is a closure \<^verbatim>\<open>Fn() -> Result<Pid, String>\<close>. The model keeps closures as data:
    \<open>ReturnPid p\<close> is the closure \<^verbatim>\<open>move || Ok(pid)\<close> that \<^verbatim>\<open>watch\<close> builds, \<open>UserFactory n\<close> one the
    caller supplied, whose behaviour on a world \<open>'w\<close> is the parameter \<open>env\<close> of \<open>call_factory\<close>.
  \<^item> \<^verbatim>\<open>notify_exit\<close> runs in two parts: the call itself marks identifiers as restarting and returns;
    the tasks it spawns loop over the factory. A task is a record with the loop's variables, and
    \<open>restart_attempt\<close> is one round of its loop, from one factory call to the next sleep.
  \<^item> \<open>sup_step\<close> interleaves calls on the supervisor with the rounds of the spawned tasks; a call and a
    round act on the shared maps as one step each. \<open>Links\<close> has the calls on the link table one by one.
  \<^item> A factory returns or fails. One that panics would end its task with the mark still set; this is
    left out.
\<close>

datatype RestartStrategy = RestartOne | RestartAll

datatype closure = ReturnPid pid | UserFactory nat

record ChildSpec =
  factory :: closure
  strategy :: RestartStrategy

record Supervisor =
  children :: "pid \<rightharpoonup> ChildSpec"
  errors :: "string list"
  links :: "pid \<rightharpoonup> pid list"
  restarting :: "pid set"

section \<open>Children and links\<close>

definition Supervisor_new :: Supervisor where
  "Supervisor_new = \<lparr>children = Map.empty, errors = [], links = Map.empty, restarting = {}\<rparr>"

definition Supervisor_add_child :: "pid \<Rightarrow> ChildSpec \<Rightarrow> Supervisor \<Rightarrow> Supervisor" where
  "Supervisor_add_child p spec s = s\<lparr>children := (children s)(p \<mapsto> spec)\<rparr>"

text \<open>\<^verbatim>\<open>if let Some(mut entry) = links.get_mut(&q) { entry.retain(|&x| x != p) }\<close>\<close>

definition retain_neq :: "'p \<Rightarrow> 'p \<Rightarrow> ('p \<rightharpoonup> 'p list) \<Rightarrow> ('p \<rightharpoonup> 'p list)" where
  "retain_neq p q m = (case m q of None \<Rightarrow> m | Some v \<Rightarrow> m(q \<mapsto> filter (\<lambda>x. x \<noteq> p) v))"

definition Supervisor_unlink :: "pid \<Rightarrow> pid \<Rightarrow> Supervisor \<Rightarrow> Supervisor" where
  "Supervisor_unlink a b s =
     (let s = s\<lparr>links := retain_neq b a (links s)\<rparr> in s\<lparr>links := retain_neq a b (links s)\<rparr>)"

definition Supervisor_watch :: "pid \<Rightarrow> Supervisor \<Rightarrow> Supervisor" where
  "Supervisor_watch p s =
     (let spec = \<lparr>factory = ReturnPid p, strategy = RestartOne\<rparr>
      in s\<lparr>children := (children s)(p \<mapsto> spec)\<rparr>)"

text \<open>\<^verbatim>\<open>links.entry(a).or_insert_with(Vec::new).push(b)\<close>\<close>

definition push_link :: "'p \<Rightarrow> 'p \<Rightarrow> ('p \<rightharpoonup> 'p list) \<Rightarrow> ('p \<rightharpoonup> 'p list)" where
  "push_link a b m = m(a \<mapsto> (case m a of None \<Rightarrow> [] | Some v \<Rightarrow> v) @ [b])"

definition Supervisor_link :: "pid \<Rightarrow> pid \<Rightarrow> Supervisor \<Rightarrow> Supervisor" where
  "Supervisor_link a b s =
     (let s = s\<lparr>links := push_link a b (links s)\<rparr> in s\<lparr>links := push_link b a (links s)\<rparr>)"

definition Supervisor_linked_pids :: "pid \<Rightarrow> Supervisor \<Rightarrow> pid list \<times> Supervisor" where
  "Supervisor_linked_pids p s =
     (case links s p of
        Some linked_peers \<Rightarrow>
          (linked_peers, s\<lparr>links := fold (retain_neq p) linked_peers ((links s)(p := None))\<rparr>)
      | None \<Rightarrow> ([], s))"

definition Supervisor_cleanup_links_internal :: "pid \<Rightarrow> Supervisor \<Rightarrow> Supervisor" where
  "Supervisor_cleanup_links_internal p s =
     (case links s p of
        Some linked_peers \<Rightarrow> s\<lparr>links := fold (retain_neq p) linked_peers ((links s)(p := None))\<rparr>
      | None \<Rightarrow> s)"

definition Supervisor_remove_child :: "pid \<Rightarrow> Supervisor \<Rightarrow> Supervisor" where
  "Supervisor_remove_child p s =
     (let s = s\<lparr>children := (children s)(p := None)\<rparr>;
          s = s\<lparr>restarting := restarting s - {p}\<rparr>
      in Supervisor_cleanup_links_internal p s)"

definition Supervisor_unwatch :: "pid \<Rightarrow> Supervisor \<Rightarrow> Supervisor" where
  "Supervisor_unwatch p s =
     (let s = s\<lparr>children := (children s)(p := None)\<rparr> in s\<lparr>restarting := restarting s - {p}\<rparr>)"

definition Supervisor_contains_child :: "Supervisor \<Rightarrow> pid \<Rightarrow> bool" where
  "Supervisor_contains_child s p = (children s p \<noteq> None)"

definition Supervisor_children_count :: "Supervisor \<Rightarrow> nat" where
  "Supervisor_children_count s = card (dom (children s))"

definition Supervisor_child_pids :: "pid list \<Rightarrow> Supervisor \<Rightarrow> pid list" where
  "Supervisor_child_pids ks s = map fst (iter_entries (children s) ks)"

definition Supervisor_errors :: "Supervisor \<Rightarrow> string list" where
  "Supervisor_errors s = errors s"

section \<open>Exit notifications and restart tasks\<close>

record restart_task =
  orig_pid :: pid
  child_spec :: ChildSpec
  attempts :: nat
  backoff_ms :: u64

definition max_attempts :: nat where
  "max_attempts = 3"

definition spawn_restart :: "pid \<Rightarrow> ChildSpec \<Rightarrow> restart_task" where
  "spawn_restart p spec = \<lparr>orig_pid = p, child_spec = spec, attempts = 0, backoff_ms = 100\<rparr>"

definition Supervisor_notify_exit :: "pid list \<Rightarrow> pid \<Rightarrow> Supervisor \<Rightarrow> Supervisor \<times> restart_task list" where
  "Supervisor_notify_exit ks p s =
     (if p \<in> restarting s then (s, [])
      else
        let s = s\<lparr>restarting := insert p (restarting s)\<rparr> in
        case children s p of
          None \<Rightarrow> (s\<lparr>restarting := restarting s - {p}\<rparr>, [])
        | Some spec \<Rightarrow>
            (case strategy spec of
               RestartAll \<Rightarrow>
                 let every = iter_entries (children s) ks;
                     s = s\<lparr>restarting := restarting s \<union> set (map fst every)\<rparr>
                 in (s, map (\<lambda>(q, sp). spawn_restart q sp) every)
             | RestartOne \<Rightarrow> (s, [spawn_restart p spec])))"

text \<open>\<^verbatim>\<open>u64::saturating_mul\<close>\<close>

definition saturating_mul :: "u64 \<Rightarrow> u64 \<Rightarrow> u64" where
  "saturating_mul a b = (if unat a * unat b < 2 ^ 64 then a * b else - 1)"

text \<open>
  One round of the loop, given the factory's result: \<open>None\<close> when the loop has ended, otherwise the
  loop's variables after the sleep.
\<close>

definition restart_attempt ::
    "string + pid \<Rightarrow> restart_task \<Rightarrow> Supervisor \<Rightarrow> restart_task option \<times> Supervisor" where
  "restart_attempt result t s =
     (let t = t\<lparr>attempts := attempts t + 1\<rparr>; p = orig_pid t in
      case result of
        Inr new_pid \<Rightarrow>
          let s = s\<lparr>children := (children s)(new_pid \<mapsto> child_spec t)\<rparr>;
              s = s\<lparr>children := (children s)(p := None)\<rparr>;
              s = Supervisor_cleanup_links_internal p s
          in (None, s\<lparr>restarting := restarting s - {p}\<rparr>)
      | Inl err \<Rightarrow>
          let s = s\<lparr>errors := errors s @ [err]\<rparr> in
          if max_attempts \<le> attempts t then
            let s = s\<lparr>children := (children s)(p := None)\<rparr>;
                s = Supervisor_cleanup_links_internal p s
            in (None, s\<lparr>restarting := restarting s - {p}\<rparr>)
          else (Some (t\<lparr>backoff_ms := saturating_mul (backoff_ms t) 2\<rparr>), s))"

text \<open>Calling a factory, and a task run to its end with nothing else going on.\<close>

definition call_factory ::
    "(nat \<Rightarrow> 'w \<Rightarrow> (string + pid) \<times> 'w) \<Rightarrow> closure \<Rightarrow> 'w \<Rightarrow> (string + pid) \<times> 'w" where
  "call_factory env f w = (case f of ReturnPid p \<Rightarrow> (Inr p, w) | UserFactory n \<Rightarrow> env n w)"

lemma restart_attempt_continues:
  "restart_attempt r t s = (Some t', s') \<Longrightarrow> attempts t' = attempts t + 1 \<and> attempts t' < max_attempts"
  by (auto simp: restart_attempt_def Let_def split: sum.splits if_splits)

function restart_loop ::
    "(nat \<Rightarrow> 'w \<Rightarrow> (string + pid) \<times> 'w) \<Rightarrow> restart_task \<Rightarrow> Supervisor \<Rightarrow> 'w \<Rightarrow> Supervisor \<times> 'w" where
  "restart_loop env t s w =
     (case call_factory env (factory (child_spec t)) w of
        (r, w') \<Rightarrow>
          (case restart_attempt r t s of
             (None, s') \<Rightarrow> (s', w')
           | (Some t', s') \<Rightarrow> restart_loop env t' s' w'))"
  by pat_completeness auto
termination
  by (relation "measure (\<lambda>(_, t, _, _). max_attempts - attempts t)")
    (auto dest!: restart_attempt_continues [OF sym])

declare restart_loop.simps [simp del]

section \<open>Interleavings\<close>

datatype sup_op =
    AddChild pid ChildSpec | RemoveChild pid | Watch pid | Unwatch pid
  | Link pid pid | Unlink pid pid | TakeLinks pid

fun sup_exec :: "sup_op \<Rightarrow> Supervisor \<Rightarrow> Supervisor" where
  "sup_exec (AddChild p spec) s = Supervisor_add_child p spec s"
| "sup_exec (RemoveChild p) s = Supervisor_remove_child p s"
| "sup_exec (Watch p) s = Supervisor_watch p s"
| "sup_exec (Unwatch p) s = Supervisor_unwatch p s"
| "sup_exec (Link a b) s = Supervisor_link a b s"
| "sup_exec (Unlink a b) s = Supervisor_unlink a b s"
| "sup_exec (TakeLinks p) s = snd (Supervisor_linked_pids p s)"

record sup_sys =
  sup :: Supervisor
  tasks :: "restart_task list"

inductive sup_step :: "sup_sys \<Rightarrow> sup_sys \<Rightarrow> bool" where
  call: "sup_step \<sigma> (\<sigma>\<lparr>sup := sup_exec x (sup \<sigma>)\<rparr>)"
| notify: "iter_order (children (sup \<sigma>)) ks \<Longrightarrow> Supervisor_notify_exit ks p (sup \<sigma>) = (s', ts) \<Longrightarrow>
     sup_step \<sigma> \<lparr>sup = s', tasks = tasks \<sigma> @ ts\<rparr>"
| retry: "tasks \<sigma> = us @ t # vs \<Longrightarrow> restart_attempt r t (sup \<sigma>) = (Some t', s') \<Longrightarrow>
     sup_step \<sigma> \<lparr>sup = s', tasks = us @ t' # vs\<rparr>"
| finish: "tasks \<sigma> = us @ t # vs \<Longrightarrow> restart_attempt r t (sup \<sigma>) = (None, s') \<Longrightarrow>
     sup_step \<sigma> \<lparr>sup = s', tasks = us @ vs\<rparr>"

inductive_cases sup_stepE: "sup_step \<sigma> \<sigma>'"

inductive sup_reachable :: "sup_sys \<Rightarrow> bool" where
  start: "sup_reachable \<lparr>sup = Supervisor_new, tasks = []\<rparr>"
| step: "sup_reachable \<sigma> \<Longrightarrow> sup_step \<sigma> \<sigma>' \<Longrightarrow> sup_reachable \<sigma>'"

text \<open>
  The invariants: links are symmetric with multiplicity, every mark belongs to a task that is still
  running, and a running task has an attempt left and a delay that doubled with every failure.
\<close>

definition peers_of :: "('p \<rightharpoonup> 'p list) \<Rightarrow> 'p \<Rightarrow> 'p list" where
  "peers_of m a = (case m a of None \<Rightarrow> [] | Some v \<Rightarrow> v)"

definition link_count :: "('p \<rightharpoonup> 'p list) \<Rightarrow> 'p \<Rightarrow> 'p \<Rightarrow> nat" where
  "link_count m a b = count_list (peers_of m a) b"

definition links_sym :: "('p \<rightharpoonup> 'p list) \<Rightarrow> bool" where
  "links_sym m \<longleftrightarrow> (\<forall>a b. link_count m a b = link_count m b a)"

definition marks_running :: "sup_sys \<Rightarrow> bool" where
  "marks_running \<sigma> \<longleftrightarrow> restarting (sup \<sigma>) \<subseteq> orig_pid ` set (tasks \<sigma>)
     \<and> (\<forall>t\<in>set (tasks \<sigma>). attempts t < max_attempts \<and> backoff_ms t = 100 * 2 ^ attempts t)"

section \<open>Links\<close>

lemma peers_of_simps [simp]:
  "peers_of Map.empty x = []"
  "peers_of (m(a \<mapsto> v)) x = (if x = a then v else peers_of m x)"
  "peers_of (m(a := None)) x = (if x = a then [] else peers_of m x)"
  by (simp_all add: peers_of_def)

lemma peers_of_push: "peers_of (push_link a b m) x = (if x = a then peers_of m a @ [b] else peers_of m x)"
  by (simp add: push_link_def) (simp add: peers_of_def)

lemma peers_of_retain:
  "peers_of (retain_neq p q m) x = (if x = q then filter (\<lambda>y. y \<noteq> p) (peers_of m q) else peers_of m x)"
  by (cases "m q") (auto simp: retain_neq_def peers_of_def)

lemma link_count_push: "link_count (push_link a b m) x y = link_count m x y + (if x = a \<and> y = b then 1 else 0)"
  by (simp add: link_count_def peers_of_push)

lemma link_count_retain: "link_count (retain_neq p q m) x y = (if x = q \<and> y = p then 0 else link_count m x y)"
  by (simp add: link_count_def peers_of_retain)

lemma nested_zero:
  fixes n :: nat
  shows "(if P then 0 else if Q then 0 else n) = (if Q \<or> P then 0 else n)"
  by simp

lemma link_count_fold_retain:
  "link_count (fold (retain_neq p) qs m) x y = (if x \<in> set qs \<and> y = p then 0 else link_count m x y)"
  by (induction qs arbitrary: m) (auto simp: link_count_retain)

lemma link_count_remove: "link_count (m(p := None)) x y = (if x = p then 0 else link_count m x y)"
  by (simp add: link_count_def)

text \<open>Removing a process and every mention of it by a peer.\<close>

definition forget :: "'p \<Rightarrow> ('p \<rightharpoonup> 'p list) \<Rightarrow> ('p \<rightharpoonup> 'p list)" where
  "forget p m = (case m p of Some peers \<Rightarrow> fold (retain_neq p) peers (m(p := None)) | None \<Rightarrow> m)"

lemma link_count_forget:
  assumes "links_sym m"
  shows "link_count (forget p m) x y = (if x = p \<or> y = p then 0 else link_count m x y)"
proof (cases "m p")
  case None
  then have "link_count m p z = 0" for z by (simp add: link_count_def peers_of_def)
  then have "link_count m p z = 0 \<and> link_count m z p = 0" for z
    using assms unfolding links_sym_def by metis
  then show ?thesis using None by (auto simp: forget_def)
next
  case (Some peers)
  have "link_count m x p = 0" if "x \<notin> set peers"
  proof -
    from that Some have "link_count m p x = 0" by (simp add: link_count_def peers_of_def)
    with assms show ?thesis unfolding links_sym_def by metis
  qed
  with Some show ?thesis
    by (auto simp: forget_def link_count_fold_retain link_count_remove)
qed

lemma links_symD: "links_sym m \<Longrightarrow> link_count m a b = link_count m b a"
  by (simp add: links_sym_def)

lemma links_symI: "(\<And>a b. link_count m a b = link_count m b a) \<Longrightarrow> links_sym m"
  by (simp add: links_sym_def)

lemma links_sym_push:
  assumes "links_sym m"
  shows "links_sym (push_link b a (push_link a b m))"
proof (rule links_symI)
  fix x y
  show "link_count (push_link b a (push_link a b m)) x y = link_count (push_link b a (push_link a b m)) y x"
    unfolding link_count_push links_symD [OF assms, of x y] by (simp add: conj_commute add.commute)
qed

lemma links_sym_retain:
  assumes "links_sym m"
  shows "links_sym (retain_neq a b (retain_neq b a m))"
proof (rule links_symI)
  fix x y
  show "link_count (retain_neq a b (retain_neq b a m)) x y = link_count (retain_neq a b (retain_neq b a m)) y x"
    unfolding link_count_retain nested_zero links_symD [OF assms, of x y] by (simp only: conj_commute disj_commute)
qed

lemma links_sym_forget:
  assumes "links_sym m"
  shows "links_sym (forget p m)"
proof (rule links_symI)
  fix x y
  show "link_count (forget p m) x y = link_count (forget p m) y x"
    using links_symD [OF assms, of x y] by (simp add: link_count_forget [OF assms])
qed

lemma links_sym_empty: "links_sym Map.empty"
  by (rule links_symI) (simp add: link_count_def)

lemma linked_pids_forget:
  "Supervisor_linked_pids p s
   = (peers_of (links s) p, s\<lparr>links := forget p (links s)\<rparr>)"
  by (simp add: Supervisor_linked_pids_def forget_def peers_of_def split: option.split)

lemma cleanup_links_forget: "Supervisor_cleanup_links_internal p s = s\<lparr>links := forget p (links s)\<rparr>"
  by (simp add: Supervisor_cleanup_links_internal_def forget_def split: option.split)

lemma link_links: "Supervisor_link a b s = s\<lparr>links := push_link b a (push_link a b (links s))\<rparr>"
  by (simp add: Supervisor_link_def)

lemma unlink_links: "Supervisor_unlink a b s = s\<lparr>links := retain_neq a b (retain_neq b a (links s))\<rparr>"
  by (simp add: Supervisor_unlink_def)

lemma links_unlink: "links (Supervisor_unlink a b s) = retain_neq a b (retain_neq b a (links s))"
  by (simp add: unlink_links)

lemmas sup_link_simps = linked_pids_forget cleanup_links_forget link_links unlink_links

text \<open>
  The contract of a link table, as the runtime uses it: linking is symmetric, unlinking cuts both
  directions, and taking the links of a process returns its peers and leaves no trace of it.
\<close>

locale link_table =
  fixes inv :: "'s \<Rightarrow> bool"
    and linked :: "'s \<Rightarrow> 'p \<Rightarrow> 'p \<Rightarrow> nat"
    and link :: "'p \<Rightarrow> 'p \<Rightarrow> 's \<Rightarrow> 's"
    and unlink :: "'p \<Rightarrow> 'p \<Rightarrow> 's \<Rightarrow> 's"
    and take_links :: "'p \<Rightarrow> 's \<Rightarrow> 'p list \<times> 's"
  assumes linked_sym: "inv s \<Longrightarrow> linked s a b = linked s b a"
    and link_inv: "inv s \<Longrightarrow> inv (link a b s)"
    and unlink_inv: "inv s \<Longrightarrow> inv (unlink a b s)"
    and take_inv: "inv s \<Longrightarrow> inv (snd (take_links p s))"
    and linked_link: "linked (link a b s) x y
        = linked s x y + (if x = a \<and> y = b then 1 else 0) + (if x = b \<and> y = a then 1 else 0)"
    and linked_unlink: "linked (unlink a b s) x y
        = (if (x = a \<and> y = b) \<or> (x = b \<and> y = a) then 0 else linked s x y)"
    and linked_take: "inv s \<Longrightarrow> linked (snd (take_links p s)) x y
        = (if x = p \<or> y = p then 0 else linked s x y)"
    and take_result: "count_list (fst (take_links p s)) q = linked s p q"
begin

lemma take_returns_peers: "inv s \<Longrightarrow> q \<in> set (fst (take_links p s)) \<longleftrightarrow> linked s q p \<noteq> 0"
  using take_result [of p s q] linked_sym [of s p q] by (metis count_list_0_iff)

lemma take_twice: "inv s \<Longrightarrow> fst (take_links p (snd (take_links p s))) = []"
proof -
  assume "inv s"
  then have "count_list (fst (take_links p (snd (take_links p s)))) q = 0" for q
    by (simp add: take_result linked_take)
  then show ?thesis by (metis count_list_0_iff list.set_intros(1) neq_Nil_conv)
qed

lemma unlink_link_gone: "linked (unlink a b (link a b s)) a b = 0"
  by (simp add: linked_unlink)

lemma link_visible: "q \<in> set (fst (take_links p (link p q s)))"
proof -
  have "count_list (fst (take_links p (link p q s))) q \<noteq> 0"
    unfolding take_result linked_link by simp
  then show ?thesis by (simp add: count_list_0_iff)
qed

end

interpretation peers: link_table "\<lambda>s. links_sym (links s)" "\<lambda>s. link_count (links s)"
  Supervisor_link Supervisor_unlink Supervisor_linked_pids
proof unfold_locales
  fix s :: Supervisor and a b p x y
  assume inv: "links_sym (links s)"
  show "link_count (links s) a b = link_count (links s) b a" using inv by (rule links_symD)
  show "links_sym (links (Supervisor_link a b s))" using inv by (simp add: sup_link_simps links_sym_push)
  show "links_sym (links (Supervisor_unlink a b s))" using inv by (simp add: sup_link_simps links_sym_retain)
  show "links_sym (links (snd (Supervisor_linked_pids p s)))"
    using inv by (simp add: sup_link_simps links_sym_forget)
  show "link_count (links (snd (Supervisor_linked_pids p s))) x y
     = (if x = p \<or> y = p then 0 else link_count (links s) x y)"
    using inv by (simp add: sup_link_simps link_count_forget)
next
  fix s :: Supervisor and a b p q x y
  show "link_count (links (Supervisor_link a b s)) x y = link_count (links s) x y
      + (if x = a \<and> y = b then 1 else 0) + (if x = b \<and> y = a then 1 else 0)"
    by (simp add: sup_link_simps link_count_push)
  show "link_count (links (Supervisor_unlink a b s)) x y
      = (if (x = a \<and> y = b) \<or> (x = b \<and> y = a) then 0 else link_count (links s) x y)"
    unfolding links_unlink link_count_retain nested_zero ..
  show "count_list (fst (Supervisor_linked_pids p s)) q = link_count (links s) p q"
    by (simp add: sup_link_simps link_count_def)
qed

section \<open>One round of a restart task\<close>

text \<open>What the end of a task does to the supervisor: the child replaced, or dropped.\<close>

definition retire :: "pid \<Rightarrow> ChildSpec \<Rightarrow> pid option \<Rightarrow> Supervisor \<Rightarrow> Supervisor" where
  "retire p spec new s =
     s\<lparr>children := (case new of Some n \<Rightarrow> (children s)(n \<mapsto> spec) | None \<Rightarrow> children s)(p := None),
       links := forget p (links s), restarting := restarting s - {p}\<rparr>"

lemma restart_attempt_ok:
  "restart_attempt (Inr n) t s = (None, retire (orig_pid t) (child_spec t) (Some n) s)"
  by (simp add: restart_attempt_def retire_def cleanup_links_forget Let_def)

lemma restart_attempt_fail:
  "restart_attempt (Inl e) t s =
     (if max_attempts \<le> Suc (attempts t)
      then (None, retire (orig_pid t) (child_spec t) None (s\<lparr>errors := errors s @ [e]\<rparr>))
      else (Some (t\<lparr>attempts := Suc (attempts t), backoff_ms := saturating_mul (backoff_ms t) 2\<rparr>),
            s\<lparr>errors := errors s @ [e]\<rparr>))"
  by (simp add: restart_attempt_def retire_def cleanup_links_forget Let_def)

lemma retire_fields [simp]:
  "links (retire p spec new s) = forget p (links s)"
  "restarting (retire p spec new s) = restarting s - {p}"
  "errors (retire p spec new s) = errors s"
  by (simp_all add: retire_def)

lemma restart_attempt_retry:
  assumes "restart_attempt r t s = (Some t', s')"
  shows "orig_pid t' = orig_pid t" and "links s' = links s" and "restarting s' = restarting s"
    and "attempts t' = Suc (attempts t)" and "attempts t' < max_attempts"
    and "backoff_ms t' = saturating_mul (backoff_ms t) 2"
  using assms by (cases r; auto simp: restart_attempt_ok restart_attempt_fail split: if_splits)+

lemma restart_attempt_finish:
  assumes "restart_attempt r t s = (None, s')"
  shows "links s' = forget (orig_pid t) (links s)" and "restarting s' = restarting s - {orig_pid t}"
  using assms by (cases r; auto simp: restart_attempt_ok restart_attempt_fail split: if_splits)+

lemma notify_exit_links: "Supervisor_notify_exit ks p s = (s', ts) \<Longrightarrow> links s' = links s"
  by (auto simp: Supervisor_notify_exit_def Let_def split: if_splits option.splits RestartStrategy.splits)

text \<open>The three outcomes of \<^verbatim>\<open>notify_exit\<close>.\<close>

lemma notify_exit_busy: "p \<in> restarting s \<Longrightarrow> Supervisor_notify_exit ks p s = (s, [])"
  by (simp add: Supervisor_notify_exit_def)

lemma notify_exit_unknown:
  assumes "children s p = None"
  shows "Supervisor_notify_exit ks p s = (s, [])"
proof (cases "p \<in> restarting s")
  case False
  then have "s\<lparr>restarting := restarting s - {p}\<rparr> = s" by simp
  with False assms show ?thesis by (simp add: Supervisor_notify_exit_def)
qed (simp add: notify_exit_busy)

lemma notify_exit_one:
  "p \<notin> restarting s \<Longrightarrow> children s p = Some spec \<Longrightarrow> strategy spec = RestartOne \<Longrightarrow>
     Supervisor_notify_exit ks p s
     = (s\<lparr>restarting := insert p (restarting s)\<rparr>, [spawn_restart p spec])"
  by (simp add: Supervisor_notify_exit_def Let_def)

lemma notify_exit_all:
  assumes "p \<notin> restarting s" and "children s p = Some spec" and "strategy spec = RestartAll"
    and ks: "iter_order (children s) ks"
  shows "Supervisor_notify_exit ks p s
     = (s\<lparr>restarting := restarting s \<union> dom (children s)\<rparr>,
        map (\<lambda>(q, sp). spawn_restart q sp) (iter_entries (children s) ks))"
proof -
  have "fst ` set (iter_entries (children s) ks) = dom (children s)"
    using map_fst_iter_entries [OF ks] iter_orderD(2) [OF ks] by (metis set_map)
  moreover have "insert p (dom (children s)) = dom (children s)" using assms(2) by auto
  ultimately show ?thesis using assms
    by (simp add: Supervisor_notify_exit_def Let_def) (simp flip: Un_insert_right)
qed

section \<open>The invariants hold in every reachable state\<close>

lemma sup_exec_links_sym: "links_sym (links s) \<Longrightarrow> links_sym (links (sup_exec x s))"
  by (cases x) (auto simp: sup_link_simps links_sym_push links_sym_retain links_sym_forget
      Supervisor_add_child_def Supervisor_remove_child_def Supervisor_watch_def Supervisor_unwatch_def)

lemma sup_step_links_sym: "sup_step \<sigma> \<sigma>' \<Longrightarrow> links_sym (links (sup \<sigma>)) \<Longrightarrow> links_sym (links (sup \<sigma>'))"
  by (erule sup_stepE) (auto simp: sup_exec_links_sym links_sym_forget
      dest: notify_exit_links restart_attempt_retry restart_attempt_finish)

lemma reachable_links_sym: "sup_reachable \<sigma> \<Longrightarrow> links_sym (links (sup \<sigma>))"
  by (induction rule: sup_reachable.induct)
    (auto simp: Supervisor_new_def links_sym_empty sup_step_links_sym)

lemma sup_exec_restarting: "restarting (sup_exec x s) \<subseteq> restarting s"
  by (cases x) (auto simp: sup_link_simps
      Supervisor_add_child_def Supervisor_remove_child_def Supervisor_watch_def Supervisor_unwatch_def)

lemma spawn_restart_fields [simp]:
  "orig_pid (spawn_restart p spec) = p" "child_spec (spawn_restart p spec) = spec"
  "attempts (spawn_restart p spec) = 0" "backoff_ms (spawn_restart p spec) = 100"
  by (simp_all add: spawn_restart_def)

lemma notify_exit_marks:
  assumes ks: "iter_order (children s) ks" and n: "Supervisor_notify_exit ks p s = (s', ts)"
  shows "restarting s' \<subseteq> restarting s \<union> orig_pid ` set ts"
    and "t \<in> set ts \<Longrightarrow> attempts t = 0 \<and> backoff_ms t = 100"
proof -
  have *: "fst ` set (iter_entries (children s) ks) = dom (children s)"
    using map_fst_iter_entries [OF ks] iter_orderD(2) [OF ks] by (metis set_map)
  consider "p \<in> restarting s" | "children s p = None"
    | spec where "p \<notin> restarting s" "children s p = Some spec" "strategy spec = RestartOne"
    | spec where "p \<notin> restarting s" "children s p = Some spec" "strategy spec = RestartAll"
    by (metis RestartStrategy.exhaust not_Some_eq)
  then have "restarting s' \<subseteq> restarting s \<union> orig_pid ` set ts
      \<and> (\<forall>t\<in>set ts. attempts t = 0 \<and> backoff_ms t = 100)"
  proof cases
    case 4
    from notify_exit_all [OF 4 ks] n * show ?thesis by (force simp: image_image case_prod_beta)
  qed (use n in \<open>auto simp: notify_exit_busy notify_exit_unknown notify_exit_one\<close>)
  then show "restarting s' \<subseteq> restarting s \<union> orig_pid ` set ts"
    and "t \<in> set ts \<Longrightarrow> attempts t = 0 \<and> backoff_ms t = 100" by auto
qed

lemma backoff_doubles:
  assumes "n < max_attempts"
  shows "saturating_mul (100 * 2 ^ n) 2 = 100 * 2 ^ Suc n"
proof -
  from assms have "n = 0 \<or> n = 1 \<or> n = 2" by (auto simp: max_attempts_def)
  then show ?thesis by (auto simp: saturating_mul_def)
qed

lemma sup_step_marks_running: "sup_step \<sigma> \<sigma>' \<Longrightarrow> marks_running \<sigma> \<Longrightarrow> marks_running \<sigma>'"
proof (erule sup_stepE)
  fix x assume m: "marks_running \<sigma>" and "\<sigma>' = \<sigma>\<lparr>sup := sup_exec x (sup \<sigma>)\<rparr>"
  then show ?thesis using sup_exec_restarting [of x "sup \<sigma>"] by (auto simp: marks_running_def)
next
  fix ks p s' ts
  assume m: "marks_running \<sigma>" and \<sigma>': "\<sigma>' = \<lparr>sup = s', tasks = tasks \<sigma> @ ts\<rparr>"
    and n: "iter_order (children (sup \<sigma>)) ks" "Supervisor_notify_exit ks p (sup \<sigma>) = (s', ts)"
  from notify_exit_marks [OF n] m show ?thesis
    by (fastforce simp: \<sigma>' marks_running_def max_attempts_def)
next
  fix us t vs r t' s'
  assume m: "marks_running \<sigma>" and \<sigma>': "\<sigma>' = \<lparr>sup = s', tasks = us @ t' # vs\<rparr>"
    and n: "tasks \<sigma> = us @ t # vs" "restart_attempt r t (sup \<sigma>) = (Some t', s')"
  from m n(1) have "attempts t < max_attempts" "backoff_ms t = 100 * 2 ^ attempts t"
    by (simp_all add: marks_running_def)
  with restart_attempt_retry [OF n(2)] backoff_doubles have "backoff_ms t' = 100 * 2 ^ attempts t'"
    by simp
  with restart_attempt_retry [OF n(2)] m n(1) show ?thesis by (auto simp: \<sigma>' marks_running_def)
next
  fix us t vs r s'
  assume m: "marks_running \<sigma>" and \<sigma>': "\<sigma>' = \<lparr>sup = s', tasks = us @ vs\<rparr>"
    and n: "tasks \<sigma> = us @ t # vs" "restart_attempt r t (sup \<sigma>) = (None, s')"
  from restart_attempt_finish [OF n(2)] m n(1) show ?thesis by (auto simp: \<sigma>' marks_running_def)
qed

lemma reachable_marks_running: "sup_reachable \<sigma> \<Longrightarrow> marks_running \<sigma>"
proof (induction rule: sup_reachable.induct)
  case start
  show ?case by (simp add: marks_running_def Supervisor_new_def)
qed (rule sup_step_marks_running)

section \<open>The restart loop against its specification\<close>

text \<open>
  What a restart task is meant to do: call the factory until it succeeds, at most \<open>k\<close> times,
  collecting the errors.
\<close>

fun try_factory ::
    "nat \<Rightarrow> (nat \<Rightarrow> 'w \<Rightarrow> (string + pid) \<times> 'w) \<Rightarrow> closure \<Rightarrow> 'w \<Rightarrow> string list \<times> pid option \<times> 'w" where
  "try_factory 0 env f w = ([], None, w)"
| "try_factory (Suc k) env f w =
     (case call_factory env f w of
        (Inr n, w') \<Rightarrow> ([], Some n, w')
      | (Inl e, w') \<Rightarrow> (case try_factory k env f w' of (es, r, w'') \<Rightarrow> (e # es, r, w'')))"

lemma restart_loop_try_factory:
  assumes "attempts t < max_attempts"
    and "try_factory (max_attempts - attempts t) env (factory (child_spec t)) w = (es, r, w')"
  shows "restart_loop env t s w = (retire (orig_pid t) (child_spec t) r (s\<lparr>errors := errors s @ es\<rparr>), w')"
  using assms
proof (induction env t s w arbitrary: es rule: restart_loop.induct)
  case (1 env t s w)
  obtain k where k: "max_attempts - attempts t = Suc k" using "1.prems"(1) by (cases "max_attempts - attempts t") auto
  obtain q w1 where c: "call_factory env (factory (child_spec t)) w = (q, w1)" by fastforce
  show ?case
  proof (cases q)
    case (Inr n)
    with "1.prems" k c show ?thesis
      by (subst restart_loop.simps) (simp add: restart_attempt_ok)
  next
    case (Inl e)
    obtain es' where rest: "try_factory k env (factory (child_spec t)) w1 = (es', r, w')" and es: "es = e # es'"
      using "1.prems"(2) k c Inl by (auto split: prod.splits)
    show ?thesis
    proof (cases k)
      case 0
      with k have "max_attempts \<le> Suc (attempts t)" by simp
      with 0 rest es show ?thesis
        by (subst restart_loop.simps) (auto simp: c Inl restart_attempt_fail)
    next
      case (Suc j)
      with k have lt: "Suc (attempts t) < max_attempts" and k': "max_attempts - Suc (attempts t) = k" by auto
      from lt have step: "restart_attempt q t s =
          (Some (t\<lparr>attempts := Suc (attempts t), backoff_ms := saturating_mul (backoff_ms t) 2\<rparr>),
           s\<lparr>errors := errors s @ [e]\<rparr>)" by (simp add: Inl restart_attempt_fail)
      from "1.IH" [OF c [symmetric] step [symmetric] refl, of es'] lt k' rest
      show ?thesis by (subst restart_loop.simps) (simp add: c step es retire_def)
    qed
  qed
qed

section \<open>Properties\<close>

text \<open>
  Links stay bidirectional at the grain of methods. In every state the supervisor can reach, through calls, exit
  notifications and the rounds of its restart tasks in any order, each in one step, \<^verbatim>\<open>linked_pids(p)\<close> returns exactly
  the processes that list \<open>p\<close> as a peer, with multiplicity; afterwards no process lists \<open>p\<close>,
  \<open>p\<close> lists none, and the links among the others are as they were.
\<close>

theorem linked_pids_exact:
  assumes "sup_reachable \<sigma>" and "Supervisor_linked_pids p (sup \<sigma>) = (ps, s')"
  shows "count_list ps q = count_list (peers_of (links (sup \<sigma>)) q) p
    \<and> count_list (peers_of (links s') x) y
        = (if x = p \<or> y = p then 0 else count_list (peers_of (links (sup \<sigma>)) x) y)"
  using peers.take_result [of p "sup \<sigma>" q] peers.linked_take [of "sup \<sigma>" p x y]
    peers.linked_sym [of "sup \<sigma>" p q] reachable_links_sym [OF assms(1)] assms(2)
  by (simp add: link_count_def)

lemma linked_example:
  "sup_reachable \<lparr>sup = Supervisor_link 1 2 (Supervisor_link 1 3 Supervisor_new), tasks = []\<rparr>"
proof -
  let ?s = "\<lambda>s. \<lparr>sup = s, tasks = []\<rparr> :: sup_sys"
  have "sup_reachable (?s (Supervisor_link 1 3 Supervisor_new))"
    using sup_reachable.step [OF sup_reachable.start sup_step.call [where x = "Link 1 3"]] by simp
  from sup_reachable.step [OF this sup_step.call [where x = "Link 1 2"]] show ?thesis by simp
qed

theorem linked_pids_exact_witness:
  "\<exists>ps s'. Supervisor_linked_pids 1 (Supervisor_link 1 2 (Supervisor_link 1 3 Supervisor_new)) = (ps, s')
     \<and> ps = [3, 2] \<and> count_list (peers_of (links s') 2) 1 = 0"
proof -
  obtain ps s' where l: "Supervisor_linked_pids 1 (Supervisor_link 1 2 (Supervisor_link 1 3 Supervisor_new)) = (ps, s')"
    by fastforce
  then have "ps = [3, 2]"
    by (simp add: linked_pids_forget link_links Supervisor_new_def peers_of_push)
  with linked_pids_exact [OF linked_example, of 1 ps s' 2 2 1] l show ?thesis by simp
qed

text \<open>
  C11: an exit is never swallowed. In every reachable state a mark in \<^verbatim>\<open>restarting\<close> belongs to a
  restart task that still runs, has made fewer than three attempts and waits 100 ms doubled once
  per failed attempt. So when no task runs for a supervised \<open>p\<close>, \<^verbatim>\<open>notify_exit(p)\<close> starts one, with
  the specification \<open>p\<close> was registered with.
\<close>

theorem exit_starts_restart:
  assumes "sup_reachable \<sigma>" and "\<forall>t\<in>set (tasks \<sigma>). orig_pid t \<noteq> p"
    and "children (sup \<sigma>) p = Some spec" and "iter_order (children (sup \<sigma>)) ks"
  shows "spawn_restart p spec \<in> set (snd (Supervisor_notify_exit ks p (sup \<sigma>)))
    \<and> p \<in> restarting (fst (Supervisor_notify_exit ks p (sup \<sigma>)))
    \<and> (\<forall>t\<in>set (tasks \<sigma>). attempts t < 3 \<and> backoff_ms t = 100 * 2 ^ attempts t)"
proof (intro conjI)
  from reachable_marks_running [OF assms(1)] assms(2) have p: "p \<notin> restarting (sup \<sigma>)"
    by (auto simp: marks_running_def)
  have mem: "(p, spec) \<in> set (iter_entries (children (sup \<sigma>)) ks)"
    using assms(3,4) by (simp add: iter_entries_member)
  show "spawn_restart p spec \<in> set (snd (Supervisor_notify_exit ks p (sup \<sigma>)))"
    using mem notify_exit_one [OF p assms(3)] notify_exit_all [OF p assms(3) _ assms(4)]
    by (cases "strategy spec") (auto simp: image_iff split: prod.splits)
  show "p \<in> restarting (fst (Supervisor_notify_exit ks p (sup \<sigma>)))"
    using assms(3) notify_exit_one [OF p assms(3)] notify_exit_all [OF p assms(3) _ assms(4)]
    by (cases "strategy spec") auto
  show "\<forall>t\<in>set (tasks \<sigma>). attempts t < 3 \<and> backoff_ms t = 100 * 2 ^ attempts t"
    using reachable_marks_running [OF assms(1)] by (simp add: marks_running_def max_attempts_def)
qed

lemma watched_example: "sup_reachable \<lparr>sup = Supervisor_watch 5 Supervisor_new, tasks = []\<rparr>"
  using sup_reachable.step [OF sup_reachable.start sup_step.call [where x = "Watch 5"]] by simp

theorem exit_starts_restart_witness:
  "spawn_restart 5 \<lparr>factory = ReturnPid 5, strategy = RestartOne\<rparr>
     \<in> set (snd (Supervisor_notify_exit [5] 5 (Supervisor_watch 5 Supervisor_new)))"
  using exit_starts_restart [OF watched_example, of 5 "\<lparr>factory = ReturnPid 5, strategy = RestartOne\<rparr>" "[5]"]
  by (simp add: Supervisor_watch_def Supervisor_new_def iter_order_def)

text \<open>
  C10: a restart task always ends, and ends as specified. The factory is called until it succeeds,
  at most three times; every error is appended to \<^verbatim>\<open>errors\<close> in order; on success the child is stored
  under the new identifier and removed under the old one, after three failures it is dropped; in
  both cases the links of the old identifier are cut on both sides and its mark is cleared.
\<close>

theorem restart_loop_spec:
  assumes "try_factory 3 env (factory spec) w = (es, r, w')"
  shows "restart_loop env (spawn_restart p spec) s w =
     (s\<lparr>children := (case r of Some n \<Rightarrow> (children s)(n \<mapsto> spec) | None \<Rightarrow> children s)(p := None),
        errors := errors s @ es, links := forget p (links s), restarting := restarting s - {p}\<rparr>, w')"
  using restart_loop_try_factory [of "spawn_restart p spec" env w es r w' s] assms
  by (cases r) (simp_all add: max_attempts_def retire_def)

definition flaky_factory :: "nat \<Rightarrow> nat \<Rightarrow> (string + pid) \<times> nat" where
  "flaky_factory n w = (if w = 0 then Inl ''boom'' else Inr (of_nat (n + w)), w + 1)"

theorem restart_loop_spec_witness:
  "children (fst (restart_loop flaky_factory (spawn_restart 1 \<lparr>factory = UserFactory 6, strategy = RestartOne\<rparr>)
      (Supervisor_watch 1 Supervisor_new) 0)) 7 = Some \<lparr>factory = UserFactory 6, strategy = RestartOne\<rparr>
   \<and> errors (fst (restart_loop flaky_factory (spawn_restart 1 \<lparr>factory = UserFactory 6, strategy = RestartOne\<rparr>)
      (Supervisor_watch 1 Supervisor_new) 0)) = [''boom'']"
proof -
  have "try_factory 3 flaky_factory (UserFactory 6) 0 = ([''boom''], Some 7, 2)"
    by (simp add: numeral_3_eq_3 call_factory_def flaky_factory_def)
  then show ?thesis
    using restart_loop_spec [of flaky_factory "\<lparr>factory = UserFactory 6, strategy = RestartOne\<rparr>" 0
        "[''boom'']" "Some 7" 2 1 "Supervisor_watch 1 Supervisor_new"]
    by (simp add: Supervisor_watch_def Supervisor_new_def)
qed

text \<open>
  C33: an exit under \<^verbatim>\<open>RestartAll\<close> starts exactly one restart task per supervised child, in the order
  the child map is iterated and each with the child's own specification, keeps the child map as it
  is meanwhile, and marks the whole group, so that a second exit notification for any member of the
  group is ignored.
\<close>

theorem restart_all_restarts_group:
  assumes "p \<notin> restarting s" and "children s p = Some spec" and "strategy spec = RestartAll"
    and "iter_order (children s) ks" and "Supervisor_notify_exit ks p s = (s', ts)"
  shows "map orig_pid ts = ks \<and> (\<forall>t\<in>set ts. children s (orig_pid t) = Some (child_spec t))
    \<and> children s' = children s
    \<and> (children s q \<noteq> None \<longrightarrow> Supervisor_notify_exit ks' q s' = (s', []))"
proof -
  note n = notify_exit_all [OF assms(1-4)]
  from n assms(5) have ts: "ts = map (\<lambda>(q, sp). spawn_restart q sp) (iter_entries (children s) ks)" by simp
  have "map orig_pid (map (\<lambda>(q, sp). spawn_restart q sp) es) = map fst es" for es
    by (induction es) auto
  then have "map orig_pid ts = ks" unfolding ts using map_fst_iter_entries [OF assms(4)] by (rule trans)
  moreover have "\<forall>t\<in>set ts. children s (orig_pid t) = Some (child_spec t)"
    using n assms(4,5) by (auto simp: set_iter_entries)
  moreover have "children s q \<noteq> None \<longrightarrow> Supervisor_notify_exit ks' q s' = (s', [])"
    using n assms(5) by (intro impI notify_exit_busy) auto
  moreover have "children s' = children s" using n assms(5) by auto
  ultimately show ?thesis by blast
qed

definition group_example :: Supervisor where
  "group_example = Supervisor_add_child 2 \<lparr>factory = UserFactory 2, strategy = RestartAll\<rparr>
     (Supervisor_add_child 1 \<lparr>factory = UserFactory 1, strategy = RestartOne\<rparr> Supervisor_new)"

lemma group_example_order: "iter_order (children group_example) [1, 2]"
  by (auto simp: group_example_def Supervisor_add_child_def Supervisor_new_def iter_order_def)

theorem restart_all_restarts_group_witness:
  "\<exists>s' ts. Supervisor_notify_exit [1, 2] 2 group_example = (s', ts) \<and> map orig_pid ts = [1, 2]"
proof -
  obtain s' ts where n: "Supervisor_notify_exit [1, 2] 2 group_example = (s', ts)" by fastforce
  have "2 \<notin> restarting group_example"
    "children group_example 2 = Some \<lparr>factory = UserFactory 2, strategy = RestartAll\<rparr>"
    by (simp_all add: group_example_def Supervisor_add_child_def Supervisor_new_def)
  from restart_all_restarts_group [OF this _ group_example_order n] n show ?thesis by auto
qed

text \<open>
  A restart that the group is already going through is not debounced. With a child 1 under
  \<^verbatim>\<open>RestartOne\<close> and a child 2 under \<^verbatim>\<open>RestartAll\<close>, an exit of 1 followed by an exit of 2 runs two
  restart tasks for 1; when both factories succeed, the quiescent supervisor has three children
  where two were registered.
\<close>

theorem restart_all_duplicates_child:
  "\<exists>\<sigma>. sup_reachable \<lparr>sup = group_example, tasks = []\<rparr> \<and> sup_reachable \<sigma> \<and> tasks \<sigma> = []
     \<and> sup_step\<^sup>*\<^sup>* \<lparr>sup = group_example, tasks = []\<rparr> \<sigma>
     \<and> Supervisor_children_count group_example = 2 \<and> Supervisor_children_count (sup \<sigma>) = 3"
proof -
  let ?A = "\<lparr>factory = UserFactory 1, strategy = RestartOne\<rparr>"
  let ?B = "\<lparr>factory = UserFactory 2, strategy = RestartAll\<rparr>"
  let ?t = "spawn_restart 1 ?A" and ?u = "spawn_restart 2 ?B"
  let ?s1 = "group_example\<lparr>restarting := {1}\<rparr>" and ?s2 = "group_example\<lparr>restarting := {1, 2}\<rparr>"
  let ?s3 = "retire 1 ?A (Some 10) ?s2"
  let ?s4 = "retire 1 ?A (Some 11) ?s3"
  let ?s5 = "retire 2 ?B (Some 12) ?s4"
  have c: "children group_example = [1 \<mapsto> ?A, 2 \<mapsto> ?B]" "restarting group_example = {}"
    by (simp_all add: group_example_def Supervisor_add_child_def Supervisor_new_def)
  have n1: "Supervisor_notify_exit [1, 2] 1 group_example = (?s1, [?t])"
    by (subst notify_exit_one [where spec = ?A]) (simp_all add: c)
  have n2: "Supervisor_notify_exit [1, 2] 2 ?s1 = (?s2, [?t, ?u])"
    by (subst notify_exit_all [where spec = ?B]) (auto simp: c iter_order_def insert_commute)
  have r0: "sup_reachable \<lparr>sup = group_example, tasks = []\<rparr>"
    using sup_reachable.step [OF sup_reachable.step [OF sup_reachable.start
        sup_step.call [where x = "AddChild 1 ?A"]] sup_step.call [where x = "AddChild 2 ?B"]]
    by (simp add: group_example_def)
  have "sup_step \<lparr>sup = group_example, tasks = []\<rparr> \<lparr>sup = ?s1, tasks = [?t]\<rparr>"
    using sup_step.notify [of "\<lparr>sup = group_example, tasks = []\<rparr>" "[1, 2]" 1 ?s1 "[?t]"] n1 group_example_order
    by simp
  moreover have "sup_step \<lparr>sup = ?s1, tasks = [?t]\<rparr> \<lparr>sup = ?s2, tasks = [?t, ?t, ?u]\<rparr>"
    using sup_step.notify [of "\<lparr>sup = ?s1, tasks = [?t]\<rparr>" "[1, 2]" 2 ?s2 "[?t, ?u]"] n2 group_example_order
    by simp
  moreover have "sup_step \<lparr>sup = ?s2, tasks = [?t, ?t, ?u]\<rparr> \<lparr>sup = ?s3, tasks = [?t, ?u]\<rparr>"
    using sup_step.finish [of "\<lparr>sup = ?s2, tasks = [?t, ?t, ?u]\<rparr>" "[]" ?t "[?t, ?u]" "Inr 10"]
    by (simp add: restart_attempt_ok)
  moreover have "sup_step \<lparr>sup = ?s3, tasks = [?t, ?u]\<rparr> \<lparr>sup = ?s4, tasks = [?u]\<rparr>"
    using sup_step.finish [of "\<lparr>sup = ?s3, tasks = [?t, ?u]\<rparr>" "[]" ?t "[?u]" "Inr 11"]
    by (simp add: restart_attempt_ok)
  moreover have "sup_step \<lparr>sup = ?s4, tasks = [?u]\<rparr> \<lparr>sup = ?s5, tasks = []\<rparr>"
    using sup_step.finish [of "\<lparr>sup = ?s4, tasks = [?u]\<rparr>" "[]" ?u "[]" "Inr 12"]
    by (simp add: restart_attempt_ok)
  ultimately have run: "sup_step\<^sup>*\<^sup>* \<lparr>sup = group_example, tasks = []\<rparr> \<lparr>sup = ?s5, tasks = []\<rparr>"
    by (meson converse_rtranclp_into_rtranclp rtranclp.rtrancl_refl)
  then have "sup_reachable \<lparr>sup = ?s5, tasks = []\<rparr>"
    by (induction rule: rtranclp_induct) (auto intro: r0 sup_reachable.step)
  moreover have "dom (children ?s5) = {10, 11, 12}"
    by (auto simp: retire_def c)
  moreover have "dom (children group_example) = {1, 2}" by (auto simp: c)
  ultimately show ?thesis using r0 run by (fastforce simp: Supervisor_children_count_def)
qed

text \<open>
  A factory that returns the identifier of the child it restarts loses the child: the new entry
  is inserted first and the old key, the same one, is removed after it. This is the case of every
  child registered with \<^verbatim>\<open>watch\<close>, whose factory returns the watched identifier: its first exit
  takes it out of supervision, with no error recorded.
\<close>

theorem watched_child_lost_at_exit:
  assumes "p \<notin> restarting s" and "Supervisor_notify_exit ks p (Supervisor_watch p s) = (s', ts)"
  shows "ts = [spawn_restart p \<lparr>factory = ReturnPid p, strategy = RestartOne\<rparr>]
    \<and> \<not> Supervisor_contains_child (fst (restart_loop env (hd ts) s' w)) p
    \<and> Supervisor_errors (fst (restart_loop env (hd ts) s' w)) = Supervisor_errors s"
proof -
  let ?spec = "\<lparr>factory = ReturnPid p, strategy = RestartOne\<rparr>"
  let ?s = "Supervisor_watch p s"
  have "p \<notin> restarting ?s" "children ?s p = Some ?spec" using assms(1) by (simp_all add: Supervisor_watch_def)
  from notify_exit_one [OF this] assms(2)
  have n: "ts = [spawn_restart p ?spec]" "s' = ?s\<lparr>restarting := insert p (restarting ?s)\<rparr>" by auto
  have "try_factory 3 env (ReturnPid p) w = ([], Some p, w)"
    by (simp add: numeral_3_eq_3 call_factory_def)
  then have "restart_loop env (spawn_restart p ?spec) s' w = (retire p ?spec (Some p) s', w)"
    using restart_loop_try_factory [of "spawn_restart p ?spec" env w "[]" "Some p" w s']
    by (simp add: max_attempts_def)
  then show ?thesis
    by (simp add: n Supervisor_contains_child_def Supervisor_errors_def retire_def Supervisor_watch_def)
qed

theorem watched_child_lost_at_exit_witness:
  "\<exists>s' ts. Supervisor_notify_exit [5] 5 (Supervisor_watch 5 Supervisor_new) = (s', ts)
     \<and> Supervisor_contains_child s' 5
     \<and> \<not> Supervisor_contains_child (fst (restart_loop flaky_factory (hd ts) s' 0)) 5"
proof -
  obtain s' ts where n: "Supervisor_notify_exit [5] 5 (Supervisor_watch 5 Supervisor_new) = (s', ts)"
    by fastforce
  moreover have "Supervisor_contains_child s' 5"
    using n by (auto simp: Supervisor_notify_exit_def Supervisor_watch_def Supervisor_new_def
        Supervisor_contains_child_def)
  ultimately show ?thesis
    using watched_child_lost_at_exit [of 5 Supervisor_new "[5]" s' ts flaky_factory 0]
    by (auto simp: Supervisor_new_def)
qed

end
