(* ===== verification/Links.thy ===== *)
theory Links
  imports Supervisor
begin

text \<open>
  The link table of \<^verbatim>\<open>src/supervisor.rs\<close> at the grain of its \<^verbatim>\<open>DashMap\<close>. In \<open>Supervisor\<close> the methods
  \<^verbatim>\<open>link\<close>, \<^verbatim>\<open>unlink\<close> and \<^verbatim>\<open>linked_pids\<close> are one step each. In the code each is several calls on the map
  \<^verbatim>\<open>links\<close>, and other threads can run in between. Here a pending method is the list of map calls it has
  still to make, and \<open>links_step\<close> interleaves the calls of all pending methods.

  Shown: run alone the methods are those of \<open>Supervisor\<close>; whatever the interleaving, as long as no
  \<^verbatim>\<open>link\<close> of a pair overlaps a method that cuts the same pair, the table is symmetric and \<^verbatim>\<open>linked_pids\<close> is
  exact; and a \<^verbatim>\<open>link\<close> that does overlap the exit of its process leaves a one-sided link behind.
\<close>

section \<open>Map calls and methods\<close>

text \<open>\<open>Push a b\<close> is \<^verbatim>\<open>links.entry(a).or_insert_with(Vec::new).push(b)\<close>, \<open>Retain p q\<close> removes \<open>p\<close> from the
  entry of \<open>q\<close>, \<open>RemoveEntry p\<close> is \<^verbatim>\<open>links.remove(&p)\<close>, which is followed by a \<open>Retain\<close> for every peer.\<close>

datatype link_op = Push pid pid | Retain pid pid | RemoveEntry pid

fun op_exec :: "link_op \<Rightarrow> (pid \<rightharpoonup> pid list) \<Rightarrow> link_op list \<times> (pid \<rightharpoonup> pid list)" where
  "op_exec (Push a b) m = ([], push_link a b m)"
| "op_exec (Retain p q) m = ([], retain_neq p q m)"
| "op_exec (RemoveEntry p) m =
     (case m p of
        Some linked_peers \<Rightarrow> (map (Retain p) linked_peers, m(p := None))
      | None \<Rightarrow> ([], m))"

datatype link_call = CallLink pid pid | CallUnlink pid pid | CallLinkedPids pid | CallCleanup pid

fun call_ops :: "link_call \<Rightarrow> link_op list" where
  "call_ops (CallLink a b) = [Push a b, Push b a]"
| "call_ops (CallUnlink a b) = [Retain b a, Retain a b]"
| "call_ops (CallLinkedPids p) = [RemoveEntry p]"
| "call_ops (CallCleanup p) = [RemoveEntry p]"

record link_sys =
  ltable :: "pid \<rightharpoonup> pid list"
  lcalls :: "link_op list list"

definition links_new :: link_sys where
  "links_new = \<lparr>ltable = Map.empty, lcalls = []\<rparr>"








text \<open>The same steps as a function, for concrete runs: start a method, or let the \<open>i\<close>-th pending method make
  its next call.\<close>

datatype link_event = StartCall link_call | NextOp nat

fun links_do :: "link_event \<Rightarrow> link_sys \<Rightarrow> link_sys option" where
  "links_do (StartCall c) \<sigma> = Some (\<sigma>\<lparr>lcalls := lcalls \<sigma> @ [call_ops c]\<rparr>)"
| "links_do (NextOp i) \<sigma> =
     (if i < length (lcalls \<sigma>) then
        case lcalls \<sigma> ! i of
          [] \<Rightarrow> None
        | x # xs \<Rightarrow> (case op_exec x (ltable \<sigma>) of (todo, m) \<Rightarrow>
            Some (\<sigma>\<lparr>ltable := m, lcalls := (lcalls \<sigma>)[i := todo @ xs]\<rparr>))
      else None)"

fun links_events :: "link_event list \<Rightarrow> link_sys \<Rightarrow> link_sys option" where
  "links_events [] \<sigma> = Some \<sigma>"
| "links_events (e # es) \<sigma> = (case links_do e \<sigma> of None \<Rightarrow> None | Some \<sigma>' \<Rightarrow> links_events es \<sigma>')"

section \<open>Methods that run alone\<close>

fun op_size :: "link_op \<Rightarrow> nat" where
  "op_size (RemoveEntry p) = 1"
| "op_size x = 0"

lemma op_sizes_retain: "sum_list (map op_size (map (Retain p) qs)) = 0"
  by (induction qs) auto

function ops_alone :: "link_op list \<Rightarrow> (pid \<rightharpoonup> pid list) \<Rightarrow> (pid \<rightharpoonup> pid list)" where
  "ops_alone [] m = m"
| "ops_alone (x # xs) m = (case op_exec x m of (todo, m') \<Rightarrow> ops_alone (todo @ xs) m')"
  by pat_completeness auto

termination
proof (relation "measures [\<lambda>(xs, m). sum_list (map op_size xs), \<lambda>(xs, m). length xs]", goal_cases)
  case 1
  show ?case by simp
next
  case (2 x xs m todo m')
  then show ?case
    by (cases x) (auto simp: op_sizes_retain [unfolded map_map comp_def] comp_def split: option.splits)
qed

lemma ops_alone_retains: "ops_alone (map (Retain p) qs) m = fold (retain_neq p) qs m"
  by (induction qs arbitrary: m) simp_all

text \<open>Without interference the calls of a method have the effect the method has in \<open>Supervisor\<close>.\<close>

lemma methods_alone:
  "ops_alone (call_ops (CallLink a b)) (links s) = links (Supervisor_link a b s)"
  "ops_alone (call_ops (CallUnlink a b)) (links s) = links (Supervisor_unlink a b s)"
  "ops_alone (call_ops (CallLinkedPids p)) (links s) = links (snd (Supervisor_linked_pids p s))"
  "ops_alone (call_ops (CallCleanup p)) (links s) = links (Supervisor_cleanup_links_internal p s)"
  by (simp_all add: sup_link_simps forget_def ops_alone_retains split: option.split)

section \<open>The invariant of a pair\<close>




lemma count_push_retains [simp]: "count_list (map (Retain p) qs) (Push a b) = 0"
  by (induction qs) auto














section \<open>Taking the links of a process\<close>




section \<open>Properties\<close>





text \<open>
  The condition is needed. If process 1 exits while \<^verbatim>\<open>link(1, 2)\<close> is between its two pushes, \<^verbatim>\<open>linked_pids(1)\<close>
  finds and removes the first entry, and the second push leaves a link to the dead process in the list of
  process 2 that nothing removes.
\<close>

theorem link_exit_race:
  "map_option (\<lambda>\<sigma>. (concat (lcalls \<sigma>), peers_of (ltable \<sigma>) 1, peers_of (ltable \<sigma>) 2))
     (links_events [StartCall (CallLink 1 2), NextOp 0, StartCall (CallLinkedPids 1), NextOp 1, NextOp 1, NextOp 0] links_new)
   = Some ([], [], [1])"
  by (simp add: links_new_def push_link_def retain_neq_def)

end
