(* ===== verification/Channel.thy ===== *)
theory Channel
  imports Prelude
begin

text \<open>
  The unbounded channels the sources take from \<^verbatim>\<open>tokio::sync::mpsc\<close>, as data: the messages in
  flight, whether a sender is still alive and whether the receiver is. What the sources rely on is
  the documented behaviour, stated once as the locale \<open>fifo_channel\<close>: messages come out in the
  order they went in; a send fails exactly when the receiver is gone and hands the message back; a
  receive waits while the channel is empty and a sender is alive, and returns \<open>None\<close> once it is
  empty and every sender is gone.

  A future that is polled either has its result or is still waiting: \<open>Ready\<close> or \<open>Pending\<close>.
\<close>

datatype 'a poll = Ready 'a | Pending

record 'a chan =
  queue :: "'a list"
  tx_alive :: bool
  rx_alive :: bool

definition chan_new :: "'a chan" where
  "chan_new = \<lparr>queue = [], tx_alive = True, rx_alive = True\<rparr>"

definition chan_send :: "'a \<Rightarrow> 'a chan \<Rightarrow> bool \<times> 'a chan" where
  "chan_send x c = (if rx_alive c then (True, c\<lparr>queue := queue c @ [x]\<rparr>) else (False, c))"

definition chan_try_recv :: "'a chan \<Rightarrow> 'a option \<times> 'a chan" where
  "chan_try_recv c = (case queue c of [] \<Rightarrow> (None, c) | x # xs \<Rightarrow> (Some x, c\<lparr>queue := xs\<rparr>))"

definition chan_recv :: "'a chan \<Rightarrow> 'a option poll \<times> 'a chan" where
  "chan_recv c =
     (case queue c of
        x # xs \<Rightarrow> (Ready (Some x), c\<lparr>queue := xs\<rparr>)
      | [] \<Rightarrow> (if tx_alive c then Pending else Ready None, c))"

definition chan_drop_tx :: "'a chan \<Rightarrow> 'a chan" where
  "chan_drop_tx c = c\<lparr>tx_alive := False\<rparr>"

definition chan_drop_rx :: "'a chan \<Rightarrow> 'a chan" where
  "chan_drop_rx c = c\<lparr>rx_alive := False\<rparr>"

section \<open>The contract of an unbounded channel\<close>

locale fifo_channel =
  fixes send :: "'a \<Rightarrow> 'c \<Rightarrow> bool \<times> 'c"
    and try_recv :: "'c \<Rightarrow> 'a option \<times> 'c"
    and recv :: "'c \<Rightarrow> 'a option poll \<times> 'c"
    and contents :: "'c \<Rightarrow> 'a list"
    and tx :: "'c \<Rightarrow> bool"
    and rx :: "'c \<Rightarrow> bool"
  assumes send_ok: "rx c \<Longrightarrow> fst (send x c) \<and> contents (snd (send x c)) = contents c @ [x]"
    and send_fail: "\<not> rx c \<Longrightarrow> send x c = (False, c)"
    and send_ends: "tx (snd (send x c)) = tx c" "rx (snd (send x c)) = rx c"
    and try_recv_empty: "contents c = [] \<Longrightarrow> try_recv c = (None, c)"
    and try_recv_front: "contents c = x # xs \<Longrightarrow>
        fst (try_recv c) = Some x \<and> contents (snd (try_recv c)) = xs"
    and try_recv_ends: "tx (snd (try_recv c)) = tx c" "rx (snd (try_recv c)) = rx c"
    and recv_front: "contents c = x # xs \<Longrightarrow> recv c = (Ready (Some x), snd (try_recv c))"
    and recv_wait: "contents c = [] \<Longrightarrow> recv c = (if tx c then Pending else Ready None, c)"
begin

primrec send_all :: "'a list \<Rightarrow> 'c \<Rightarrow> 'c" where
  "send_all [] c = c"
| "send_all (x # xs) c = send_all xs (snd (send x c))"

lemma contents_send_all: "rx c \<Longrightarrow> contents (send_all xs c) = contents c @ xs"
proof (induction xs arbitrary: c)
  case (Cons x xs)
  then show ?case using send_ok [of c x] by (simp add: send_ends)
qed simp

lemma recv_pending_iff: "fst (recv c) = Pending \<longleftrightarrow> contents c = [] \<and> tx c"
  by (cases "contents c") (auto simp: recv_front recv_wait)

lemma recv_closed_iff: "fst (recv c) = Ready None \<longleftrightarrow> contents c = [] \<and> \<not> tx c"
  by (cases "contents c") (auto simp: recv_front recv_wait)

end

interpretation mpsc: fifo_channel chan_send chan_try_recv chan_recv queue tx_alive rx_alive
  by unfold_locales (auto simp: chan_send_def chan_try_recv_def chan_recv_def split: list.split)

lemmas chan_defs [model_defs] =
  chan_new_def chan_send_def chan_try_recv_def chan_recv_def chan_drop_tx_def chan_drop_rx_def

end
