(* ===== verification/Mailbox.thy ===== *)
theory Mailbox
  imports Channel
begin

text \<open>
  \<^verbatim>\<open>src/mailbox.rs\<close>: the mailbox of an actor. User payloads and system messages travel on two
  channels; the receiver prefers system messages and keeps what a selective receive skipped in a
  stash. One record holds the state both halves share: the two channels, the stash and the
  counter of waiting user messages (an \<^verbatim>\<open>AtomicUsize\<close>, so a 64-bit word that wraps).

  The specification of a mailbox is a pair of queues, system messages and user messages, of which
  the first is served first (\<open>spec_recv\<close>). The lemmas show that sending and receiving implement
  it, that the counter is exact, that a selective receive takes the first match of the search order
  and disturbs nothing else, and what happens once every sender is gone.
\<close>

datatype ExitReason = Normal | Panic | Timeout | Killed | Oom | Other string

record ExitInfo =
  from_pid :: u64
  reason :: ExitReason
  metadata :: "string option"

datatype SystemMessage = Exit ExitInfo | HotSwap usize | Ping | Pong

datatype Message = User bytes | System SystemMessage

record mailbox =
  user_ch :: "bytes chan"
  sys_ch :: "SystemMessage chan"
  stash :: "Message list"
  counter :: usize

section \<open>The operations\<close>

definition channel :: mailbox where
  "channel = \<lparr>user_ch = chan_new, sys_ch = chan_new, stash = [], counter = 0\<rparr>"

definition MailboxSender_send :: "Message \<Rightarrow> mailbox \<Rightarrow> (Message + unit) \<times> mailbox" where
  "MailboxSender_send msg mb =
     (case msg of
        User b \<Rightarrow>
          let mb = mb\<lparr>counter := counter mb + 1\<rparr> in
          (case chan_send b (user_ch mb) of
             (True, c) \<Rightarrow> (Inr (), mb\<lparr>user_ch := c\<rparr>)
           | (False, c) \<Rightarrow> (Inl (User b), mb\<lparr>user_ch := c, counter := counter mb - 1\<rparr>))
      | System s \<Rightarrow>
          (case chan_send s (sys_ch mb) of
             (True, c) \<Rightarrow> (Inr (), mb\<lparr>sys_ch := c\<rparr>)
           | (False, c) \<Rightarrow> (Inl (System s), mb\<lparr>sys_ch := c\<rparr>)))"

definition MailboxSender_send_user_bytes :: "bytes \<Rightarrow> mailbox \<Rightarrow> (bytes + unit) \<times> mailbox" where
  "MailboxSender_send_user_bytes b mb =
     (let mb = mb\<lparr>counter := counter mb + 1\<rparr> in
      case chan_send b (user_ch mb) of
        (True, c) \<Rightarrow> (Inr (), mb\<lparr>user_ch := c\<rparr>)
      | (False, c) \<Rightarrow> (Inl b, mb\<lparr>user_ch := c, counter := counter mb - 1\<rparr>))"

definition MailboxSender_send_system :: "SystemMessage \<Rightarrow> mailbox \<Rightarrow> (SystemMessage + unit) \<times> mailbox" where
  "MailboxSender_send_system s mb =
     (case chan_send s (sys_ch mb) of
        (True, c) \<Rightarrow> (Inr (), mb\<lparr>sys_ch := c\<rparr>)
      | (False, c) \<Rightarrow> (Inl s, mb\<lparr>sys_ch := c\<rparr>))"

definition MailboxSender_len :: "mailbox \<Rightarrow> usize" where
  "MailboxSender_len mb = counter mb"

fun is_system :: "Message \<Rightarrow> bool" where
  "is_system (System _) = True"
| "is_system (User _) = False"

text \<open>
  One poll of \<^verbatim>\<open>recv()\<close>: stashed system messages, the system channel, the stash, then the biased
  \<^verbatim>\<open>select!\<close> of the two channels. A poll that ends in \<open>Pending\<close> has changed nothing, so polling
  again from the start is the same as resuming at the \<^verbatim>\<open>select!\<close>.
\<close>

definition MailboxReceiver_recv :: "mailbox \<Rightarrow> Message option poll \<times> mailbox" where
  "MailboxReceiver_recv mb =
     (case position is_system (stash mb) of
        Some pos \<Rightarrow> (Ready (Some (stash mb ! pos)), mb\<lparr>stash := remove_at pos (stash mb)\<rparr>)
      | None \<Rightarrow>
     (case chan_try_recv (sys_ch mb) of
        (Some sys, c) \<Rightarrow> (Ready (Some (System sys)), mb\<lparr>sys_ch := c\<rparr>)
      | (None, _) \<Rightarrow>
     (case stash mb of
        front # rest \<Rightarrow>
          let mb = mb\<lparr>stash := rest\<rparr>;
              mb = (if \<not> is_system front then mb\<lparr>counter := counter mb - 1\<rparr> else mb)
          in (Ready (Some front), mb)
      | [] \<Rightarrow>
     (case chan_recv (sys_ch mb) of
        (Ready sys, c) \<Rightarrow> (Ready (map_option System sys), mb\<lparr>sys_ch := c\<rparr>)
      | (Pending, _) \<Rightarrow>
     (case chan_recv (user_ch mb) of
        (Ready (Some b), c) \<Rightarrow> (Ready (Some (User b)), mb\<lparr>user_ch := c, counter := counter mb - 1\<rparr>)
      | (Ready None, _) \<Rightarrow> (Ready None, mb)
      | (Pending, _) \<Rightarrow> (Pending, mb))))))"

definition MailboxReceiver_try_recv :: "mailbox \<Rightarrow> Message option \<times> mailbox" where
  "MailboxReceiver_try_recv mb =
     (case position is_system (stash mb) of
        Some pos \<Rightarrow> (Some (stash mb ! pos), mb\<lparr>stash := remove_at pos (stash mb)\<rparr>)
      | None \<Rightarrow>
     (case chan_try_recv (sys_ch mb) of
        (Some sys, c) \<Rightarrow> (Some (System sys), mb\<lparr>sys_ch := c\<rparr>)
      | (None, _) \<Rightarrow>
     (case stash mb of
        front # rest \<Rightarrow>
          let mb = mb\<lparr>stash := rest\<rparr>;
              mb = (if \<not> is_system front then mb\<lparr>counter := counter mb - 1\<rparr> else mb)
          in (Some front, mb)
      | [] \<Rightarrow>
     (case chan_try_recv (user_ch mb) of
        (Some b, c) \<Rightarrow> (Some (User b), mb\<lparr>user_ch := c, counter := counter mb - 1\<rparr>)
      | (None, _) \<Rightarrow> (None, mb)))))"

text \<open>
  The loop of \<^verbatim>\<open>selective_recv\<close>. Every round takes one message off a channel, so the number of
  messages in flight bounds the rounds.
\<close>

function selective_loop :: "(Message \<Rightarrow> bool) \<Rightarrow> mailbox \<Rightarrow> Message option poll \<times> mailbox" where
  "selective_loop matcher mb =
     (case chan_try_recv (sys_ch mb) of
        (Some sys, c) \<Rightarrow>
          let m = System sys; mb = mb\<lparr>sys_ch := c\<rparr> in
          if matcher m then (Ready (Some m), mb)
          else selective_loop matcher (mb\<lparr>stash := stash mb @ [m]\<rparr>)
      | (None, _) \<Rightarrow>
     (case chan_recv (sys_ch mb) of
        (Ready (Some s), c) \<Rightarrow>
          let m = System s; mb = mb\<lparr>sys_ch := c\<rparr> in
          if matcher m then (Ready (Some m), mb)
          else selective_loop matcher (mb\<lparr>stash := stash mb @ [m]\<rparr>)
      | (Ready None, _) \<Rightarrow> (Ready None, mb)
      | (Pending, _) \<Rightarrow>
     (case chan_recv (user_ch mb) of
        (Ready (Some b), c) \<Rightarrow>
          let m = User b; mb = mb\<lparr>user_ch := c\<rparr> in
          if matcher m then (Ready (Some m), mb\<lparr>counter := counter mb - 1\<rparr>)
          else selective_loop matcher (mb\<lparr>stash := stash mb @ [m]\<rparr>)
      | (Ready None, _) \<Rightarrow> (Ready None, mb)
      | (Pending, _) \<Rightarrow> (Pending, mb))))"
  by pat_completeness auto
termination
  by (relation "measure (\<lambda>(_, mb). length (queue (sys_ch mb)) + length (queue (user_ch mb)))")
    (auto simp: chan_try_recv_def chan_recv_def split: list.splits if_splits)

declare selective_loop.simps [simp del]

definition MailboxReceiver_selective_recv ::
    "(Message \<Rightarrow> bool) \<Rightarrow> mailbox \<Rightarrow> Message option poll \<times> mailbox" where
  "MailboxReceiver_selective_recv matcher mb =
     (case position matcher (stash mb) of
        Some idx \<Rightarrow>
          let m = stash mb ! idx; mb = mb\<lparr>stash := remove_at idx (stash mb)\<rparr>;
              mb = (if \<not> is_system m then mb\<lparr>counter := counter mb - 1\<rparr> else mb)
          in (Ready (Some m), mb)
      | None \<Rightarrow> selective_loop matcher mb)"

text \<open>Dropping the last sender, or the receiver, closes both channels.\<close>

definition drop_sender :: "mailbox \<Rightarrow> mailbox" where
  "drop_sender mb = mb\<lparr>user_ch := chan_drop_tx (user_ch mb), sys_ch := chan_drop_tx (sys_ch mb)\<rparr>"

definition drop_receiver :: "mailbox \<Rightarrow> mailbox" where
  "drop_receiver mb = mb\<lparr>user_ch := chan_drop_rx (user_ch mb), sys_ch := chan_drop_rx (sys_ch mb)\<rparr>"

section \<open>The specification: two queues, the system queue first\<close>

fun user_msgs :: "Message list \<Rightarrow> bytes list" where
  "user_msgs [] = []"
| "user_msgs (User b # ms) = b # user_msgs ms"
| "user_msgs (System s # ms) = user_msgs ms"

fun sys_msgs :: "Message list \<Rightarrow> SystemMessage list" where
  "sys_msgs [] = []"
| "sys_msgs (User b # ms) = sys_msgs ms"
| "sys_msgs (System s # ms) = s # sys_msgs ms"

type_synonym mail_spec = "SystemMessage list \<times> bytes list"

definition mail_abs :: "mailbox \<Rightarrow> mail_spec" where
  "mail_abs mb = (sys_msgs (stash mb) @ queue (sys_ch mb), user_msgs (stash mb) @ queue (user_ch mb))"

fun spec_send :: "Message \<Rightarrow> mail_spec \<Rightarrow> mail_spec" where
  "spec_send (User b) (ss, us) = (ss, us @ [b])"
| "spec_send (System s) (ss, us) = (ss @ [s], us)"

fun spec_recv :: "mail_spec \<Rightarrow> Message option \<times> mail_spec" where
  "spec_recv (s # ss, us) = (Some (System s), (ss, us))"
| "spec_recv ([], u # us) = (Some (User u), ([], us))"
| "spec_recv ([], []) = (None, ([], []))"

text \<open>Well-formedness: the counter counts the waiting user messages; both channels end together.\<close>

definition mail_wf :: "mailbox \<Rightarrow> bool" where
  "mail_wf mb \<longleftrightarrow> counter mb = of_nat (length (snd (mail_abs mb)))
     \<and> tx_alive (user_ch mb) = tx_alive (sys_ch mb) \<and> rx_alive (user_ch mb) = rx_alive (sys_ch mb)"

text \<open>The order in which a selective receive looks at the waiting messages.\<close>

definition search_order :: "mailbox \<Rightarrow> Message list" where
  "search_order mb = stash mb @ map System (queue (sys_ch mb)) @ map User (queue (user_ch mb))"

section \<open>Basic lemmas\<close>

lemma user_msgs_append [simp]: "user_msgs (xs @ ys) = user_msgs xs @ user_msgs ys"
  by (induction xs rule: user_msgs.induct) auto

lemma sys_msgs_append [simp]: "sys_msgs (xs @ ys) = sys_msgs xs @ sys_msgs ys"
  by (induction xs rule: sys_msgs.induct) auto

lemma user_msgs_map_User [simp]: "user_msgs (map User xs) = xs" "sys_msgs (map User xs) = []"
  by (induction xs) auto

lemma user_msgs_map_System [simp]: "user_msgs (map System ys) = []" "sys_msgs (map System ys) = ys"
  by (induction ys) auto

lemma no_system_all_users:
  "\<forall>m\<in>set ms. \<not> is_system m \<Longrightarrow> ms = map User (user_msgs ms) \<and> sys_msgs ms = []"
  by (induction ms rule: user_msgs.induct) auto

lemma is_system_cases: "is_system m \<Longrightarrow> (\<And>s. m = System s \<Longrightarrow> thesis) \<Longrightarrow> thesis"
  by (cases m) auto

lemma position_users [simp]: "position is_system (map User us) = None"
  by simp

lemma position_first_system [simp]:
  "position is_system (map User us @ System s # vs) = Some (length us)"
  using position_append_hit [of "map User us" is_system "System s" vs] by simp

text \<open>The two shapes of a stash the receives distinguish.\<close>

lemma stash_casesE:
  obtains (stashed_system) us s vs where "stash mb = map User us @ System s # vs"
  | (no_system) us where "stash mb = map User us"
proof (cases "position is_system (stash mb)")
  case None
  then have "\<forall>m\<in>set (stash mb). \<not> is_system m" by simp
  with no_system_all_users no_system show thesis by metis
next
  case (Some i)
  from Some show thesis
  proof (rule position_removeE)
    fix us x vs
    assume *: "stash mb = us @ x # vs" "is_system x" "\<forall>u\<in>set us. \<not> is_system u"
    from no_system_all_users [OF *(3)] obtain bs where us: "us = map User bs" by metis
    from *(2) obtain s where "x = System s" by (rule is_system_cases)
    with us *(1) show thesis using stashed_system by blast
  qed
qed

lemma mail_wf_counter: "mail_wf mb \<Longrightarrow> counter mb = of_nat (length (snd (mail_abs mb)))"
  by (simp add: mail_wf_def)

lemma mail_wf_ends:
  "mail_wf mb \<Longrightarrow> tx_alive (user_ch mb) = tx_alive (sys_ch mb)"
  "mail_wf mb \<Longrightarrow> rx_alive (user_ch mb) = rx_alive (sys_ch mb)"
  by (simp_all add: mail_wf_def)

lemma channel_wf [inv_intros]: "mail_wf channel"
  by (simp add: mail_wf_def channel_def chan_new_def mail_abs_def)

lemma channel_abs: "mail_abs channel = ([], [])"
  by (simp add: channel_def chan_new_def mail_abs_def)

section \<open>Sending\<close>

lemma send_alive:
  assumes "mail_wf mb" and "rx_alive (sys_ch mb)"
  shows "fst (MailboxSender_send m mb) = Inr ()"
    and "mail_abs (snd (MailboxSender_send m mb)) = spec_send m (mail_abs mb)"
  using assms
  by (cases m; auto simp: MailboxSender_send_def chan_send_def mail_abs_def mail_wf_def)+

lemma send_dead:
  assumes "mail_wf mb" and "\<not> rx_alive (sys_ch mb)"
  shows "MailboxSender_send m mb = (Inl m, mb)"
  using assms by (cases m) (auto simp: MailboxSender_send_def chan_send_def mail_wf_def)

lemma send_wf [inv_intros]: "mail_wf mb \<Longrightarrow> mail_wf (snd (MailboxSender_send m mb))"
  by (cases m) (auto simp: MailboxSender_send_def chan_send_def mail_wf_def mail_abs_def split: if_splits)

lemma send_user_bytes_send:
  "MailboxSender_send_user_bytes b mb
   = map_prod (map_sum (\<lambda>m. case m of User b \<Rightarrow> b) id) id (MailboxSender_send (User b) mb)"
  by (simp add: MailboxSender_send_user_bytes_def MailboxSender_send_def Let_def split: prod.split bool.split)

lemma send_system_send:
  "MailboxSender_send_system s mb
   = map_prod (map_sum (\<lambda>m. case m of System s \<Rightarrow> s) id) id (MailboxSender_send (System s) mb)"
  by (simp add: MailboxSender_send_system_def MailboxSender_send_def split: prod.split bool.split)

section \<open>Receiving\<close>

lemma try_recv_spec:
  "fst (MailboxReceiver_try_recv mb) = fst (spec_recv (mail_abs mb))
   \<and> mail_abs (snd (MailboxReceiver_try_recv mb)) = snd (spec_recv (mail_abs mb))"
proof (cases rule: stash_casesE [of mb])
  case (stashed_system us s vs)
  then show ?thesis by (simp add: MailboxReceiver_try_recv_def mail_abs_def nth_append)
next
  case (no_system us)
  then show ?thesis
    by (cases us; cases "queue (sys_ch mb)"; cases "queue (user_ch mb)")
      (simp_all add: MailboxReceiver_try_recv_def mail_abs_def chan_try_recv_def Let_def)
qed

lemma try_recv_wf [inv_intros]:
  assumes "mail_wf mb"
  shows "mail_wf (snd (MailboxReceiver_try_recv mb))"
proof (cases rule: stash_casesE [of mb])
  case (stashed_system us s vs)
  with assms show ?thesis
    by (simp add: MailboxReceiver_try_recv_def mail_wf_def mail_abs_def nth_append)
next
  case (no_system us)
  with assms show ?thesis
    by (cases us; cases "queue (sys_ch mb)"; cases "queue (user_ch mb)")
      (simp_all add: MailboxReceiver_try_recv_def mail_wf_def mail_abs_def chan_try_recv_def Let_def)
qed

text \<open>
  A poll of \<^verbatim>\<open>recv()\<close> agrees with \<^verbatim>\<open>try_recv()\<close> while a sender is alive, except that it
  waits instead of returning nothing.
\<close>

lemma recv_try_recv:
  assumes "tx_alive (sys_ch mb)" and "tx_alive (user_ch mb)"
  shows "MailboxReceiver_recv mb =
     (case MailboxReceiver_try_recv mb of (Some m, mb') \<Rightarrow> (Ready (Some m), mb') | (None, mb') \<Rightarrow> (Pending, mb'))"
proof (cases rule: stash_casesE [of mb])
  case (stashed_system us s vs)
  then show ?thesis by (simp add: MailboxReceiver_recv_def MailboxReceiver_try_recv_def)
next
  case (no_system us)
  with assms show ?thesis
    by (cases us; cases "queue (sys_ch mb)"; cases "queue (user_ch mb)")
      (simp_all add: MailboxReceiver_recv_def MailboxReceiver_try_recv_def chan_try_recv_def
        chan_recv_def Let_def)
qed

text \<open>Once every sender is gone, the user channel is never looked at again.\<close>

lemma recv_closed:
  assumes "\<not> tx_alive (sys_ch mb)"
  shows "MailboxReceiver_recv mb =
     (if stash mb = [] \<and> queue (sys_ch mb) = [] then (Ready None, mb)
      else case MailboxReceiver_try_recv mb of (m, mb') \<Rightarrow> (Ready m, mb'))"
proof (cases rule: stash_casesE [of mb])
  case (stashed_system us s vs)
  then show ?thesis by (simp add: MailboxReceiver_recv_def MailboxReceiver_try_recv_def)
next
  case (no_system us)
  with assms show ?thesis
    by (cases us; cases "queue (sys_ch mb)")
      (simp_all add: MailboxReceiver_recv_def MailboxReceiver_try_recv_def chan_try_recv_def
        chan_recv_def Let_def)
qed

lemma recv_wf [inv_intros]:
  assumes "mail_wf mb"
  shows "mail_wf (snd (MailboxReceiver_recv mb))"
proof (cases "tx_alive (sys_ch mb)")
  case True
  with assms mail_wf_ends [OF assms] have "snd (MailboxReceiver_recv mb) = snd (MailboxReceiver_try_recv mb)"
    by (simp add: recv_try_recv split: prod.split option.split)
  with assms try_recv_wf show ?thesis by simp
next
  case False
  with assms try_recv_wf [OF assms] show ?thesis by (auto simp: recv_closed split: prod.split)
qed

section \<open>Selective receive\<close>

text \<open>What one poll of the loop does, by the first match among the messages in flight.\<close>

lemma selective_loop_sys_miss:
  assumes "\<forall>s\<in>set ss. \<not> matcher (System s)" and "queue (sys_ch mb) = ss @ rest"
  shows "selective_loop matcher mb =
     selective_loop matcher (mb\<lparr>sys_ch := (sys_ch mb)\<lparr>queue := rest\<rparr>, stash := stash mb @ map System ss\<rparr>)"
  using assms
proof (induction ss arbitrary: mb)
  case Nil
  then show ?case by (cases mb; cases "sys_ch mb") simp
next
  case (Cons s ss)
  have "selective_loop matcher mb =
      selective_loop matcher (mb\<lparr>sys_ch := (sys_ch mb)\<lparr>queue := ss @ rest\<rparr>, stash := stash mb @ [System s]\<rparr>)"
    using Cons.prems by (subst selective_loop.simps) (simp add: chan_try_recv_def)
  also have "\<dots> = selective_loop matcher
      (mb\<lparr>sys_ch := (sys_ch mb)\<lparr>queue := rest\<rparr>, stash := stash mb @ map System (s # ss)\<rparr>)"
    using Cons.prems by (subst Cons.IH) simp_all
  finally show ?case .
qed

lemma selective_loop_user_miss:
  assumes "\<forall>u\<in>set us. \<not> matcher (User u)" and "queue (user_ch mb) = us @ rest"
    and "queue (sys_ch mb) = []" and "tx_alive (sys_ch mb)"
  shows "selective_loop matcher mb =
     selective_loop matcher (mb\<lparr>user_ch := (user_ch mb)\<lparr>queue := rest\<rparr>, stash := stash mb @ map User us\<rparr>)"
  using assms
proof (induction us arbitrary: mb)
  case Nil
  then show ?case by (cases mb; cases "user_ch mb") simp
next
  case (Cons u us)
  have "selective_loop matcher mb =
      selective_loop matcher (mb\<lparr>user_ch := (user_ch mb)\<lparr>queue := us @ rest\<rparr>, stash := stash mb @ [User u]\<rparr>)"
    using Cons.prems by (subst selective_loop.simps) (simp add: chan_try_recv_def chan_recv_def)
  also have "\<dots> = selective_loop matcher
      (mb\<lparr>user_ch := (user_ch mb)\<lparr>queue := rest\<rparr>, stash := stash mb @ map User (u # us)\<rparr>)"
    using Cons.prems by (subst Cons.IH) simp_all
  finally show ?case .
qed

lemma selective_loop_sys_hit:
  assumes "\<forall>s\<in>set ss. \<not> matcher (System s)" and "matcher (System s)"
    and "queue (sys_ch mb) = ss @ s # rest"
  shows "selective_loop matcher mb = (Ready (Some (System s)),
     mb\<lparr>sys_ch := (sys_ch mb)\<lparr>queue := rest\<rparr>, stash := stash mb @ map System ss\<rparr>)"
proof -
  have "selective_loop matcher mb = selective_loop matcher
      (mb\<lparr>sys_ch := (sys_ch mb)\<lparr>queue := s # rest\<rparr>, stash := stash mb @ map System ss\<rparr>)"
    using assms by (intro selective_loop_sys_miss) auto
  then show ?thesis using assms(2) by (simp add: selective_loop.simps chan_try_recv_def)
qed

lemma selective_loop_user_hit:
  assumes "\<forall>s\<in>set (queue (sys_ch mb)). \<not> matcher (System s)" and "tx_alive (sys_ch mb)"
    and "\<forall>u\<in>set us. \<not> matcher (User u)" and "matcher (User u)"
    and "queue (user_ch mb) = us @ u # rest"
  shows "selective_loop matcher mb = (Ready (Some (User u)),
     mb\<lparr>sys_ch := (sys_ch mb)\<lparr>queue := []\<rparr>, user_ch := (user_ch mb)\<lparr>queue := rest\<rparr>,
        stash := stash mb @ map System (queue (sys_ch mb)) @ map User us, counter := counter mb - 1\<rparr>)"
proof -
  have "selective_loop matcher mb = selective_loop matcher
      (mb\<lparr>sys_ch := (sys_ch mb)\<lparr>queue := []\<rparr>, stash := stash mb @ map System (queue (sys_ch mb))\<rparr>)"
    using assms by (intro selective_loop_sys_miss) auto
  also have "\<dots> = selective_loop matcher
      (mb\<lparr>sys_ch := (sys_ch mb)\<lparr>queue := []\<rparr>, user_ch := (user_ch mb)\<lparr>queue := u # rest\<rparr>,
         stash := stash mb @ map System (queue (sys_ch mb)) @ map User us\<rparr>)"
    using assms by (subst selective_loop_user_miss [of us]) simp_all
  finally show ?thesis
    using assms by (simp add: selective_loop.simps chan_try_recv_def chan_recv_def)
qed

lemma selective_loop_no_match:
  assumes "\<forall>s\<in>set (queue (sys_ch mb)). \<not> matcher (System s)"
    and "\<forall>u\<in>set (queue (user_ch mb)). \<not> matcher (User u)"
    and "tx_alive (sys_ch mb)" and "tx_alive (user_ch mb)"
  shows "selective_loop matcher mb = (Pending,
     mb\<lparr>sys_ch := (sys_ch mb)\<lparr>queue := []\<rparr>, user_ch := (user_ch mb)\<lparr>queue := []\<rparr>,
        stash := search_order mb\<rparr>)"
proof -
  have "selective_loop matcher mb = selective_loop matcher
      (mb\<lparr>sys_ch := (sys_ch mb)\<lparr>queue := []\<rparr>, stash := stash mb @ map System (queue (sys_ch mb))\<rparr>)"
    using assms by (intro selective_loop_sys_miss) auto
  also have "\<dots> = selective_loop matcher
      (mb\<lparr>sys_ch := (sys_ch mb)\<lparr>queue := []\<rparr>, user_ch := (user_ch mb)\<lparr>queue := []\<rparr>,
         stash := search_order mb\<rparr>)"
    using assms
    by (subst selective_loop_user_miss [of "queue (user_ch mb)"]) (simp_all add: search_order_def)
  finally show ?thesis
    using assms by (simp add: selective_loop.simps chan_try_recv_def chan_recv_def)
qed

lemma selective_loop_closed:
  assumes "\<forall>s\<in>set (queue (sys_ch mb)). \<not> matcher (System s)" and "\<not> tx_alive (sys_ch mb)"
  shows "selective_loop matcher mb = (Ready None,
     mb\<lparr>sys_ch := (sys_ch mb)\<lparr>queue := []\<rparr>, stash := stash mb @ map System (queue (sys_ch mb))\<rparr>)"
proof -
  have "selective_loop matcher mb = selective_loop matcher
      (mb\<lparr>sys_ch := (sys_ch mb)\<lparr>queue := []\<rparr>, stash := stash mb @ map System (queue (sys_ch mb))\<rparr>)"
    using assms by (intro selective_loop_sys_miss) auto
  then show ?thesis
    using assms by (simp add: selective_loop.simps chan_try_recv_def chan_recv_def)
qed

lemma user_msgs_search_order: "user_msgs (search_order mb) = snd (mail_abs mb)"
  by (simp add: search_order_def mail_abs_def)

lemma mset_by_class: "mset ms = mset (map System (sys_msgs ms)) + mset (map User (user_msgs ms))"
  by (induction ms rule: user_msgs.induct) auto

lemma mset_search_order:
  "mset (search_order mb) = mset (map System (fst (mail_abs mb))) + mset (map User (snd (mail_abs mb)))"
  using mset_by_class [of "stash mb"] by (simp add: search_order_def mail_abs_def)

lemma mail_wf_order:
  "mail_wf mb \<longleftrightarrow> counter mb = of_nat (length (user_msgs (search_order mb)))
     \<and> tx_alive (user_ch mb) = tx_alive (sys_ch mb) \<and> rx_alive (user_ch mb) = rx_alive (sys_ch mb)"
  by (simp add: mail_wf_def user_msgs_search_order)

text \<open>
  The three ways a poll of \<^verbatim>\<open>selective_recv\<close> ends. \<open>same_ends\<close>: no end of a channel is dropped.
\<close>

definition same_ends :: "mailbox \<Rightarrow> mailbox \<Rightarrow> bool" where
  "same_ends mb mb' \<longleftrightarrow> tx_alive (user_ch mb') = tx_alive (user_ch mb) \<and> tx_alive (sys_ch mb') = tx_alive (sys_ch mb)
     \<and> rx_alive (user_ch mb') = rx_alive (user_ch mb) \<and> rx_alive (sys_ch mb') = rx_alive (sys_ch mb)"

definition selective_hit :: "(Message \<Rightarrow> bool) \<Rightarrow> mailbox \<Rightarrow> bool" where
  "selective_hit matcher mb \<longleftrightarrow> (\<exists>us m vs mb'. search_order mb = us @ m # vs
     \<and> (\<forall>u\<in>set us. \<not> matcher u) \<and> matcher m
     \<and> MailboxReceiver_selective_recv matcher mb = (Ready (Some m), mb') \<and> search_order mb' = us @ vs
     \<and> counter mb' = counter mb - (if is_system m then 0 else 1) \<and> same_ends mb mb')"

lemma selective_hitI:
  assumes "search_order mb = us @ m # vs" and "\<forall>u\<in>set us. \<not> matcher u" and "matcher m"
    and "MailboxReceiver_selective_recv matcher mb = (Ready (Some m), mb')" and "search_order mb' = us @ vs"
    and "counter mb' = counter mb - (if is_system m then 0 else 1)" and "same_ends mb mb'"
  shows "selective_hit matcher mb"
  using assms unfolding selective_hit_def by blast

lemma selective_recv_loop:
  "\<forall>m\<in>set (stash mb). \<not> matcher m \<Longrightarrow>
     MailboxReceiver_selective_recv matcher mb = selective_loop matcher mb"
  by (simp add: MailboxReceiver_selective_recv_def position_miss)

lemma selective_stash_hit:
  assumes "\<exists>m\<in>set (stash mb). matcher m"
  shows "selective_hit matcher mb"
proof -
  from assms obtain i where "position matcher (stash mb) = Some i"
    by (cases "position matcher (stash mb)") auto
  then show ?thesis
  proof (rule position_removeE)
    fix us m vs
    assume *: "stash mb = us @ m # vs" "i = length us" "matcher m" "\<forall>u\<in>set us. \<not> matcher u"
      "stash mb ! i = m" "remove_at i (stash mb) = us @ vs"
    let ?mb = "mb\<lparr>stash := us @ vs, counter := counter mb - (if is_system m then 0 else 1)\<rparr>"
    have r: "MailboxReceiver_selective_recv matcher mb = (Ready (Some m), ?mb)"
      using * position_append_hit [of us matcher m vs]
      by (simp add: MailboxReceiver_selective_recv_def)
    have "search_order mb = us @ m # (vs @ map System (queue (sys_ch mb)) @ map User (queue (user_ch mb)))"
      using * by (simp add: search_order_def)
    then show ?thesis
      by (rule selective_hitI [OF _ _ _ r]) (use * in \<open>auto simp: search_order_def same_ends_def\<close>)
  qed
qed

lemma selective_sys_hit:
  assumes stash: "\<forall>m\<in>set (stash mb). \<not> matcher m" and "\<exists>s\<in>set (queue (sys_ch mb)). matcher (System s)"
  shows "selective_hit matcher mb"
proof -
  from assms(2) obtain ss s rest where q: "queue (sys_ch mb) = ss @ s # rest" "matcher (System s)"
      "\<forall>x\<in>set ss. \<not> matcher (System x)"
    using split_list_first_prop [of "queue (sys_ch mb)" "\<lambda>s. matcher (System s)"] by blast
  note r = selective_recv_loop [OF stash, unfolded selective_loop_sys_hit [OF q(3,2,1)]]
  have "search_order mb = (stash mb @ map System ss) @ System s # (map System rest @ map User (queue (user_ch mb)))"
    using q by (simp add: search_order_def)
  then show ?thesis
    by (rule selective_hitI [OF _ _ _ r]) (use stash q in \<open>auto simp: search_order_def same_ends_def\<close>)
qed

lemma selective_user_hit:
  assumes stash: "\<forall>m\<in>set (stash mb). \<not> matcher m" and sys: "\<forall>s\<in>set (queue (sys_ch mb)). \<not> matcher (System s)"
    and tx: "tx_alive (sys_ch mb)" and "\<exists>u\<in>set (queue (user_ch mb)). matcher (User u)"
  shows "selective_hit matcher mb"
proof -
  from assms(4) obtain us u rest where q: "queue (user_ch mb) = us @ u # rest" "matcher (User u)"
      "\<forall>x\<in>set us. \<not> matcher (User x)"
    using split_list_first_prop [of "queue (user_ch mb)" "\<lambda>u. matcher (User u)"] by blast
  note r = selective_recv_loop [OF stash, unfolded selective_loop_user_hit [OF sys tx q(3,2,1)]]
  have "search_order mb = (stash mb @ map System (queue (sys_ch mb)) @ map User us) @ User u # map User rest"
    using q by (simp add: search_order_def)
  then show ?thesis
    by (rule selective_hitI [OF _ _ _ r]) (use stash sys q in \<open>auto simp: search_order_def same_ends_def\<close>)
qed

text \<open>The messages a selective receive can reach: the user channel only while a sender is alive.\<close>

definition reachable_order :: "mailbox \<Rightarrow> Message list" where
  "reachable_order mb = stash mb @ map System (queue (sys_ch mb))
     @ (if tx_alive (sys_ch mb) then map User (queue (user_ch mb)) else [])"

lemma selective_hit_reachable:
  assumes "\<exists>m\<in>set (reachable_order mb). matcher m"
  shows "selective_hit matcher mb"
proof (cases "\<exists>m\<in>set (stash mb). matcher m")
  case True
  then show ?thesis by (rule selective_stash_hit)
next
  case stash: False
  show ?thesis
  proof (cases "\<exists>s\<in>set (queue (sys_ch mb)). matcher (System s)")
    case True
    with stash show ?thesis by (intro selective_sys_hit) auto
  next
    case False
    with stash assms have "tx_alive (sys_ch mb)" "\<exists>u\<in>set (queue (user_ch mb)). matcher (User u)"
      by (auto simp: reachable_order_def split: if_splits)
    with stash False show ?thesis by (intro selective_user_hit) auto
  qed
qed

lemma selective_miss:
  assumes "\<forall>m\<in>set (reachable_order mb). \<not> matcher m" and "tx_alive (user_ch mb) = tx_alive (sys_ch mb)"
  shows "\<exists>mb'. MailboxReceiver_selective_recv matcher mb
      = (if tx_alive (sys_ch mb) then Pending else Ready None, mb')
    \<and> search_order mb' = search_order mb \<and> counter mb' = counter mb \<and> same_ends mb mb'
    \<and> stash mb' = reachable_order mb"
proof -
  have loop: "MailboxReceiver_selective_recv matcher mb = selective_loop matcher mb"
    using assms(1) by (intro selective_recv_loop) (auto simp: reachable_order_def)
  show ?thesis
  proof (cases "tx_alive (sys_ch mb)")
    case True
    with assms have "\<forall>s\<in>set (queue (sys_ch mb)). \<not> matcher (System s)"
      "\<forall>u\<in>set (queue (user_ch mb)). \<not> matcher (User u)" by (auto simp: reachable_order_def)
    with True assms(2) loop show ?thesis
      by (simp add: selective_loop_no_match) (simp add: reachable_order_def search_order_def same_ends_def)
  next
    case False
    with assms have "\<forall>s\<in>set (queue (sys_ch mb)). \<not> matcher (System s)"
      by (auto simp: reachable_order_def)
    with False loop show ?thesis
      by (simp add: selective_loop_closed) (simp add: reachable_order_def search_order_def same_ends_def)
  qed
qed

lemma selective_recv_wf [inv_intros]:
  assumes "mail_wf mb"
  shows "mail_wf (snd (MailboxReceiver_selective_recv matcher mb))"
proof (cases "\<exists>m\<in>set (reachable_order mb). matcher m")
  case True
  then have "selective_hit matcher mb" by (rule selective_hit_reachable)
  then obtain us m vs mb' where *: "search_order mb = us @ m # vs"
      "MailboxReceiver_selective_recv matcher mb = (Ready (Some m), mb')" "search_order mb' = us @ vs"
      "counter mb' = counter mb - (if is_system m then 0 else 1)" "same_ends mb mb'"
    by (auto simp: selective_hit_def)
  with assms show ?thesis by (cases m) (auto simp: mail_wf_order same_ends_def)
next
  case False
  then have "\<forall>m\<in>set (reachable_order mb). \<not> matcher m" by simp
  from selective_miss [OF this mail_wf_ends(1) [OF assms]] obtain mb'
    where "snd (MailboxReceiver_selective_recv matcher mb) = mb'" "search_order mb' = search_order mb"
      "counter mb' = counter mb" "same_ends mb mb'" by auto
  with assms show ?thesis by (auto simp: mail_wf_order same_ends_def)
qed

text \<open>No call but a drop changes which ends are alive.\<close>

lemma send_ends: "same_ends mb (snd (MailboxSender_send m mb))"
  by (cases m) (simp_all add: MailboxSender_send_def chan_send_def same_ends_def Let_def)

lemma try_recv_ends: "same_ends mb (snd (MailboxReceiver_try_recv mb))"
proof (cases rule: stash_casesE [of mb])
  case (stashed_system us s vs)
  then show ?thesis by (simp add: MailboxReceiver_try_recv_def same_ends_def)
next
  case (no_system us)
  then show ?thesis
    by (cases us; cases "queue (sys_ch mb)"; cases "queue (user_ch mb)")
      (simp_all add: MailboxReceiver_try_recv_def same_ends_def chan_try_recv_def Let_def)
qed

lemma recv_ends:
  assumes "mail_wf mb"
  shows "same_ends mb (snd (MailboxReceiver_recv mb))"
proof (cases "tx_alive (sys_ch mb)")
  case True
  with mail_wf_ends [OF assms] have "snd (MailboxReceiver_recv mb) = snd (MailboxReceiver_try_recv mb)"
    by (simp add: recv_try_recv split: prod.split option.split)
  then show ?thesis by (simp add: try_recv_ends)
next
  case False
  with try_recv_ends [of mb] show ?thesis
    by (auto simp: recv_closed same_ends_def split: prod.split)
qed

lemma selective_recv_ends:
  assumes "mail_wf mb"
  shows "same_ends mb (snd (MailboxReceiver_selective_recv matcher mb))"
proof (cases "\<exists>m\<in>set (reachable_order mb). matcher m")
  case True
  then show ?thesis using selective_hit_reachable [OF True] by (auto simp: selective_hit_def)
next
  case False
  then show ?thesis using selective_miss [of mb matcher] mail_wf_ends(1) [OF assms] by auto
qed

section \<open>Runs of a mailbox\<close>

text \<open>
  Any interleaving of calls on the two halves of a mailbox. A step returns the messages the mailbox
  accepted and the messages it delivered.
\<close>

datatype mail_op = Send Message | Recv | TryRecv | SelectiveRecv "Message \<Rightarrow> bool" | DropSender | DropReceiver

definition delivered :: "Message option poll \<Rightarrow> Message list" where
  "delivered r = (case r of Ready (Some m) \<Rightarrow> [m] | _ \<Rightarrow> [])"

fun mail_step :: "mail_op \<Rightarrow> mailbox \<Rightarrow> Message list \<times> Message list \<times> mailbox" where
  "mail_step (Send m) mb =
     (case MailboxSender_send m mb of (Inr _, mb') \<Rightarrow> ([m], [], mb') | (Inl _, mb') \<Rightarrow> ([], [], mb'))"
| "mail_step Recv mb = (case MailboxReceiver_recv mb of (r, mb') \<Rightarrow> ([], delivered r, mb'))"
| "mail_step TryRecv mb =
     (case MailboxReceiver_try_recv mb of (r, mb') \<Rightarrow> ([], (case r of Some m \<Rightarrow> [m] | None \<Rightarrow> []), mb'))"
| "mail_step (SelectiveRecv p) mb =
     (case MailboxReceiver_selective_recv p mb of (r, mb') \<Rightarrow> ([], delivered r, mb'))"
| "mail_step DropSender mb = ([], [], drop_sender mb)"
| "mail_step DropReceiver mb = ([], [], drop_receiver mb)"

fun mail_run :: "mail_op list \<Rightarrow> mailbox \<Rightarrow> Message list \<times> Message list \<times> mailbox" where
  "mail_run [] mb = ([], [], mb)"
| "mail_run (x # xs) mb =
     (case mail_step x mb of (acc, del, mb') \<Rightarrow>
        (case mail_run xs mb' of (acc', del', mb'') \<Rightarrow> (acc @ acc', del @ del', mb'')))"

definition is_selective :: "mail_op \<Rightarrow> bool" where
  "is_selective x = (case x of SelectiveRecv _ \<Rightarrow> True | _ \<Rightarrow> False)"

lemma drop_ends [simp]:
  "mail_abs (drop_sender mb) = mail_abs mb" "mail_abs (drop_receiver mb) = mail_abs mb"
  "search_order (drop_sender mb) = search_order mb" "search_order (drop_receiver mb) = search_order mb"
  by (simp_all add: mail_abs_def search_order_def drop_sender_def drop_receiver_def
      chan_drop_tx_def chan_drop_rx_def)

lemma drop_ends_wf [inv_intros]: "mail_wf mb \<Longrightarrow> mail_wf (drop_sender mb)" "mail_wf mb \<Longrightarrow> mail_wf (drop_receiver mb)"
  by (simp_all add: mail_wf_def mail_abs_def drop_sender_def drop_receiver_def
      chan_drop_tx_def chan_drop_rx_def)

text \<open>A receive that is not selective takes the front of the specification, or nothing.\<close>

lemma recv_spec_cases:
  assumes "mail_wf mb" and "MailboxReceiver_recv mb = (r, mb')"
  shows "delivered r = [] \<and> mail_abs mb' = mail_abs mb
    \<or> (\<exists>m. delivered r = [m] \<and> spec_recv (mail_abs mb) = (Some m, mail_abs mb'))"
proof (cases "tx_alive (sys_ch mb)")
  case True
  with assms mail_wf_ends(1) [OF assms(1)] show ?thesis
    using try_recv_spec [of mb]
    by (cases "spec_recv (mail_abs mb)"; cases "mail_abs mb" rule: spec_recv.cases)
      (auto simp: recv_try_recv delivered_def split: prod.splits option.splits)
next
  case False
  with assms show ?thesis
    using try_recv_spec [of mb]
    by (cases "spec_recv (mail_abs mb)"; cases "mail_abs mb" rule: spec_recv.cases)
      (auto simp: recv_closed delivered_def split: prod.splits option.splits if_splits)
qed

lemma mail_step_wf:
  assumes "mail_wf mb" and "mail_step x mb = (acc, del, mb')"
  shows "mail_wf mb'"
proof -
  have "mb' = snd (snd (mail_step x mb))" using assms(2) by simp
  also have "mail_wf \<dots>"
    using assms(1) send_wf [OF assms(1)] recv_wf [OF assms(1)] try_recv_wf [OF assms(1)]
      selective_recv_wf [OF assms(1)] drop_ends_wf [OF assms(1)]
    by (cases x) (auto split: prod.splits sum.splits, (metis snd_conv)+)
  finally show ?thesis .
qed

lemma spec_recv_front:
  "spec_recv a = (Some m, a') \<Longrightarrow> fst a = sys_msgs [m] @ fst a' \<and> snd a = user_msgs [m] @ snd a'"
  by (cases a rule: spec_recv.cases) auto

lemma mail_step_fifo:
  assumes wf: "mail_wf mb" and "\<not> is_selective x" and step: "mail_step x mb = (acc, del, mb')"
  shows "fst (mail_abs mb) @ sys_msgs acc = sys_msgs del @ fst (mail_abs mb')
       \<and> snd (mail_abs mb) @ user_msgs acc = user_msgs del @ snd (mail_abs mb')"
proof (cases x)
  case (Send m)
  show ?thesis
  proof (cases "rx_alive (sys_ch mb)")
    case True
    from send_alive [OF wf True, of m] Send step show ?thesis
      by (cases "mail_abs mb"; cases m) (auto split: prod.splits)
  next
    case False
    with send_dead [OF wf] Send step show ?thesis by auto
  qed
next
  case Recv
  with step obtain r where r: "MailboxReceiver_recv mb = (r, mb')" "acc = []" "del = delivered r"
    by (auto split: prod.splits)
  from recv_spec_cases [OF wf r(1)] show ?thesis
  proof
    assume "\<exists>m. delivered r = [m] \<and> spec_recv (mail_abs mb) = (Some m, mail_abs mb')"
    then obtain m where "delivered r = [m]" "spec_recv (mail_abs mb) = (Some m, mail_abs mb')" by blast
    with r spec_recv_front [of "mail_abs mb" m "mail_abs mb'"] show ?thesis by simp
  qed (simp add: r)
next
  case TryRecv
  with step have "MailboxReceiver_try_recv mb = (case del of [] \<Rightarrow> None | m # _ \<Rightarrow> Some m, mb')"
    "acc = []" "length del \<le> 1" by (auto split: prod.splits option.splits)
  then show ?thesis using try_recv_spec [of mb]
    by (cases "mail_abs mb" rule: spec_recv.cases; cases del) auto
next
  case (SelectiveRecv p)
  with assms(2) show ?thesis by (simp add: is_selective_def)
next
  case DropSender
  with step show ?thesis by auto
next
  case DropReceiver
  with step show ?thesis by auto
qed

lemma mail_step_conserves:
  assumes wf: "mail_wf mb" and step: "mail_step x mb = (acc, del, mb')"
  shows "mset (search_order mb) + mset acc = mset del + mset (search_order mb')"
proof (cases "is_selective x")
  case False
  from mail_step_fifo [OF wf this step] show ?thesis
    unfolding mset_search_order mset_by_class [of acc] mset_by_class [of del]
    by (metis (no_types, lifting) add.commute add.left_commute map_append mset_append)
next
  case True
  then obtain p where x: "x = SelectiveRecv p" by (auto simp: is_selective_def split: mail_op.splits)
  show ?thesis
  proof (cases "\<exists>m\<in>set (reachable_order mb). p m")
    case True
    with step x show ?thesis
      using selective_hit_reachable [OF True] by (auto simp: selective_hit_def delivered_def)
  next
    case False
    then have "\<forall>m\<in>set (reachable_order mb). \<not> p m" by simp
    from selective_miss [OF this mail_wf_ends(1) [OF wf]] step x show ?thesis
      by (auto simp: delivered_def split: if_splits)
  qed
qed

text \<open>The three facts lifted to runs.\<close>

lemma mail_run_wf: "mail_wf mb \<Longrightarrow> mail_run xs mb = (acc, del, mb') \<Longrightarrow> mail_wf mb'"
  by (induction xs arbitrary: mb acc del) (auto split: prod.splits dest: mail_step_wf)

lemma mail_run_conserves:
  "mail_wf mb \<Longrightarrow> mail_run xs mb = (acc, del, mb') \<Longrightarrow>
     mset (search_order mb) + mset acc = mset del + mset (search_order mb')"
proof (induction xs arbitrary: mb acc del)
  case (Cons x xs)
  from Cons.prems(2) obtain a d m a' d' where s: "mail_step x mb = (a, d, m)"
    and r: "mail_run xs m = (a', d', mb')" and "acc = a @ a'" "del = d @ d'"
    by (auto split: prod.splits)
  with mail_step_conserves [OF Cons.prems(1) s] Cons.IH [OF mail_step_wf [OF Cons.prems(1) s] r]
  show ?case by (metis add.assoc mset_append)
qed simp

lemma mail_run_fifo:
  "mail_wf mb \<Longrightarrow> \<forall>x\<in>set xs. \<not> is_selective x \<Longrightarrow> mail_run xs mb = (acc, del, mb') \<Longrightarrow>
     fst (mail_abs mb) @ sys_msgs acc = sys_msgs del @ fst (mail_abs mb')
     \<and> snd (mail_abs mb) @ user_msgs acc = user_msgs del @ snd (mail_abs mb')"
proof (induction xs arbitrary: mb acc del)
  case (Cons x xs)
  from Cons.prems(3) obtain a d m a' d' where s: "mail_step x mb = (a, d, m)"
    and r: "mail_run xs m = (a', d', mb')" and eq: "acc = a @ a'" "del = d @ d'"
    by (auto split: prod.splits)
  from Cons.prems(2) have "\<not> is_selective x" by simp
  from mail_step_fifo [OF Cons.prems(1) this s] Cons.IH [OF mail_step_wf [OF Cons.prems(1) s] _ r] Cons.prems(2)
  show ?case by (simp add: eq) (metis append.assoc)
qed simp

section \<open>Properties\<close>

text \<open>
  The counter behind \<^verbatim>\<open>len()\<close> and \<^verbatim>\<open>mailbox_size\<close> is exact. After any sequence of sends
  (accepted or refused), receives of all three kinds and dropped ends, it is the number of user
  messages waiting in the channel and in the stash; system messages never count.
\<close>

theorem mailbox_counter_exact:
  assumes "mail_run ops channel = (acc, del, mb)" and "length (user_msgs (search_order mb)) < 2 ^ 64"
  shows "unat (MailboxSender_len mb) = length (user_msgs (search_order mb))"
proof -
  from mail_run_wf [OF channel_wf assms(1)] have "counter mb = of_nat (length (user_msgs (search_order mb)))"
    by (simp add: mail_wf_order)
  with assms(2) show ?thesis by (simp add: MailboxSender_len_def of_nat_eq_unat)
qed

theorem mailbox_counter_exact_witness:
  "\<exists>acc del mb. mail_run [Send (User [1]), Send (System Ping), Send (User [2]), Recv, SelectiveRecv (\<lambda>m. m = User [2])] channel
       = (acc, del, mb)
     \<and> del = [System Ping, User [2]] \<and> unat (MailboxSender_len mb) = 1"
proof -
  have run: "mail_run [Send (User [1]), Send (System Ping), Send (User [2]), Recv, SelectiveRecv (\<lambda>m. m = User [2])] channel
     = ([User [1], System Ping, User [2]], [System Ping, User [2]],
        \<lparr>user_ch = chan_new, sys_ch = chan_new, stash = [User [1]], counter = 1\<rparr>)"
    by (simp add: MailboxSender_send_def MailboxReceiver_recv_def MailboxReceiver_selective_recv_def
        selective_loop.simps channel_def chan_defs delivered_def)
  have "unat (MailboxSender_len \<lparr>user_ch = chan_new, sys_ch = chan_new, stash = [User [1]], counter = 1\<rparr>) = 1"
    using mailbox_counter_exact [OF run] by (simp add: search_order_def chan_new_def)
  then show ?thesis unfolding run by simp
qed

text \<open>
  C4: no message is lost, duplicated or made up. Over any sequence of calls on a fresh mailbox, the
  accepted messages are exactly the delivered ones together with those still waiting (in the stash
  or a channel), counted with multiplicity.
\<close>

theorem mailbox_conserves_messages:
  assumes "mail_run ops channel = (acc, del, mb)"
  shows "mset acc = mset del + mset (search_order mb)"
  using mail_run_conserves [OF channel_wf assms]
  by (simp add: search_order_def channel_def chan_new_def)

theorem mailbox_conserves_messages_witness:
  "\<exists>del mb. mail_run [Send (User [1]), Send (User [2]), Recv] channel = ([User [1], User [2]], del, mb)
     \<and> mset [User [1], User [2]] = mset del + mset (search_order mb) \<and> del = [User [1]]"
proof -
  have run: "mail_run [Send (User [1]), Send (User [2]), Recv] channel
     = ([User [1], User [2]], [User [1]],
        \<lparr>user_ch = chan_new\<lparr>queue := [[2]]\<rparr>, sys_ch = chan_new, stash = [], counter = 1\<rparr>)"
    by (simp add: MailboxSender_send_def MailboxReceiver_recv_def channel_def chan_defs delivered_def)
  show ?thesis using mailbox_conserves_messages [OF run] run by blast
qed

text \<open>
  C9: without selective receives, user messages are delivered in the order they were accepted, and
  so are system messages: of each class, what was delivered and then what still waits is what was
  accepted.
\<close>

theorem mailbox_fifo_per_class:
  assumes "mail_run ops channel = (acc, del, mb)" and "\<forall>x\<in>set ops. \<not> is_selective x"
  shows "user_msgs acc = user_msgs del @ snd (mail_abs mb)
    \<and> sys_msgs acc = sys_msgs del @ fst (mail_abs mb)"
  using mail_run_fifo [OF channel_wf assms(2,1)] by (simp add: channel_abs)

theorem mailbox_fifo_per_class_witness:
  "\<exists>acc del mb. mail_run [Send (User [1]), Send (User [2]), Send (System Pong), TryRecv, TryRecv] channel = (acc, del, mb)
     \<and> user_msgs acc = user_msgs del @ snd (mail_abs mb) \<and> user_msgs del = [[1]]"
proof -
  have run: "mail_run [Send (User [1]), Send (User [2]), Send (System Pong), TryRecv, TryRecv] channel
     = ([User [1], User [2], System Pong], [System Pong, User [1]],
        \<lparr>user_ch = chan_new\<lparr>queue := [[2]]\<rparr>, sys_ch = chan_new, stash = [], counter = 1\<rparr>)"
    by (simp add: MailboxSender_send_def MailboxReceiver_try_recv_def channel_def chan_defs)
  from mailbox_fifo_per_class [OF run] show ?thesis
    unfolding run by (simp add: is_selective_def)
qed

text \<open>
  \<^verbatim>\<open>try_recv\<close> implements the two-queue specification on every mailbox: it returns the oldest
  waiting system message if there is one, otherwise the oldest user message, otherwise nothing, and
  leaves the rest as it was.
\<close>

theorem try_recv_refines_spec:
  "map_prod id mail_abs (MailboxReceiver_try_recv mb) = spec_recv (mail_abs mb)"
  using try_recv_spec [of mb] by (simp add: prod_eq_iff)

text \<open>
  C7: while a sender is alive, a poll of \<^verbatim>\<open>recv\<close> implements the same specification and is pending
  exactly when no message at all is waiting; a user message is delivered only when no system
  message waits.
\<close>

theorem recv_refines_spec:
  assumes "mail_wf mb" and "tx_alive (sys_ch mb)"
  shows "mail_abs (snd (MailboxReceiver_recv mb)) = snd (spec_recv (mail_abs mb))
    \<and> fst (MailboxReceiver_recv mb)
         = (case fst (spec_recv (mail_abs mb)) of Some m \<Rightarrow> Ready (Some m) | None \<Rightarrow> Pending)"
  using assms mail_wf_ends(1) [OF assms(1)] try_recv_spec [of mb]
  by (cases "MailboxReceiver_try_recv mb") (auto simp: recv_try_recv split: option.splits)

theorem recv_refines_spec_witness:
  "fst (MailboxReceiver_recv (snd (MailboxSender_send (System Ping) (snd (MailboxSender_send (User [7]) channel)))))
   = Ready (Some (System Ping))"
proof -
  let ?mb = "snd (MailboxSender_send (System Ping) (snd (MailboxSender_send (User [7]) channel)))"
  have "mail_wf ?mb" by (intro send_wf channel_wf)
  moreover have "tx_alive (sys_ch ?mb)" "mail_abs ?mb = ([Ping], [[7]])"
    by (simp_all add: MailboxSender_send_def channel_def chan_defs mail_abs_def)
  ultimately show ?thesis using recv_refines_spec [of ?mb] by simp
qed

text \<open>
  C8: a selective receive takes the first message the predicate accepts in the search order (the
  stash, then the system channel, then the user channel), and the messages that remain keep that
  order; if none is accepted while a sender is alive it waits, with every message kept in order in
  the stash.
\<close>

theorem selective_recv_first_match:
  assumes "mail_wf mb" and "tx_alive (sys_ch mb)"
  shows "(search_order mb = us @ m # vs \<and> (\<forall>u\<in>set us. \<not> matcher u) \<and> matcher m \<longrightarrow>
        (\<exists>mb'. MailboxReceiver_selective_recv matcher mb = (Ready (Some m), mb') \<and> search_order mb' = us @ vs))
    \<and> ((\<forall>m\<in>set (search_order mb). \<not> matcher m) \<longrightarrow>
        (\<exists>mb'. MailboxReceiver_selective_recv matcher mb = (Pending, mb') \<and> stash mb' = search_order mb
          \<and> search_order mb' = search_order mb))"
proof (intro conjI impI)
  have reach: "reachable_order mb = search_order mb"
    using assms(2) by (simp add: reachable_order_def search_order_def)
  {
    assume "search_order mb = us @ m # vs \<and> (\<forall>u\<in>set us. \<not> matcher u) \<and> matcher m"
    then have o: "search_order mb = us @ m # vs" and u: "\<forall>u\<in>set us. \<not> matcher u" and m: "matcher m"
      by auto
    from o m have "\<exists>x\<in>set (reachable_order mb). matcher x" by (auto simp: reach)
    from selective_hit_reachable [OF this] obtain us' m' vs' mb' where
      *: "search_order mb = us' @ m' # vs'" "\<forall>u\<in>set us'. \<not> matcher u" "matcher m'"
        "MailboxReceiver_selective_recv matcher mb = (Ready (Some m'), mb')" "search_order mb' = us' @ vs'"
      by (auto simp: selective_hit_def)
    from first_hit_unique [OF trans [OF o [symmetric] *(1)] u m *(2,3)] *(4,5)
    show "\<exists>mb'. MailboxReceiver_selective_recv matcher mb = (Ready (Some m), mb') \<and> search_order mb' = us @ vs"
      by auto
  }
  {
    assume "\<forall>m\<in>set (search_order mb). \<not> matcher m"
    with selective_miss [of mb matcher] mail_wf_ends(1) [OF assms(1)] assms(2)
    show "\<exists>mb'. MailboxReceiver_selective_recv matcher mb = (Pending, mb') \<and> stash mb' = search_order mb
        \<and> search_order mb' = search_order mb"
      by (auto simp: reach)
  }
qed

theorem selective_recv_first_match_witness:
  "\<exists>mb'. MailboxReceiver_selective_recv (\<lambda>m. m = User [2])
       (snd (snd (mail_run [Send (User [1]), Send (User [2]), Send (User [3])] channel))) = (Ready (Some (User [2])), mb')
     \<and> search_order mb' = [User [1], User [3]]"
proof -
  let ?mb = "snd (snd (mail_run [Send (User [1]), Send (User [2]), Send (User [3])] channel))"
  have mb: "?mb = \<lparr>user_ch = chan_new\<lparr>queue := [[1], [2], [3]]\<rparr>, sys_ch = chan_new, stash = [], counter = 3\<rparr>"
    by (simp add: MailboxSender_send_def channel_def chan_defs)
  have "mail_wf ?mb" unfolding mb by (simp add: mail_wf_def mail_abs_def chan_new_def)
  moreover have "tx_alive (sys_ch ?mb)" unfolding mb by (simp add: chan_new_def)
  moreover have "search_order ?mb = [User [1]] @ User [2] # [User [3]]"
    unfolding mb by (simp add: search_order_def chan_new_def)
  ultimately show ?thesis using selective_recv_first_match [of ?mb "[User [1]]" "User [2]" "[User [3]]"] by simp
qed

text \<open>
  A failed send is side-effect free and hands the message back: when the receiver is gone,
  \<^verbatim>\<open>send\<close>, \<^verbatim>\<open>send_user_bytes\<close> and \<^verbatim>\<open>send_system\<close> return the message they were given and the
  mailbox, its counter included, is unchanged.
\<close>

theorem send_to_dropped_receiver:
  assumes "mail_wf mb" and "\<not> rx_alive (sys_ch mb)"
  shows "MailboxSender_send m mb = (Inl m, mb)
    \<and> MailboxSender_send_user_bytes b mb = (Inl b, mb)
    \<and> MailboxSender_send_system s mb = (Inl s, mb)"
  using send_dead [OF assms] by (simp add: send_user_bytes_send send_system_send)

theorem send_to_dropped_receiver_witness:
  "MailboxSender_send (User [1]) (drop_receiver channel) = (Inl (User [1]), drop_receiver channel)"
proof -
  have "mail_wf (drop_receiver channel)" by (intro drop_ends_wf channel_wf)
  moreover have "\<not> rx_alive (sys_ch (drop_receiver channel))"
    by (simp add: drop_receiver_def chan_drop_rx_def)
  ultimately show ?thesis using send_to_dropped_receiver by blast
qed

text \<open>
  Once every sender is gone, \<^verbatim>\<open>recv\<close> drains the stash and the system messages and then
  returns \<open>None\<close> at once, whatever still waits in the user channel: the biased \<^verbatim>\<open>select!\<close> sees the
  closed system channel first. \<^verbatim>\<open>try_recv\<close> on the same mailbox would deliver the waiting user
  message.
\<close>

theorem recv_after_close_abandons_user_messages:
  assumes "\<not> tx_alive (sys_ch mb)" and "stash mb = []" and "queue (sys_ch mb) = []"
    and "queue (user_ch mb) = u # us"
  shows "MailboxReceiver_recv mb = (Ready None, mb) \<and> fst (MailboxReceiver_try_recv mb) = Some (User u)"
  using assms recv_closed [OF assms(1)] try_recv_spec [of mb] by (simp add: mail_abs_def)

theorem recv_after_close_abandons_user_messages_witness:
  "fst (MailboxReceiver_recv (drop_sender (snd (MailboxSender_send (User [1]) channel)))) = Ready None
   \<and> fst (MailboxReceiver_try_recv (drop_sender (snd (MailboxSender_send (User [1]) channel)))) = Some (User [1])"
proof -
  let ?mb = "drop_sender (snd (MailboxSender_send (User [1]) channel))"
  have "\<not> tx_alive (sys_ch ?mb)" "stash ?mb = []" "queue (sys_ch ?mb) = []" "queue (user_ch ?mb) = [1] # []"
    by (simp_all add: drop_sender_def MailboxSender_send_def channel_def chan_defs)
  from recv_after_close_abandons_user_messages [OF this] show ?thesis by simp
qed

end
