(* ===== verification/Registry.thy ===== *)
theory Registry
  imports Pid
begin

text \<open>
  \<^verbatim>\<open>src/registry.rs\<close>: names for processes. The registry is one concurrent map from names to
  identifiers. A name may be a hierarchical path (\<^verbatim>\<open>/svc/payment/worker\<close>), and the two listing
  operations select the entries below a path prefix. Both iterate over the map, so both take the
  iteration order \<open>ks\<close>.

  The contract the runtime relies on is the locale \<open>naming\<close>: what a look-up returns is decided
  by the last operation on that name.
\<close>

record NameRegistry =
  names :: "string \<rightharpoonup> pid"

section \<open>The operations\<close>

definition NameRegistry_new :: NameRegistry where
  "NameRegistry_new = \<lparr>names = Map.empty\<rparr>"

definition NameRegistry_register :: "string \<Rightarrow> pid \<Rightarrow> NameRegistry \<Rightarrow> NameRegistry" where
  "NameRegistry_register name p r = r\<lparr>names := (names r)(name \<mapsto> p)\<rparr>"

definition NameRegistry_resolve :: "NameRegistry \<Rightarrow> string \<Rightarrow> pid option" where
  "NameRegistry_resolve r name = names r name"

definition NameRegistry_unregister :: "string \<Rightarrow> NameRegistry \<Rightarrow> NameRegistry" where
  "NameRegistry_unregister name r = r\<lparr>names := (names r)(name := None)\<rparr>"

text \<open>\<^verbatim>\<open>str::ends_with('/')\<close> and \<^verbatim>\<open>str::trim_end_matches('/')\<close>.\<close>

definition ends_with_slash :: "string \<Rightarrow> bool" where
  "ends_with_slash s \<longleftrightarrow> s \<noteq> [] \<and> last s = CHR ''/''"

definition trim_end_slashes :: "string \<Rightarrow> string" where
  "trim_end_slashes s = rev (dropWhile (\<lambda>c. c = CHR ''/'') (rev s))"

text \<open>The normalisation both listings start with.\<close>

definition norm_prefix :: "string \<Rightarrow> string" where
  "norm_prefix pre =
     (if pre = [] \<or> pre = ''/'' then []
      else if ends_with_slash pre then trim_end_slashes pre
      else pre)"

definition NameRegistry_list_children :: "string list \<Rightarrow> NameRegistry \<Rightarrow> string \<Rightarrow> (string \<times> pid) list" where
  "NameRegistry_list_children ks r pre =
     (let norm = norm_prefix pre;
          matcher = (if norm = [] then None else Some (norm @ ''/''))
      in filter (\<lambda>(key, p). case matcher of Some m \<Rightarrow> prefix m key | None \<Rightarrow> True)
           (iter_entries (names r) ks))"

definition NameRegistry_list_direct_children :: "string list \<Rightarrow> NameRegistry \<Rightarrow> string \<Rightarrow> (string \<times> pid) list" where
  "NameRegistry_list_direct_children ks r pre =
     (let norm = norm_prefix pre;
          matcher = (if norm = [] then [] else norm @ ''/'')
      in filter (\<lambda>(key, p).
           if matcher \<noteq> [] then
             prefix matcher key \<and> CHR ''/'' \<notin> set (drop (length matcher) key)
           else
             let tail = (if prefix ''/'' key then drop 1 key else key)
             in CHR ''/'' \<notin> set tail)
           (iter_entries (names r) ks))"

section \<open>The contract of a naming service\<close>

datatype naming_op = Register string pid | Unregister string

text \<open>The specification: the last operation on a name decides what the name stands for.\<close>

primrec last_binding :: "naming_op list \<Rightarrow> string \<Rightarrow> pid option" where
  "last_binding [] n = None"
| "last_binding (x # ops) n =
     (if \<exists>y\<in>set ops. (case y of Register m _ \<Rightarrow> m = n | Unregister m \<Rightarrow> m = n)
      then last_binding ops n
      else case x of Register m p \<Rightarrow> if m = n then Some p else None | Unregister m \<Rightarrow> None)"

locale naming =
  fixes empty :: 'r
    and bind :: "string \<Rightarrow> pid \<Rightarrow> 'r \<Rightarrow> 'r"
    and unbind :: "string \<Rightarrow> 'r \<Rightarrow> 'r"
    and look :: "'r \<Rightarrow> string \<Rightarrow> pid option"
  assumes look_empty: "look empty n = None"
    and look_bind: "look (bind n p r) m = (if m = n then Some p else look r m)"
    and look_unbind: "look (unbind n r) m = (if m = n then None else look r m)"
begin

lemma look_run_from:
  "look (fold (\<lambda>x. case x of Register n p \<Rightarrow> bind n p | Unregister n \<Rightarrow> unbind n) ops r) m
   = (if \<exists>y\<in>set ops. (case y of Register n _ \<Rightarrow> n = m | Unregister n \<Rightarrow> n = m)
      then last_binding ops m else look r m)"
  by (induction ops arbitrary: r) (auto simp: look_bind look_unbind split: naming_op.splits)

lemma look_run:
  "look (fold (\<lambda>x. case x of Register n p \<Rightarrow> bind n p | Unregister n \<Rightarrow> unbind n) ops empty) m
   = last_binding ops m"
proof -
  have "last_binding ops m = None"
    if "\<not> (\<exists>y\<in>set ops. (case y of Register n _ \<Rightarrow> n = m | Unregister n \<Rightarrow> n = m))"
    using that by (cases ops) (auto split: naming_op.splits)
  then show ?thesis by (auto simp: look_run_from look_empty)
qed

lemma unbind_bind: "look (unbind n (bind n p r)) m = look (unbind n r) m"
  by (simp add: look_bind look_unbind)

end

interpretation names: naming NameRegistry_new NameRegistry_register NameRegistry_unregister
  NameRegistry_resolve
  by unfold_locales
    (simp_all add: NameRegistry_new_def NameRegistry_register_def NameRegistry_unregister_def
      NameRegistry_resolve_def)

section \<open>Path prefixes\<close>

lemma trim_end_slashes_snoc [simp]:
  "trim_end_slashes (s @ [c]) = (if c = CHR ''/'' then trim_end_slashes s else s @ [c])"
  by (simp add: trim_end_slashes_def)

lemma trim_end_slashes_Nil [simp]: "trim_end_slashes [] = []"
  by (simp add: trim_end_slashes_def)

lemma norm_prefix_trim: "norm_prefix pre = trim_end_slashes pre"
  by (cases pre rule: rev_cases) (auto simp: norm_prefix_def ends_with_slash_def append_eq_Cons_conv)

lemma norm_prefix_no_slash: "\<not> ends_with_slash (norm_prefix pre)"
  unfolding norm_prefix_trim
  by (induction pre rule: rev_induct) (auto simp: ends_with_slash_def)

lemma norm_prefix_path: "\<not> ends_with_slash path \<Longrightarrow> norm_prefix (path @ replicate n CHR ''/'') = path"
proof (induction n)
  case 0
  then show ?case by (cases path rule: rev_cases) (simp_all add: norm_prefix_trim ends_with_slash_def)
next
  case (Suc n)
  have "path @ replicate (Suc n) CHR ''/'' = (path @ replicate n CHR ''/'') @ [CHR ''/'']"
    by (simp add: replicate_append_same)
  then show ?case using Suc by (simp only: norm_prefix_trim trim_end_slashes_snoc) simp
qed

lemma prefix_form: "\<exists>path n. pre = path @ replicate n CHR ''/'' \<and> \<not> ends_with_slash path"
proof (induction pre rule: rev_induct)
  case Nil
  show ?case by (rule exI [of _ "[]"], rule exI [of _ 0]) (simp add: ends_with_slash_def)
next
  case (snoc c pre)
  show ?case
  proof (cases "c = CHR ''/''")
    case True
    from snoc obtain path n where "pre = path @ replicate n CHR ''/''" "\<not> ends_with_slash path" by blast
    with True show ?thesis
      by (intro exI [of _ path] exI [of _ "Suc n"]) (simp add: replicate_append_same [symmetric])
  next
    case False
    then show ?thesis by (intro exI [of _ "pre @ [c]"] exI [of _ 0]) (simp add: ends_with_slash_def)
  qed
qed

text \<open>What the two listings select, at one entry.\<close>

definition below :: "string \<Rightarrow> string \<Rightarrow> bool" where
  "below pre key \<longleftrightarrow> norm_prefix pre = [] \<or> (\<exists>tail. key = norm_prefix pre @ ''/'' @ tail)"

definition directly_below :: "string \<Rightarrow> string \<Rightarrow> bool" where
  "directly_below pre key \<longleftrightarrow>
     (\<exists>tail. CHR ''/'' \<notin> set tail \<and>
        (key = norm_prefix pre @ ''/'' @ tail \<or> norm_prefix pre = [] \<and> key = tail))"

lemma list_children_filter:
  "NameRegistry_list_children ks r pre = filter (\<lambda>(key, p). below pre key) (iter_entries (names r) ks)"
  by (auto simp: NameRegistry_list_children_def below_def prefix_def Let_def intro!: filter_cong)

lemma directly_below_root:
  "norm_prefix pre = [] \<Longrightarrow>
     directly_below pre key \<longleftrightarrow> CHR ''/'' \<notin> set (if prefix ''/'' key then drop 1 key else key)"
  by (cases key) (auto simp: directly_below_def prefix_def)

lemma directly_below_nonroot:
  "norm_prefix pre \<noteq> [] \<Longrightarrow>
     directly_below pre key \<longleftrightarrow> prefix (norm_prefix pre @ ''/'') key
        \<and> CHR ''/'' \<notin> set (drop (length (norm_prefix pre @ ''/'')) key)"
  by (auto simp: directly_below_def prefix_def)

lemma list_direct_children_filter:
  "NameRegistry_list_direct_children ks r pre
   = filter (\<lambda>(key, p). directly_below pre key) (iter_entries (names r) ks)"
  by (cases "norm_prefix pre = []")
    (simp_all add: NameRegistry_list_direct_children_def Let_def directly_below_root
      directly_below_nonroot)

lemma directly_below_below: "directly_below pre key \<Longrightarrow> below pre key"
  by (auto simp: directly_below_def below_def)

section \<open>Properties\<close>

text \<open>
  Whatever sequence of \<^verbatim>\<open>register\<close> and \<^verbatim>\<open>unregister\<close> calls a fresh registry has seen,
  \<^verbatim>\<open>resolve\<close> returns what the last call on that name says: the identifier of the last
  registration (an earlier one is overwritten), or nothing after an \<^verbatim>\<open>unregister\<close> or when the
  name was never registered.
\<close>

theorem registry_resolves_last_binding:
  "NameRegistry_resolve
     (fold (\<lambda>x. case x of Register n p \<Rightarrow> NameRegistry_register n p
                         | Unregister n \<Rightarrow> NameRegistry_unregister n) ops NameRegistry_new) name
   = last_binding ops name"
  by (rule names.look_run)

text \<open>
  C36: the listings of paths are exact. Every prefix is a path that does not end in a slash, followed by
  some slashes; the empty path is the root. \<^verbatim>\<open>list_children\<close> returns, each once and with its identifier,
  exactly the registered names below that path: all names at the root, otherwise those that continue the
  path with a slash, so neither the path itself nor a sibling that only shares its first characters.
  \<^verbatim>\<open>list_direct_children\<close> returns exactly those of them that have no further slash behind that one (at
  the root a leading slash is not counted). How many slashes the prefix ends in does not matter.
\<close>

theorem list_children_exact:
  assumes "iter_order (names r) ks"
  shows "(\<exists>path n. pre = path @ replicate n CHR ''/'' \<and> \<not> ends_with_slash path)
    \<and> (\<forall>path n. pre = path @ replicate n CHR ''/'' \<and> \<not> ends_with_slash path \<longrightarrow>
        ((key, p) \<in> set (NameRegistry_list_children ks r pre) \<longleftrightarrow>
          NameRegistry_resolve r key = Some p \<and> (path = [] \<or> (\<exists>tail. key = path @ ''/'' @ tail)))
      \<and> ((key, p) \<in> set (NameRegistry_list_direct_children ks r pre) \<longleftrightarrow>
          NameRegistry_resolve r key = Some p \<and>
          (\<exists>tail. CHR ''/'' \<notin> set tail \<and> (key = path @ ''/'' @ tail \<or> path = [] \<and> key = tail))))
    \<and> distinct (map fst (NameRegistry_list_children ks r pre))
    \<and> distinct (map fst (NameRegistry_list_direct_children ks r pre))"
proof (intro conjI allI impI; (elim conjE)?)
  show "\<exists>path n. pre = path @ replicate n CHR ''/'' \<and> \<not> ends_with_slash path" by (rule prefix_form)
next
  fix path n assume "pre = path @ replicate n CHR ''/''" "\<not> ends_with_slash path"
  then have n: "norm_prefix pre = path" by (simp add: norm_prefix_path)
  show "(key, p) \<in> set (NameRegistry_list_children ks r pre) \<longleftrightarrow>
      NameRegistry_resolve r key = Some p \<and> (path = [] \<or> (\<exists>tail. key = path @ ''/'' @ tail))"
    using assms by (simp add: list_children_filter iter_entries_member NameRegistry_resolve_def below_def n)
  show "(key, p) \<in> set (NameRegistry_list_direct_children ks r pre) \<longleftrightarrow>
      NameRegistry_resolve r key = Some p \<and>
      (\<exists>tail. CHR ''/'' \<notin> set tail \<and> (key = path @ ''/'' @ tail \<or> path = [] \<and> key = tail))"
    using assms
    by (simp add: list_direct_children_filter iter_entries_member NameRegistry_resolve_def directly_below_def n)
next
  show "distinct (map fst (NameRegistry_list_children ks r pre))"
    "distinct (map fst (NameRegistry_list_direct_children ks r pre))"
    using distinct_iter_entries [OF assms]
    by (simp_all add: list_children_filter list_direct_children_filter distinct_map_filter)
qed

definition example_registry :: NameRegistry where
  "example_registry = NameRegistry_register ''/a/b/c'' 7 (NameRegistry_register ''/a/b'' 5
     (NameRegistry_register ''/ab'' 3 NameRegistry_new))"

lemma example_registry_order: "iter_order (names example_registry) [''/ab'', ''/a/b'', ''/a/b/c'']"
  by (auto simp: example_registry_def NameRegistry_register_def NameRegistry_new_def iter_order_def)

theorem list_children_exact_witness:
  "(''/a/b'', 5) \<in> set (NameRegistry_list_children [''/ab'', ''/a/b'', ''/a/b/c''] example_registry ''/a//'')
   \<and> (''/ab'', 3) \<notin> set (NameRegistry_list_children [''/ab'', ''/a/b'', ''/a/b/c''] example_registry ''/a//'')
   \<and> (''/a/b/c'', 7) \<notin> set (NameRegistry_list_direct_children [''/ab'', ''/a/b'', ''/a/b/c''] example_registry ''/a//'')"
proof -
  have "''/a//'' = ''/a'' @ replicate 2 CHR ''/'' \<and> \<not> ends_with_slash ''/a''"
    by (simp add: ends_with_slash_def numeral_2_eq_2)
  note at_a = list_children_exact [OF example_registry_order, of "''/a//''", THEN conjunct2, THEN conjunct1,
      rule_format, OF this]
  show ?thesis
    unfolding at_a [THEN conjunct1] at_a [THEN conjunct2]
    by (simp add: example_registry_def NameRegistry_register_def NameRegistry_new_def NameRegistry_resolve_def
        append_eq_Cons_conv)
qed

text \<open>
  \<^verbatim>\<open>list_direct_children\<close> is \<^verbatim>\<open>list_children\<close> restricted to one level: the same entries
  in the same order, without those that have a further slash after the prefix. At the root it keeps
  the names with no slash but a leading one.
\<close>

theorem list_direct_children_one_level:
  "NameRegistry_list_direct_children ks r pre =
     filter (\<lambda>(key, p). \<exists>tail. CHR ''/'' \<notin> set tail \<and>
         (key = norm_prefix pre @ ''/'' @ tail \<or> norm_prefix pre = [] \<and> key = tail))
       (NameRegistry_list_children ks r pre)"
proof -
  have "filter (\<lambda>(key, p). directly_below pre key) es
      = filter (\<lambda>(key, p). directly_below pre key) (filter (\<lambda>(key, p). below pre key) es)"
    for es :: "(string \<times> pid) list"
    using directly_below_below by (auto intro!: filter_cong)
  then show ?thesis
    unfolding list_direct_children_filter list_children_filter directly_below_def [symmetric] .
qed

text \<open>
  Trailing slashes of the prefix do not matter to either listing, so the prefixes
  \<^verbatim>\<open>/a/b\<close> and \<^verbatim>\<open>/a/b///\<close> select the same entries, and any run of slashes is the root.
\<close>

theorem listing_ignores_trailing_slashes:
  "NameRegistry_list_children ks r (pre @ replicate n CHR ''/'') = NameRegistry_list_children ks r pre
   \<and> NameRegistry_list_direct_children ks r (pre @ replicate n CHR ''/'')
     = NameRegistry_list_direct_children ks r pre"
proof -
  have "trim_end_slashes (pre @ replicate n CHR ''/'') = trim_end_slashes pre"
    by (induction n) (auto simp: replicate_append_same [symmetric] simp flip: append_assoc)
  then have "norm_prefix (pre @ replicate n CHR ''/'') = norm_prefix pre"
    by (simp add: norm_prefix_trim)
  then show ?thesis
    by (simp add: NameRegistry_list_children_def NameRegistry_list_direct_children_def)
qed

end
