(* ===== verification/Runtime.thy ===== *)
theory Runtime
  imports Mailbox Registry Supervisor
begin

text \<open>
  \<^verbatim>\<open>src/lib.rs\<close>: the runtime that owns the other components, spawns actors and runs the exit
  protocol.

  \<^item> Shared objects live in stores: \<open>boxes\<close> holds the mailboxes, \<open>vecs\<close> the observers' vectors and
    \<open>sups\<close> the supervisors, all by address; the maps of the \<^verbatim>\<open>Runtime\<close> struct hold addresses.
    A \<^verbatim>\<open>MailboxSender\<close> outside the map does not survive a spawn (the local clone is dropped when
    the function returns), so removing an entry drops the last sender. The global supervisor is at
    address 0.
  \<^item> \<open>actors\<close> holds the tasks the runtime spawned: the actor's identifier and mailbox, its body and
    how far the task has come. The code after \<^verbatim>\<open>actor_handle.await\<close>, the same in all four spawn
    functions, is \<open>exit_step\<close>, one statement at a time, because other tasks run in between.
  \<^item> \<open>rt_step\<close> interleaves calls of the public functions, the receive loops, the exit protocol of
    every actor, the rounds of the restart tasks and the reports of the monitors. What user code does inside a handler or a
    factory is such calls.
  \<^item> A \<^verbatim>\<open>Duration\<close> is a number of nanoseconds; an \<^verbatim>\<open>f64\<close> is its bit pattern.
\<close>

type_synonym duration = nat
type_synonym f64 = u64
type_synonym addr = nat

text \<open>What \<^verbatim>\<open>JoinHandle::await\<close> returns; the text is the \<^verbatim>\<open>Debug\<close> form of the \<^verbatim>\<open>JoinError\<close>.\<close>

datatype join_result = JoinOk | JoinPanic string | JoinCancelled string

datatype actor_body = FreeBody | HandlerBody usize usize | ObservedBody

datatype actor_pc = Running | ExRemove | ExNotify | ExPaths "string list" | ExDeallocate
  | ExLinks | ExSend "pid list" | ExDone

record actor =
  apid :: pid
  abox :: addr
  body :: actor_body
  pc :: actor_pc
  why :: "ExitReason \<times> string option"

record Runtime =
  slab :: SlabAllocator
  mailboxes :: "pid \<rightharpoonup> addr"
  boxes :: "addr \<Rightarrow> mailbox"
  next_addr :: addr
  actors :: "actor list"
  observers :: "pid \<rightharpoonup> addr"
  vecs :: "addr \<Rightarrow> Message list"
  sups :: "addr \<Rightarrow> sup_sys"
  next_sup :: addr
  path_supervisors :: "string \<rightharpoonup> addr"
  registry :: NameRegistry
  network_io_timeout :: duration
  network_max_payload :: usize
  network_max_name_len :: usize
  monitor_backoff_factor :: f64
  monitor_backoff_max :: duration
  monitor_failure_threshold :: usize
  release_gil_max_threads :: usize
  gil_pool_size :: usize
  release_gil_strict :: bool
  timers :: "u64 \<rightharpoonup> addr"
  timer_counter :: u64

definition sup_new :: sup_sys where
  "sup_new = \<lparr>sup = Supervisor_new, tasks = []\<rparr>"

definition secs :: "nat \<Rightarrow> duration" where
  "secs n = n * 1000000000"

definition Runtime_new :: Runtime where
  "Runtime_new =
     \<lparr>slab = SlabAllocator_new, mailboxes = Map.empty, boxes = (\<lambda>_. channel), next_addr = 0,
      actors = [], observers = Map.empty, vecs = (\<lambda>_. []), sups = (\<lambda>_. sup_new), next_sup = 1,
      path_supervisors = Map.empty, registry = NameRegistry_new,
      network_io_timeout = secs 5, network_max_payload = 1024 * 1024, network_max_name_len = 1024,
      monitor_backoff_factor = 0x4000000000000000, monitor_backoff_max = secs 60,
      monitor_failure_threshold = 1, release_gil_max_threads = 256, gil_pool_size = 8,
      release_gil_strict = False, timers = Map.empty, timer_counter = 0\<rparr>"

section \<open>Configuration\<close>

definition Runtime_set_release_gil_limits :: "usize \<Rightarrow> usize \<Rightarrow> Runtime \<Rightarrow> Runtime" where
  "Runtime_set_release_gil_limits max_threads pool_size R =
     R\<lparr>release_gil_max_threads := max_threads, gil_pool_size := pool_size\<rparr>"

definition Runtime_set_release_gil_strict :: "bool \<Rightarrow> Runtime \<Rightarrow> Runtime" where
  "Runtime_set_release_gil_strict strict R = R\<lparr>release_gil_strict := strict\<rparr>"

definition Runtime_get_release_gil_limits :: "Runtime \<Rightarrow> usize \<times> usize" where
  "Runtime_get_release_gil_limits R = (release_gil_max_threads R, gil_pool_size R)"

definition Runtime_is_release_gil_strict :: "Runtime \<Rightarrow> bool" where
  "Runtime_is_release_gil_strict R = release_gil_strict R"

definition Runtime_set_network_io_timeout :: "duration \<Rightarrow> Runtime \<Rightarrow> Runtime" where
  "Runtime_set_network_io_timeout t R = R\<lparr>network_io_timeout := t\<rparr>"

definition Runtime_set_network_max_payload :: "usize \<Rightarrow> Runtime \<Rightarrow> Runtime" where
  "Runtime_set_network_max_payload n R = R\<lparr>network_max_payload := n\<rparr>"

definition Runtime_set_network_max_name_len :: "usize \<Rightarrow> Runtime \<Rightarrow> Runtime" where
  "Runtime_set_network_max_name_len n R = R\<lparr>network_max_name_len := n\<rparr>"

definition Runtime_set_monitor_backoff :: "f64 \<Rightarrow> duration \<Rightarrow> usize \<Rightarrow> Runtime \<Rightarrow> Runtime" where
  "Runtime_set_monitor_backoff factor mx failure_threshold R =
     R\<lparr>monitor_backoff_factor := factor, monitor_backoff_max := mx,
       monitor_failure_threshold := failure_threshold\<rparr>"

section \<open>Names and paths\<close>

definition Runtime_register :: "string \<Rightarrow> pid \<Rightarrow> Runtime \<Rightarrow> Runtime" where
  "Runtime_register name p R = R\<lparr>registry := NameRegistry_register name p (registry R)\<rparr>"

definition Runtime_unregister :: "string \<Rightarrow> Runtime \<Rightarrow> Runtime" where
  "Runtime_unregister name R = R\<lparr>registry := NameRegistry_unregister name (registry R)\<rparr>"

definition Runtime_resolve :: "Runtime \<Rightarrow> string \<Rightarrow> pid option" where
  "Runtime_resolve R name = NameRegistry_resolve (registry R) name"

definition Runtime_register_path :: "string \<Rightarrow> pid \<Rightarrow> Runtime \<Rightarrow> Runtime" where
  "Runtime_register_path path p R = R\<lparr>registry := NameRegistry_register path p (registry R)\<rparr>"

definition Runtime_unregister_path :: "string \<Rightarrow> Runtime \<Rightarrow> Runtime" where
  "Runtime_unregister_path path R = R\<lparr>registry := NameRegistry_unregister path (registry R)\<rparr>"

definition Runtime_whereis_path :: "Runtime \<Rightarrow> string \<Rightarrow> pid option" where
  "Runtime_whereis_path R path = NameRegistry_resolve (registry R) path"

definition Runtime_list_children :: "string list \<Rightarrow> Runtime \<Rightarrow> string \<Rightarrow> (string \<times> pid) list" where
  "Runtime_list_children ks R pre = NameRegistry_list_children ks (registry R) pre"

definition Runtime_list_children_direct :: "string list \<Rightarrow> Runtime \<Rightarrow> string \<Rightarrow> (string \<times> pid) list" where
  "Runtime_list_children_direct ks R pre = NameRegistry_list_direct_children ks (registry R) pre"

section \<open>Supervision\<close>

text \<open>A call on the supervisor at an address.\<close>

definition sup_call :: "addr \<Rightarrow> sup_op \<Rightarrow> Runtime \<Rightarrow> Runtime" where
  "sup_call a x R = R\<lparr>sups := (sups R)(a := (sups R a)\<lparr>sup := sup_exec x (sup (sups R a))\<rparr>)\<rparr>"

text \<open>\<^verbatim>\<open>path_supervisors.entry(path).or_insert_with(|| Arc::new(Supervisor::new()))\<close>\<close>

definition path_entry :: "string \<Rightarrow> Runtime \<Rightarrow> addr \<times> Runtime" where
  "path_entry path R =
     (case path_supervisors R path of
        Some a \<Rightarrow> (a, R)
      | None \<Rightarrow> (next_sup R, R\<lparr>sups := (sups R)(next_sup R := sup_new), next_sup := next_sup R + 1,
                  path_supervisors := (path_supervisors R)(path \<mapsto> next_sup R)\<rparr>))"

definition Runtime_create_path_supervisor :: "string \<Rightarrow> Runtime \<Rightarrow> Runtime" where
  "Runtime_create_path_supervisor path R = snd (path_entry path R)"

definition Runtime_remove_path_supervisor :: "string \<Rightarrow> Runtime \<Rightarrow> Runtime" where
  "Runtime_remove_path_supervisor path R = R\<lparr>path_supervisors := (path_supervisors R)(path := None)\<rparr>"

definition Runtime_path_supervisor_watch :: "string \<Rightarrow> pid \<Rightarrow> Runtime \<Rightarrow> Runtime" where
  "Runtime_path_supervisor_watch path p R =
     (case path_supervisors R path of
        Some a \<Rightarrow> sup_call a (Watch p) R
      | None \<Rightarrow> sup_call 0 (Watch p) R)"

definition Runtime_path_supervisor_children :: "pid list \<Rightarrow> string \<Rightarrow> Runtime \<Rightarrow> pid list" where
  "Runtime_path_supervisor_children ks path R =
     (case path_supervisors R path of
        Some a \<Rightarrow> Supervisor_child_pids ks (sup (sups R a))
      | None \<Rightarrow> [])"

definition Runtime_watch_path :: "string list \<Rightarrow> string \<Rightarrow> Runtime \<Rightarrow> Runtime" where
  "Runtime_watch_path ks pre R =
     fold (\<lambda>(_, p). sup_call 0 (Watch p)) (Runtime_list_children_direct ks R pre) R"

definition Runtime_supervise :: "pid \<Rightarrow> closure \<Rightarrow> RestartStrategy \<Rightarrow> Runtime \<Rightarrow> Runtime" where
  "Runtime_supervise p f strat R = sup_call 0 (AddChild p \<lparr>factory = f, strategy = strat\<rparr>) R"

definition Runtime_path_supervise_with_factory ::
    "string \<Rightarrow> pid \<Rightarrow> closure \<Rightarrow> RestartStrategy \<Rightarrow> Runtime \<Rightarrow> Runtime" where
  "Runtime_path_supervise_with_factory path p f strat R =
     (let spec = \<lparr>factory = f, strategy = strat\<rparr>; (a, R) = path_entry path R
      in sup_call a (AddChild p spec) R)"

definition Runtime_link :: "pid \<Rightarrow> pid \<Rightarrow> Runtime \<Rightarrow> Runtime" where
  "Runtime_link p q R = sup_call 0 (Link p q) R"

definition Runtime_unlink :: "pid \<Rightarrow> pid \<Rightarrow> Runtime \<Rightarrow> Runtime" where
  "Runtime_unlink p q R = sup_call 0 (Unlink p q) R"

section \<open>Messages\<close>

definition Runtime_send :: "pid \<Rightarrow> Message \<Rightarrow> Runtime \<Rightarrow> (Message + unit) \<times> Runtime" where
  "Runtime_send p msg R =
     (case mailboxes R p of
        Some a \<Rightarrow> (case MailboxSender_send msg (boxes R a) of
                     (res, mb) \<Rightarrow> (res, R\<lparr>boxes := (boxes R)(a := mb)\<rparr>))
      | None \<Rightarrow> (Inl msg, R))"

definition Runtime_send_named :: "string \<Rightarrow> Message \<Rightarrow> Runtime \<Rightarrow> (string + unit) \<times> Runtime" where
  "Runtime_send_named name msg R =
     (case Runtime_resolve R name of
        Some p \<Rightarrow> (case Runtime_send p msg R of
                     (Inl _, R) \<Rightarrow> (Inl ''Send failed'', R)
                   | (Inr u, R) \<Rightarrow> (Inr u, R))
      | None \<Rightarrow> (Inl (''Name '' @ [CHR 0x27] @ name @ [CHR 0x27] @ '' not found''), R))"

definition Runtime_hot_swap :: "pid \<Rightarrow> usize \<Rightarrow> Runtime \<Rightarrow> Runtime" where
  "Runtime_hot_swap p handler_ptr R =
     (case mailboxes R p of
        Some a \<Rightarrow> R\<lparr>boxes := (boxes R)(a := snd (MailboxSender_send_system (HotSwap handler_ptr) (boxes R a)))\<rparr>
      | None \<Rightarrow> R)"

definition Runtime_mailbox_size :: "Runtime \<Rightarrow> pid \<Rightarrow> usize option" where
  "Runtime_mailbox_size R p = map_option (\<lambda>a. MailboxSender_len (boxes R a)) (mailboxes R p)"

definition Runtime_is_alive :: "Runtime \<Rightarrow> pid \<Rightarrow> bool" where
  "Runtime_is_alive R p = SlabAllocator_is_valid (slab R) p"

definition Runtime_get_observed_messages :: "Runtime \<Rightarrow> pid \<Rightarrow> Message list option" where
  "Runtime_get_observed_messages R p = map_option (vecs R) (observers R p)"

definition Runtime_take_observed_message_matching ::
    "pid \<Rightarrow> (Message \<Rightarrow> bool) \<Rightarrow> Runtime \<Rightarrow> Message option \<times> Runtime" where
  "Runtime_take_observed_message_matching p matcher R =
     (case observers R p of
        Some a \<Rightarrow>
          (case position matcher (vecs R a) of
             Some pos \<Rightarrow> (Some (vecs R a ! pos), R\<lparr>vecs := (vecs R)(a := remove_at pos (vecs R a))\<rparr>)
           | None \<Rightarrow> (None, R))
      | None \<Rightarrow> (None, R))"

section \<open>Spawning and stopping\<close>

text \<open>Removing an entry of the mailbox map drops the last sender of that mailbox.\<close>

definition remove_mailbox :: "pid \<Rightarrow> Runtime \<Rightarrow> Runtime" where
  "remove_mailbox p R =
     (case mailboxes R p of
        Some a \<Rightarrow> R\<lparr>mailboxes := (mailboxes R)(p := None), boxes := (boxes R)(a := drop_sender (boxes R a))\<rparr>
      | None \<Rightarrow> R)"

definition Runtime_stop :: "pid \<Rightarrow> Runtime \<Rightarrow> Runtime" where
  "Runtime_stop p R = remove_mailbox p R"

text \<open>
  The common part of the spawn functions: a fresh identifier (\<open>None\<close> if the slab panics), a fresh
  mailbox, the entry in the map (which drops a sender it displaces) and the task.
\<close>

definition spawn_task :: "actor_body \<Rightarrow> Runtime \<Rightarrow> (pid \<times> Runtime) option" where
  "spawn_task b R =
     (case SlabAllocator_allocate (slab R) of
        None \<Rightarrow> None
      | Some (p, sl) \<Rightarrow>
          let a = next_addr R;
              R = R\<lparr>slab := sl, boxes := (boxes R)(a := channel), next_addr := next_addr R + 1\<rparr>;
              R = remove_mailbox p R;
              R = R\<lparr>mailboxes := (mailboxes R)(p \<mapsto> a)\<rparr>;
              t = \<lparr>apid = p, abox = a, body = b, pc = Running, why = (Normal, None)\<rparr>
          in Some (p, R\<lparr>actors := actors R @ [t]\<rparr>))"

definition Runtime_spawn_actor :: "Runtime \<Rightarrow> (pid \<times> Runtime) option" where
  "Runtime_spawn_actor R = spawn_task FreeBody R"

definition Runtime_spawn_actor_with_budget :: "usize \<Rightarrow> Runtime \<Rightarrow> (pid \<times> Runtime) option" where
  "Runtime_spawn_actor_with_budget budget R = spawn_task FreeBody R"

definition Runtime_spawn_handler_with_budget :: "usize \<Rightarrow> Runtime \<Rightarrow> (pid \<times> Runtime) option" where
  "Runtime_spawn_handler_with_budget budget R = spawn_task (HandlerBody budget 0) R"

definition Runtime_spawn_observed_handler :: "usize \<Rightarrow> Runtime \<Rightarrow> (pid \<times> Runtime) option" where
  "Runtime_spawn_observed_handler budget R =
     (let a = next_addr R in
      case spawn_task ObservedBody R of
        None \<Rightarrow> None
      | Some (p, R) \<Rightarrow> Some (p, R\<lparr>vecs := (vecs R)(a := []), observers := (observers R)(p \<mapsto> a)\<rparr>))"

definition Runtime_spawn_with_path_observed :: "usize \<Rightarrow> string \<Rightarrow> Runtime \<Rightarrow> (pid \<times> Runtime) option" where
  "Runtime_spawn_with_path_observed budget path R =
     (case Runtime_spawn_observed_handler budget R of
        None \<Rightarrow> None
      | Some (p, R) \<Rightarrow> Some (p, Runtime_register_path path p R))"

text \<open>\<^verbatim>\<open>wait\<close> over the states of the runtime at its polls, 5 ms apart: whether it has returned.\<close>

fun Runtime_wait :: "pid \<Rightarrow> Runtime list \<Rightarrow> bool" where
  "Runtime_wait p [] = False"
| "Runtime_wait p (R # Rs) = (if Runtime_is_alive R p then Runtime_wait p Rs else True)"

section \<open>The body of an actor\<close>

definition exit_reason :: "join_result \<Rightarrow> ExitReason \<times> string option" where
  "exit_reason res =
     (case res of
        JoinOk \<Rightarrow> (Normal, None)
      | JoinPanic e \<Rightarrow> (Panic, Some (''join_error: '' @ e))
      | JoinCancelled e \<Rightarrow> (Other ''join_error'', Some (''join_error: '' @ e)))"

text \<open>The end of the body drops the receiver it owns.\<close>

definition finish_body :: "join_result \<Rightarrow> actor \<Rightarrow> Runtime \<Rightarrow> actor \<times> Runtime" where
  "finish_body res t R =
     (t\<lparr>pc := ExRemove, why := exit_reason res\<rparr>,
      R\<lparr>boxes := (boxes R)(abox t := drop_receiver (boxes R (abox t)))\<rparr>)"

text \<open>The budget of a handler loop after one message: the new count, and whether the task yields.\<close>

definition budget_tick :: "usize \<Rightarrow> usize \<Rightarrow> usize \<times> bool" where
  "budget_tick budget processed =
     (let processed = processed + 1 in
      if budget \<le> processed then (0, True) else (processed, False))"

text \<open>One poll of the receive loop of \<^verbatim>\<open>spawn_handler_with_budget\<close> and \<^verbatim>\<open>spawn_observed_handler\<close>.\<close>

definition body_poll :: "actor \<Rightarrow> Runtime \<Rightarrow> actor \<times> Runtime" where
  "body_poll t R =
     (case MailboxReceiver_recv (boxes R (abox t)) of
        (Pending, mb) \<Rightarrow> (t, R\<lparr>boxes := (boxes R)(abox t := mb)\<rparr>)
      | (Ready None, mb) \<Rightarrow> finish_body JoinOk t (R\<lparr>boxes := (boxes R)(abox t := mb)\<rparr>)
      | (Ready (Some msg), mb) \<Rightarrow>
          let R = R\<lparr>boxes := (boxes R)(abox t := mb)\<rparr> in
          (case body t of
             FreeBody \<Rightarrow> (t, R)
           | HandlerBody budget processed \<Rightarrow>
               (t\<lparr>body := HandlerBody budget (fst (budget_tick budget processed))\<rparr>, R)
           | ObservedBody \<Rightarrow> (t, R\<lparr>vecs := (vecs R)(abox t := vecs R (abox t) @ [msg])\<rparr>)))"

section \<open>The exit protocol\<close>

definition sup_notify :: "pid list \<Rightarrow> addr \<Rightarrow> pid \<Rightarrow> Runtime \<Rightarrow> Runtime" where
  "sup_notify ks a p R =
     (case Supervisor_notify_exit ks p (sup (sups R a)) of
        (s, ts) \<Rightarrow> R\<lparr>sups := (sups R)(a := \<lparr>sup = s, tasks = tasks (sups R a) @ ts\<rparr>)\<rparr>)"

text \<open>
  One statement of the protocol. \<open>ord a\<close> is the order in which the children of the supervisor at \<open>a\<close>
  are iterated, \<open>ps\<close> that of the path supervisors.
\<close>

definition exit_step :: "(addr \<Rightarrow> pid list) \<Rightarrow> string list \<Rightarrow> actor \<Rightarrow> Runtime \<Rightarrow> actor \<times> Runtime" where
  "exit_step ord ps t R =
     (case pc t of
        Running \<Rightarrow> (t, R)
      | ExRemove \<Rightarrow> (t\<lparr>pc := ExNotify\<rparr>, remove_mailbox (apid t) R)
      | ExNotify \<Rightarrow> (t\<lparr>pc := ExPaths ps\<rparr>, sup_notify (ord 0) 0 (apid t) R)
      | ExPaths [] \<Rightarrow> (t\<lparr>pc := ExDeallocate\<rparr>, R)
      | ExPaths (path # rest) \<Rightarrow>
          (t\<lparr>pc := ExPaths rest\<rparr>,
           case path_supervisors R path of
             None \<Rightarrow> R
           | Some a \<Rightarrow> if Supervisor_contains_child (sup (sups R a)) (apid t)
                       then sup_notify (ord a) a (apid t) R else R)
      | ExDeallocate \<Rightarrow>
          (t\<lparr>pc := ExLinks\<rparr>, R\<lparr>slab := snd (SlabAllocator_deallocate (apid t) (slab R))\<rparr>)
      | ExLinks \<Rightarrow>
          (t\<lparr>pc := ExSend (fst (Supervisor_linked_pids (apid t) (sup (sups R 0))))\<rparr>,
           sup_call 0 (TakeLinks (apid t)) R)
      | ExSend [] \<Rightarrow> (t\<lparr>pc := ExDone\<rparr>, R)
      | ExSend (lp # rest) \<Rightarrow>
          (t\<lparr>pc := ExSend rest\<rparr>,
           snd (Runtime_send lp (System (Exit
             \<lparr>from_pid = apid t, reason = fst (why t), metadata = snd (why t)\<rparr>)) R))
      | ExDone \<Rightarrow> (t, R))"

end
