(* ===== verification/Lifecycle.thy ===== *)
theory Lifecycle
  imports Runtime
begin

text \<open>
  The life of an actor in the interleaved runtime: calls of the public functions, the actors'
  receive loops, the exit protocols and the restart tasks, in any order. The invariant ties the
  identifier slab, the mailbox map and the tasks together; every supervisor of the runtime only
  ever does what \<open>sup_step\<close> allows, so the facts about reachable supervisors hold here.
\<close>

datatype rt_op =
    SpawnActor | SpawnActorBudget usize | SpawnHandler usize | SpawnObserved usize
  | SpawnPath usize string | SendTo pid Message | SendNamed string Message | StopActor pid
  | HotSwapActor pid usize | TakeObserved pid "Message \<Rightarrow> bool"
  | RegisterName string pid | UnregisterName string | RegisterPath string pid | UnregisterPath string
  | CreatePathSup string | RemovePathSup string | PathWatch string pid | WatchPath "string list" string
  | SuperviseChild pid closure RestartStrategy | PathSupervise string pid closure RestartStrategy
  | LinkPids pid pid | UnlinkPids pid pid
  | GilLimits usize usize | GilStrict bool | IoTimeout duration | MaxPayload usize | MaxNameLen usize
  | MonitorBackoff f64 duration usize

fun rt_exec :: "rt_op \<Rightarrow> Runtime \<Rightarrow> Runtime option" where
  "rt_exec SpawnActor R = map_option snd (Runtime_spawn_actor R)"
| "rt_exec (SpawnActorBudget n) R = map_option snd (Runtime_spawn_actor_with_budget n R)"
| "rt_exec (SpawnHandler n) R = map_option snd (Runtime_spawn_handler_with_budget n R)"
| "rt_exec (SpawnObserved n) R = map_option snd (Runtime_spawn_observed_handler n R)"
| "rt_exec (SpawnPath n path) R = map_option snd (Runtime_spawn_with_path_observed n path R)"
| "rt_exec (SendTo p m) R = Some (snd (Runtime_send p m R))"
| "rt_exec (SendNamed name m) R = Some (snd (Runtime_send_named name m R))"
| "rt_exec (StopActor p) R = Some (Runtime_stop p R)"
| "rt_exec (HotSwapActor p h) R = Some (Runtime_hot_swap p h R)"
| "rt_exec (TakeObserved p f) R = Some (snd (Runtime_take_observed_message_matching p f R))"
| "rt_exec (RegisterName name p) R = Some (Runtime_register name p R)"
| "rt_exec (UnregisterName name) R = Some (Runtime_unregister name R)"
| "rt_exec (RegisterPath path p) R = Some (Runtime_register_path path p R)"
| "rt_exec (UnregisterPath path) R = Some (Runtime_unregister_path path R)"
| "rt_exec (CreatePathSup path) R = Some (Runtime_create_path_supervisor path R)"
| "rt_exec (RemovePathSup path) R = Some (Runtime_remove_path_supervisor path R)"
| "rt_exec (PathWatch path p) R = Some (Runtime_path_supervisor_watch path p R)"
| "rt_exec (WatchPath ks pre) R = Some (Runtime_watch_path ks pre R)"
| "rt_exec (SuperviseChild p f st) R = Some (Runtime_supervise p f st R)"
| "rt_exec (PathSupervise path p f st) R = Some (Runtime_path_supervise_with_factory path p f st R)"
| "rt_exec (LinkPids p q) R = Some (Runtime_link p q R)"
| "rt_exec (UnlinkPids p q) R = Some (Runtime_unlink p q R)"
| "rt_exec (GilLimits m n) R = Some (Runtime_set_release_gil_limits m n R)"
| "rt_exec (GilStrict b) R = Some (Runtime_set_release_gil_strict b R)"
| "rt_exec (IoTimeout d) R = Some (Runtime_set_network_io_timeout d R)"
| "rt_exec (MaxPayload n) R = Some (Runtime_set_network_max_payload n R)"
| "rt_exec (MaxNameLen n) R = Some (Runtime_set_network_max_name_len n R)"
| "rt_exec (MonitorBackoff f d n) R = Some (Runtime_set_monitor_backoff f d n R)"

fun spawns :: "rt_op \<Rightarrow> bool" where
  "spawns SpawnActor = True"
| "spawns (SpawnActorBudget _) = True"
| "spawns (SpawnHandler _) = True"
| "spawns (SpawnObserved _) = True"
| "spawns (SpawnPath _ _) = True"
| "spawns _ = False"

text \<open>What the body of \<^verbatim>\<open>spawn_actor\<close> may do with the receiver it is given.\<close>

inductive receiver_use :: "mailbox \<Rightarrow> mailbox \<Rightarrow> bool" where
  recv: "receiver_use mb (snd (MailboxReceiver_recv mb))"
| try_recv: "receiver_use mb (snd (MailboxReceiver_try_recv mb))"
| selective_recv: "receiver_use mb (snd (MailboxReceiver_selective_recv f mb))"

text \<open>
  One step. A spawn needs room in the slab (fewer than \<open>2 ^ 32\<close> live slots, the range of the index
  half of an identifier). A handler or observed body ends by itself only when its loop does; it can
  panic or be cancelled at any point. \<open>notify\<close> is the exit that the task of \<^verbatim>\<open>monitor_remote\<close> reports to
  the global supervisor after it has stopped an identifier.
\<close>

inductive rt_step :: "Runtime \<Rightarrow> Runtime \<Rightarrow> bool" where
  api: "(spawns x \<longrightarrow> slab_room (slab R)) \<Longrightarrow> rt_exec x R = Some R' \<Longrightarrow> rt_step R R'"
| poll: "actors R = us @ t # vs \<Longrightarrow> pc t = Running \<Longrightarrow> body t \<noteq> FreeBody \<Longrightarrow>
     body_poll t R = (t', R') \<Longrightarrow> rt_step R (R'\<lparr>actors := us @ t' # vs\<rparr>)"
| receive: "t \<in> set (actors R) \<Longrightarrow> pc t = Running \<Longrightarrow> body t = FreeBody \<Longrightarrow>
     receiver_use (boxes R (abox t)) mb \<Longrightarrow> rt_step R (R\<lparr>boxes := (boxes R)(abox t := mb)\<rparr>)"
| finish: "actors R = us @ t # vs \<Longrightarrow> pc t = Running \<Longrightarrow> body t = FreeBody \<or> res \<noteq> JoinOk \<Longrightarrow>
     finish_body res t R = (t', R') \<Longrightarrow> rt_step R (R'\<lparr>actors := us @ t' # vs\<rparr>)"
| exit: "actors R = us @ t # vs \<Longrightarrow> pc t \<noteq> Running \<Longrightarrow> iter_order (path_supervisors R) ps \<Longrightarrow>
     \<forall>a. iter_order (children (sup (sups R a))) (ord a) \<Longrightarrow>
     exit_step ord ps t R = (t', R') \<Longrightarrow> rt_step R (R'\<lparr>actors := us @ t' # vs\<rparr>)"
| restart: "tasks (sups R a) = us @ u # vs \<Longrightarrow> restart_attempt r u (sup (sups R a)) = (w, s) \<Longrightarrow>
     rt_step R (R\<lparr>sups := (sups R)(a := \<lparr>sup = s, tasks = us @ (case w of None \<Rightarrow> [] | Some u' \<Rightarrow> [u']) @ vs\<rparr>)\<rparr>)"
| notify: "iter_order (children (sup (sups R 0))) ks \<Longrightarrow> rt_step R (sup_notify ks 0 p R)"

inductive_cases rt_stepE: "rt_step R R'"

lemma rt_step_call: "slab_room (slab R) \<or> \<not> spawns x \<Longrightarrow> rt_exec x R = Some R' \<Longrightarrow> rt_step R R'"
  by (auto intro: rt_step.api)

inductive rt_reachable :: "Runtime \<Rightarrow> bool" where
  start: "rt_reachable Runtime_new"
| step: "rt_reachable R \<Longrightarrow> rt_step R R' \<Longrightarrow> rt_reachable R'"

section \<open>The invariant\<close>

text \<open>A task holds its identifier until it deallocates it, and owns a map entry until it removes it.\<close>

definition holds_pid :: "actor \<Rightarrow> bool" where
  "holds_pid t \<longleftrightarrow> (case pc t of ExLinks \<Rightarrow> False | ExSend _ \<Rightarrow> False | ExDone \<Rightarrow> False | _ \<Rightarrow> True)"

definition has_entry :: "actor \<Rightarrow> bool" where
  "has_entry t \<longleftrightarrow> pc t = Running \<or> pc t = ExRemove"

definition pids_ok :: "SlabAllocator \<Rightarrow> actor list \<Rightarrow> bool" where
  "pids_ok sl ts \<longleftrightarrow> slab_inv sl \<and> distinct (map apid (filter holds_pid ts))
     \<and> {p. SlabAllocator_is_valid sl p} = apid ` set (filter holds_pid ts)"

definition addrs_ok :: "addr \<Rightarrow> actor list \<Rightarrow> bool" where
  "addrs_ok n ts \<longleftrightarrow> distinct (map abox ts) \<and> (\<forall>t\<in>set ts. abox t < n)"

definition entries_ok :: "(pid \<rightharpoonup> addr) \<Rightarrow> actor list \<Rightarrow> bool" where
  "entries_ok m ts \<longleftrightarrow> (\<forall>p a. m p = Some a \<longrightarrow> (\<exists>t\<in>set ts. has_entry t \<and> apid t = p \<and> abox t = a))"

definition ends_ok :: "(pid \<rightharpoonup> addr) \<Rightarrow> (addr \<Rightarrow> mailbox) \<Rightarrow> actor list \<Rightarrow> bool" where
  "ends_ok m b ts \<longleftrightarrow> (\<forall>a. mail_wf (b a))
     \<and> (\<forall>t\<in>set ts. (tx_alive (sys_ch (b (abox t))) \<longleftrightarrow> m (apid t) = Some (abox t))
          \<and> (rx_alive (sys_ch (b (abox t))) \<longleftrightarrow> pc t = Running))"

definition rt_inv :: "Runtime \<Rightarrow> bool" where
  "rt_inv R \<longleftrightarrow> pids_ok (slab R) (actors R) \<and> addrs_ok (next_addr R) (actors R)
     \<and> entries_ok (mailboxes R) (actors R) \<and> ends_ok (mailboxes R) (boxes R) (actors R)"

lemma holds_pid_pc [simp]:
  "pc t = Running \<Longrightarrow> holds_pid t" "pc t = ExRemove \<Longrightarrow> holds_pid t" "pc t = ExNotify \<Longrightarrow> holds_pid t"
  "pc t = ExPaths ks \<Longrightarrow> holds_pid t" "pc t = ExDeallocate \<Longrightarrow> holds_pid t"
  "pc t = ExLinks \<Longrightarrow> \<not> holds_pid t" "pc t = ExSend ps \<Longrightarrow> \<not> holds_pid t" "pc t = ExDone \<Longrightarrow> \<not> holds_pid t"
  by (simp_all add: holds_pid_def)

lemma has_entry_holds: "has_entry t \<Longrightarrow> holds_pid t"
  by (auto simp: has_entry_def)

text \<open>Two tasks that hold the same identifier are one.\<close>

lemma holder_unique:
  assumes "pids_ok sl ts" and "t \<in> set ts" "u \<in> set ts" and "holds_pid t" "holds_pid u" and "apid t = apid u"
  shows "t = u"
  using assms by (auto simp: pids_ok_def distinct_map inj_on_def)

lemma box_unique:
  assumes "addrs_ok n ts" and "t \<in> set ts" "u \<in> set ts" and "abox t = abox u"
  shows "t = u"
  using assms by (auto simp: addrs_ok_def distinct_map inj_on_def)

section \<open>Preservation, field by field\<close>

text \<open>A task replaced by one that has the same identifier and mailbox.\<close>

lemma pids_ok_replace:
  assumes "pids_ok sl (us @ t # vs)" and "apid t' = apid t" and "holds_pid t' = holds_pid t"
  shows "pids_ok sl (us @ t' # vs)"
proof -
  have "map apid (filter holds_pid (us @ t' # vs)) = map apid (filter holds_pid (us @ t # vs))"
    using assms(2,3) by simp
  with assms(1) show ?thesis unfolding pids_ok_def set_map [symmetric] by metis
qed

lemma addrs_ok_replace:
  "addrs_ok n (us @ t # vs) \<Longrightarrow> abox t' = abox t \<Longrightarrow> addrs_ok n (us @ t' # vs)"
  by (auto simp: addrs_ok_def)

lemma entries_ok_replace:
  assumes "entries_ok m (us @ t # vs)" and "apid t' = apid t" "abox t' = abox t"
    and "has_entry t \<Longrightarrow> has_entry t' \<or> m (apid t) \<noteq> Some (abox t)"
  shows "entries_ok m (us @ t' # vs)"
  unfolding entries_ok_def
proof (intro allI impI)
  fix p a assume e: "m p = Some a"
  with assms(1) obtain u where u: "u \<in> set (us @ t # vs)" "has_entry u" "apid u = p" "abox u = a"
    unfolding entries_ok_def by blast
  show "\<exists>t\<in>set (us @ t' # vs). has_entry t \<and> apid t = p \<and> abox t = a"
  proof (cases "u = t")
    case True
    with u e assms(2-4) have "has_entry t' \<and> apid t' = p \<and> abox t' = a" by auto
    then show ?thesis by auto
  next
    case False
    with u have "u \<in> set (us @ t' # vs)" by auto
    with u show ?thesis by blast
  qed
qed

lemma ends_ok_replace:
  assumes "ends_ok m b (us @ t # vs)" and "apid t' = apid t" "abox t' = abox t"
    and "pc t' = Running \<longleftrightarrow> pc t = Running"
  shows "ends_ok m b (us @ t' # vs)"
  using assms by (auto simp: ends_ok_def)

text \<open>A mailbox changed in place, with the ends it had.\<close>

lemma ends_ok_box:
  assumes "ends_ok m b ts" and "mail_wf mb" and "tx_alive (sys_ch mb) = tx_alive (sys_ch (b a))"
    and "rx_alive (sys_ch mb) = rx_alive (sys_ch (b a))"
  shows "ends_ok m (b(a := mb)) ts"
  using assms by (auto simp: ends_ok_def)

text \<open>The entry of an identifier removed, and its mailbox told.\<close>

lemma ends_ok_remove:
  assumes "ends_ok m b ts" and "m p = Some a" and "\<And>t. t \<in> set ts \<Longrightarrow> abox t = a \<Longrightarrow> apid t = p"
  shows "ends_ok (m(p := None)) (b(a := drop_sender (b a))) ts"
  using assms drop_ends_wf [of "b a"]
  by (auto simp: ends_ok_def drop_sender_def chan_drop_tx_def)

text \<open>The whole invariant under the operations the steps are made of.\<close>

lemma rt_inv_core:
  assumes "rt_inv R" and "slab R' = slab R" "mailboxes R' = mailboxes R" "boxes R' = boxes R"
    "next_addr R' = next_addr R" "actors R' = actors R"
  shows "rt_inv R'"
  using assms by (simp add: rt_inv_def)

lemma rt_inv_box:
  assumes "rt_inv R" and "mail_wf mb" and "same_ends (boxes R a) mb"
  shows "rt_inv (R\<lparr>boxes := (boxes R)(a := mb)\<rparr>)"
  using assms by (auto simp: rt_inv_def same_ends_def intro: ends_ok_box)

lemma rt_inv_wf: "rt_inv R \<Longrightarrow> mail_wf (boxes R a)"
  by (simp add: rt_inv_def ends_ok_def)

lemma rt_inv_entry:
  assumes "rt_inv R" and "mailboxes R p = Some a"
  obtains t where "t \<in> set (actors R)" "has_entry t" "apid t = p" "abox t = a"
  using assms unfolding rt_inv_def entries_ok_def by blast

lemma rt_inv_remove_mailbox:
  assumes inv: "rt_inv R"
  shows "rt_inv (remove_mailbox p R)"
proof (cases "mailboxes R p")
  case None
  with inv show ?thesis by (simp add: remove_mailbox_def)
next
  case (Some a)
  from rt_inv_entry [OF inv Some] obtain t where t: "t \<in> set (actors R)" "apid t = p" "abox t = a" .
  have "apid u = p" if "u \<in> set (actors R)" "abox u = a" for u
    using box_unique [of "next_addr R" "actors R" u t] inv t that by (simp add: rt_inv_def)
  with inv Some have "ends_ok ((mailboxes R)(p := None)) ((boxes R)(a := drop_sender (boxes R a))) (actors R)"
    by (intro ends_ok_remove) (auto simp: rt_inv_def)
  moreover have "entries_ok ((mailboxes R)(p := None)) (actors R)"
    using inv by (auto simp: rt_inv_def entries_ok_def)
  ultimately show ?thesis using inv Some by (simp add: rt_inv_def remove_mailbox_def)
qed

lemma rt_inv_send:
  assumes "rt_inv R"
  shows "rt_inv (snd (Runtime_send p m R))"
proof (cases "mailboxes R p")
  case None
  with assms show ?thesis by (simp add: Runtime_send_def)
next
  case (Some a)
  have "snd (Runtime_send p m R) = R\<lparr>boxes := (boxes R)(a := snd (MailboxSender_send m (boxes R a)))\<rparr>"
    using Some by (simp add: Runtime_send_def split: prod.split)
  with assms show ?thesis by (simp add: rt_inv_box send_wf send_ends rt_inv_wf)
qed

lemma rt_inv_hot_swap:
  assumes "rt_inv R"
  shows "rt_inv (Runtime_hot_swap p h R)"
proof (cases "mailboxes R p")
  case (Some a)
  have "snd (MailboxSender_send_system (HotSwap h) mb) = snd (MailboxSender_send (System (HotSwap h)) mb)" for mb
    by (simp add: send_system_send)
  with Some assms show ?thesis
    by (simp add: Runtime_hot_swap_def rt_inv_box send_wf send_ends rt_inv_wf)
qed (use assms in \<open>simp add: Runtime_hot_swap_def\<close>)

lemma remove_mailbox_simps [simp]:
  "slab (remove_mailbox p R) = slab R" "next_addr (remove_mailbox p R) = next_addr R"
  "actors (remove_mailbox p R) = actors R" "sups (remove_mailbox p R) = sups R"
  "mailboxes (remove_mailbox p R) = (mailboxes R)(p := None)"
  "path_supervisors (remove_mailbox p R) = path_supervisors R"
  by (auto simp: remove_mailbox_def split: option.split)

lemma not_valid_no_entry:
  assumes "rt_inv R" and "\<not> SlabAllocator_is_valid (slab R) p"
  shows "mailboxes R p = None"
proof (rule ccontr)
  assume "mailboxes R p \<noteq> None"
  then obtain a where "mailboxes R p = Some a" by blast
  from rt_inv_entry [OF assms(1) this] obtain t where t: "t \<in> set (actors R)" "has_entry t" "apid t = p" .
  then have "p \<in> apid ` set (filter holds_pid (actors R))" using has_entry_holds by auto
  with assms show False by (auto simp: rt_inv_def pids_ok_def)
qed

text \<open>A spawn written out: the identifier is new to the map, so no sender is displaced.\<close>

lemma spawn_task_spec:
  assumes inv: "rt_inv R" and room: "slab_room (slab R)" and sp: "spawn_task b R = Some (p, R')"
  obtains sl where "SlabAllocator_allocate (slab R) = Some (p, sl)"
    and "R' = R\<lparr>slab := sl, boxes := (boxes R)(next_addr R := channel), next_addr := Suc (next_addr R),
      mailboxes := (mailboxes R)(p \<mapsto> next_addr R),
      actors := actors R @ [\<lparr>apid = p, abox = next_addr R, body = b, pc = Running, why = (Normal, None)\<rparr>]\<rparr>"
proof -
  from sp obtain sl where al: "SlabAllocator_allocate (slab R) = Some (p, sl)"
    by (auto simp: spawn_task_def Let_def split: option.splits)
  have "\<not> SlabAllocator_is_valid (slab R) p"
    using slab.alloc_fresh [OF _ room al] inv by (simp add: rt_inv_def pids_ok_def)
  from not_valid_no_entry [OF inv this] have "mailboxes R p = None" .
  then show thesis using sp al
    by (intro that [OF al]) (simp add: spawn_task_def Let_def remove_mailbox_def)
qed

lemma rt_inv_spawn:
  assumes inv: "rt_inv R" and room: "slab_room (slab R)" and sp: "spawn_task b R = Some (p, R')"
  shows "rt_inv R'"
proof -
  let ?t = "\<lparr>apid = p, abox = next_addr R, body = b, pc = Running, why = (Normal, None)\<rparr>"
  from spawn_task_spec [OF assms] obtain sl where al: "SlabAllocator_allocate (slab R) = Some (p, sl)"
    and R': "R' = R\<lparr>slab := sl, boxes := (boxes R)(next_addr R := channel),
      next_addr := Suc (next_addr R), mailboxes := (mailboxes R)(p \<mapsto> next_addr R), actors := actors R @ [?t]\<rparr>" .
  have si: "slab_inv (slab R)" and live: "{q. SlabAllocator_is_valid (slab R) q} = apid ` set (filter holds_pid (actors R))"
    using inv by (auto simp: rt_inv_def pids_ok_def)
  have fresh: "p \<notin> apid ` set (filter holds_pid (actors R))"
    using slab.alloc_fresh [OF si room al] live by auto
  have "pids_ok sl (actors R @ [?t])"
    using slab.alloc_inv [OF si room al] slab.live_alloc [OF si room al] live fresh inv
    by (simp add: pids_ok_def rt_inv_def)
  moreover have lt: "abox u < next_addr R" if "u \<in> set (actors R)" for u
    using inv that by (simp add: rt_inv_def addrs_ok_def)
  then have "addrs_ok (Suc (next_addr R)) (actors R @ [?t])"
    using inv by (fastforce simp: rt_inv_def addrs_ok_def)
  moreover have "entries_ok ((mailboxes R)(p \<mapsto> next_addr R)) (actors R @ [?t])"
    using inv by (auto simp: rt_inv_def entries_ok_def has_entry_def)
  moreover have "ends_ok ((mailboxes R)(p \<mapsto> next_addr R)) ((boxes R)(next_addr R := channel)) (actors R @ [?t])"
    unfolding ends_ok_def
  proof (intro conjI allI ballI)
    fix a show "mail_wf (((boxes R)(next_addr R := channel)) a)"
      using inv channel_wf by (simp add: rt_inv_wf)
  next
    fix u assume "u \<in> set (actors R @ [?t])"
    moreover have "mailboxes R p = None"
      using slab.alloc_fresh [OF si room al] inv by (simp add: not_valid_no_entry)
    ultimately show "tx_alive (sys_ch (((boxes R)(next_addr R := channel)) (abox u)))
        \<longleftrightarrow> ((mailboxes R)(p \<mapsto> next_addr R)) (apid u) = Some (abox u)"
      "rx_alive (sys_ch (((boxes R)(next_addr R := channel)) (abox u))) \<longleftrightarrow> pc u = Running"
      using lt [of u] inv by (auto simp: rt_inv_def ends_ok_def channel_def chan_new_def)
  qed
  ultimately show ?thesis by (simp add: rt_inv_def R')
qed

lemma rt_inv_replace:
  assumes "rt_inv R" and "actors R = us @ t # vs" and "apid t' = apid t" "abox t' = abox t"
    and "pc t' = Running \<longleftrightarrow> pc t = Running" and "holds_pid t' = holds_pid t"
    and "has_entry t \<Longrightarrow> has_entry t' \<or> mailboxes R (apid t) = None"
  shows "rt_inv (R\<lparr>actors := us @ t' # vs\<rparr>)"
  using assms
  by (auto simp: rt_inv_def intro: pids_ok_replace addrs_ok_replace entries_ok_replace ends_ok_replace)

lemma rt_inv_finish:
  assumes inv: "rt_inv R" and ts: "actors R = us @ t # vs" and run: "pc t = Running"
    and f: "finish_body res t R = (t', R')"
  shows "rt_inv (R'\<lparr>actors := us @ t' # vs\<rparr>)"
proof -
  let ?b = "(boxes R)(abox t := drop_receiver (boxes R (abox t)))"
  from f have t': "t' = t\<lparr>pc := ExRemove, why := exit_reason res\<rparr>" and R': "R' = R\<lparr>boxes := ?b\<rparr>"
    by (auto simp: finish_body_def)
  have other: "abox u \<noteq> abox t" if "u \<in> set us \<union> set vs" for u
    using inv that by (auto simp: rt_inv_def addrs_ok_def ts dest: not_in_imageD)
  have "ends_ok (mailboxes R) ?b (us @ t' # vs)"
    using inv other drop_ends_wf [OF rt_inv_wf [OF inv]] run
    by (auto simp: rt_inv_def ends_ok_def ts t' drop_receiver_def chan_drop_rx_def)
  moreover have "pids_ok (slab R) (us @ t' # vs)" "addrs_ok (next_addr R) (us @ t' # vs)"
    "entries_ok (mailboxes R) (us @ t' # vs)"
    using inv run
    by (auto simp: rt_inv_def ts t' has_entry_def intro: pids_ok_replace addrs_ok_replace entries_ok_replace)
  ultimately show ?thesis by (simp add: rt_inv_def R')
qed

lemma body_poll_cases:
  assumes "body_poll t R = (t', R')"
  obtains (finished) R1 where "R1 = R\<lparr>boxes := (boxes R)(abox t := snd (MailboxReceiver_recv (boxes R (abox t))))\<rparr>"
      "finish_body JoinOk t R1 = (t', R')"
  | (continues) v where "R' = R\<lparr>boxes := (boxes R)(abox t := snd (MailboxReceiver_recv (boxes R (abox t)))), vecs := v\<rparr>"
      "apid t' = apid t" "abox t' = abox t" "pc t' = pc t"
proof -
  obtain r mb where r: "MailboxReceiver_recv (boxes R (abox t)) = (r, mb)" by fastforce
  show thesis
  proof (cases r)
    case Pending
    with r assms have "R' = R\<lparr>boxes := (boxes R)(abox t := mb), vecs := vecs R\<rparr>" "t' = t"
      by (auto simp: body_poll_def)
    with r show thesis by (intro continues [of "vecs R"]) auto
  next
    case (Ready m)
    show thesis
    proof (cases m)
      case None
      with Ready r assms show thesis by (intro finished) (auto simp: body_poll_def)
    next
      case (Some msg)
      define v where "v = (if body t = ObservedBody then (vecs R)(abox t := vecs R (abox t) @ [msg]) else vecs R)"
      have "R' = R\<lparr>boxes := (boxes R)(abox t := mb), vecs := v\<rparr> \<and> apid t' = apid t \<and> abox t' = abox t \<and> pc t' = pc t"
        using assms unfolding body_poll_def r Ready Some v_def by (cases "body t") force+
      with r show thesis by (intro continues [of v]) auto
    qed
  qed
qed

lemma rt_inv_poll:
  assumes inv: "rt_inv R" and ts: "actors R = us @ t # vs" and run: "pc t = Running"
    and p: "body_poll t R = (t', R')"
  shows "rt_inv (R'\<lparr>actors := us @ t' # vs\<rparr>)"
proof -
  let ?R = "R\<lparr>boxes := (boxes R)(abox t := snd (MailboxReceiver_recv (boxes R (abox t))))\<rparr>"
  have inv1: "rt_inv ?R" using inv by (simp add: rt_inv_box rt_inv_wf recv_wf recv_ends)
  from p show ?thesis
  proof (cases rule: body_poll_cases)
    case (finished R1)
    with rt_inv_finish [of ?R us t vs JoinOk t' R'] inv1 ts run show ?thesis by simp
  next
    case (continues v)
    have "rt_inv (?R\<lparr>actors := us @ t' # vs\<rparr>)"
      by (rule rt_inv_replace [OF inv1, of us t vs]) (use ts continues run in \<open>auto simp: has_entry_def\<close>)
    then show ?thesis by (rule rt_inv_core) (simp_all add: continues(1))
  qed
qed

lemma sup_fields [simp]:
  "slab (sup_call a x R) = slab R" "mailboxes (sup_call a x R) = mailboxes R"
  "boxes (sup_call a x R) = boxes R" "next_addr (sup_call a x R) = next_addr R"
  "actors (sup_call a x R) = actors R"
  "slab (sup_notify ks a p R) = slab R" "mailboxes (sup_notify ks a p R) = mailboxes R"
  "boxes (sup_notify ks a p R) = boxes R" "next_addr (sup_notify ks a p R) = next_addr R"
  "actors (sup_notify ks a p R) = actors R"
  by (simp_all add: sup_call_def sup_notify_def split: prod.split)

lemma rt_inv_sup [simp]: "rt_inv R \<Longrightarrow> rt_inv (sup_call a x R)" "rt_inv R \<Longrightarrow> rt_inv (sup_notify ks a p R)"
  by (rule rt_inv_core; simp)+

lemma send_actors [simp]: "actors (snd (Runtime_send p m R)) = actors R" "sups (snd (Runtime_send p m R)) = sups R"
  "mailboxes (snd (Runtime_send p m R)) = mailboxes R"
  by (simp_all add: Runtime_send_def split: option.split prod.split)

lemma rt_inv_deallocate:
  assumes inv: "rt_inv R" and ts: "actors R = us @ t # vs" and pc: "pc t = ExDeallocate"
  shows "rt_inv (R\<lparr>slab := snd (SlabAllocator_deallocate (apid t) (slab R)), actors := us @ t\<lparr>pc := ExLinks\<rparr> # vs\<rparr>)"
proof -
  let ?t = "t\<lparr>pc := ExLinks\<rparr>"
  from inv have si: "slab_inv (slab R)" and d: "distinct (map apid (filter holds_pid (us @ t # vs)))"
    and live: "{q. SlabAllocator_is_valid (slab R) q} = apid ` set (filter holds_pid (us @ t # vs))"
    by (auto simp: rt_inv_def pids_ok_def ts)
  have eq: "apid ` set (filter holds_pid (us @ ?t # vs)) = apid ` set (filter holds_pid (us @ t # vs)) - {apid t}"
    using d pc by (auto dest: not_in_imageD)
  have "{q. SlabAllocator_is_valid (snd (SlabAllocator_deallocate (apid t) (slab R))) q}
      = apid ` set (filter holds_pid (us @ ?t # vs))"
    unfolding slab.live_dealloc [OF si] live eq ..
  moreover have "distinct (map apid (filter holds_pid (us @ ?t # vs)))" using d pc by simp
  ultimately have "pids_ok (snd (SlabAllocator_deallocate (apid t) (slab R))) (us @ ?t # vs)"
    unfolding pids_ok_def using slab.dealloc_inv [OF si] by blast
  moreover have "addrs_ok (next_addr R) (us @ ?t # vs)" "entries_ok (mailboxes R) (us @ ?t # vs)"
    "ends_ok (mailboxes R) (boxes R) (us @ ?t # vs)"
    using inv pc by (auto simp: rt_inv_def ts has_entry_def
        intro: addrs_ok_replace entries_ok_replace ends_ok_replace)
  ultimately show ?thesis by (simp add: rt_inv_def)
qed

lemma rt_inv_exit:
  assumes inv: "rt_inv R" and ts: "actors R = us @ t # vs" and e: "exit_step ord ps t R = (t', R')"
  shows "rt_inv (R'\<lparr>actors := us @ t' # vs\<rparr>)"
proof -
  have keep: "rt_inv (R1\<lparr>actors := us @ t\<lparr>pc := c\<rparr> # vs\<rparr>)"
    if "rt_inv R1" "actors R1 = us @ t # vs" "c \<noteq> Running" "pc t \<noteq> Running"
      "holds_pid (t\<lparr>pc := c\<rparr>) = holds_pid t" "pc t \<noteq> ExRemove \<or> mailboxes R1 (apid t) = None" for R1 c
    by (rule rt_inv_replace [OF that(1,2)]) (use that in \<open>auto simp: has_entry_def\<close>)
  show ?thesis
  proof (cases "pc t")
    case Running
    with e inv ts have "R' = R" "t' = t" by (auto simp: exit_step_def)
    with inv ts show ?thesis by (auto intro: rt_inv_core)
  next
    case ExRemove
    with e keep [of "remove_mailbox (apid t) R" ExNotify] inv ts show ?thesis
      by (auto simp: exit_step_def rt_inv_remove_mailbox holds_pid_def)
  next
    case ExNotify
    with e keep [of "sup_notify (ord 0) 0 (apid t) R" "ExPaths ps"] inv ts show ?thesis
      by (auto simp: exit_step_def holds_pid_def)
  next
    case (ExPaths ks)
    show ?thesis
    proof (cases ks)
      case Nil
      with ExPaths e keep [of R ExDeallocate] inv ts show ?thesis by (auto simp: exit_step_def holds_pid_def)
    next
      case (Cons k ks')
      define R1 where "R1 = (case path_supervisors R k of None \<Rightarrow> R
         | Some a \<Rightarrow> if Supervisor_contains_child (sup (sups R a)) (apid t) then sup_notify (ord a) a (apid t) R else R)"
      have "rt_inv R1" "actors R1 = actors R" using inv by (auto simp: R1_def split: option.split)
      with keep [of R1 "ExPaths ks'"] ExPaths Cons e ts show ?thesis
        by (auto simp: exit_step_def holds_pid_def R1_def [symmetric])
    qed
  next
    case ExDeallocate
    with e rt_inv_deallocate [OF inv ts] show ?thesis by (auto simp: exit_step_def)
  next
    case ExLinks
    with e keep [of "sup_call 0 (TakeLinks (apid t)) R"] inv ts show ?thesis
      by (auto simp: exit_step_def holds_pid_def)
  next
    case (ExSend qs)
    with e keep [of R ExDone] keep [OF rt_inv_send [OF inv]] inv ts show ?thesis
      by (cases qs) (auto simp: exit_step_def holds_pid_def)
  next
    case ExDone
    with e inv ts have "R' = R" "t' = t" by (auto simp: exit_step_def)
    with inv ts show ?thesis by (auto intro: rt_inv_core)
  qed
qed

section \<open>Calls of the public functions\<close>

lemma path_entry_core:
  "path_entry path R = (a, R') \<Longrightarrow> slab R' = slab R \<and> mailboxes R' = mailboxes R \<and> boxes R' = boxes R
     \<and> next_addr R' = next_addr R \<and> actors R' = actors R"
  by (auto simp: path_entry_def split: option.splits)

lemma watch_path_core:
  "rt_inv R \<Longrightarrow> rt_inv (fold (\<lambda>(_, p). sup_call 0 (Watch p)) es R)"
  by (induction es arbitrary: R) auto

lemma send_named_cases:
  "snd (Runtime_send_named name m R) = R \<or> (\<exists>p. snd (Runtime_send_named name m R) = snd (Runtime_send p m R))"
proof (cases "Runtime_resolve R name")
  case (Some p)
  then have "snd (Runtime_send_named name m R) = snd (Runtime_send p m R)"
    by (simp add: Runtime_send_named_def split: prod.split sum.split)
  then show ?thesis by blast
qed (simp add: Runtime_send_named_def)

lemma take_observed_core:
  assumes "rt_inv R"
  shows "rt_inv (snd (Runtime_take_observed_message_matching p f R))"
  by (rule rt_inv_core [OF assms])
    (simp_all add: Runtime_take_observed_message_matching_def split: option.split)

lemma spawn_observed_task:
  assumes "Runtime_spawn_observed_handler n R = Some (p, R')"
  obtains R1 where "spawn_task ObservedBody R = Some (p, R1)"
    and "R' = R1\<lparr>vecs := (vecs R1)(next_addr R := []), observers := (observers R1)(p \<mapsto> next_addr R)\<rparr>"
  using assms by (auto simp: Runtime_spawn_observed_handler_def Let_def split: option.splits)

lemma rt_inv_spawn_observed:
  assumes "rt_inv R" and "slab_room (slab R)" and "Runtime_spawn_observed_handler n R = Some (p, R')"
  shows "rt_inv R'"
proof -
  from assms(3) obtain R1 where 1: "spawn_task ObservedBody R = Some (p, R1)"
    and R': "R' = R1\<lparr>vecs := (vecs R1)(next_addr R := []), observers := (observers R1)(p \<mapsto> next_addr R)\<rparr>"
    by (rule spawn_observed_task)
  from rt_inv_spawn [OF assms(1,2) 1] show ?thesis by (rule rt_inv_core) (simp_all add: R')
qed

lemmas frame_op_defs = Runtime_register_def Runtime_unregister_def Runtime_register_path_def
  Runtime_unregister_path_def Runtime_remove_path_supervisor_def Runtime_set_release_gil_limits_def
  Runtime_set_release_gil_strict_def Runtime_set_network_io_timeout_def
  Runtime_set_network_max_payload_def Runtime_set_network_max_name_len_def
  Runtime_set_monitor_backoff_def

lemma rt_inv_frame_ops:
  assumes "rt_inv R"
  shows "rt_inv (Runtime_register name p R)" "rt_inv (Runtime_unregister name R)"
    "rt_inv (Runtime_register_path name p R)" "rt_inv (Runtime_unregister_path name R)"
    "rt_inv (Runtime_remove_path_supervisor name R)" "rt_inv (Runtime_set_release_gil_limits m n R)"
    "rt_inv (Runtime_set_release_gil_strict b R)" "rt_inv (Runtime_set_network_io_timeout d R)"
    "rt_inv (Runtime_set_network_max_payload n R)" "rt_inv (Runtime_set_network_max_name_len n R)"
    "rt_inv (Runtime_set_monitor_backoff f d n R)"
  by (rule rt_inv_core [OF assms]; simp add: frame_op_defs)+

lemmas call_op_defs = Runtime_spawn_actor_def Runtime_spawn_actor_with_budget_def
  Runtime_spawn_handler_with_budget_def Runtime_stop_def Runtime_supervise_def Runtime_link_def
  Runtime_unlink_def Runtime_path_supervisor_watch_def

lemma rt_inv_exec:
  assumes inv: "rt_inv R" and room: "spawns x \<longrightarrow> slab_room (slab R)" and x: "rt_exec x R = Some R'"
  shows "rt_inv R'"
proof -
  note spawned = rt_inv_spawn [OF inv] rt_inv_spawn_observed [OF inv]
  show ?thesis
  proof (cases x)
    case (SpawnPath n path)
    with x obtain p R1 where "Runtime_spawn_observed_handler n R = Some (p, R1)"
      and R': "R' = Runtime_register_path path p R1"
      by (auto simp: Runtime_spawn_with_path_observed_def split: option.splits)
    from rt_inv_spawn_observed [OF inv _ this(1)] SpawnPath room show ?thesis
      by (simp add: R' rt_inv_frame_ops)
  next
    case (SendNamed name m)
    with x inv send_named_cases [of name m R] show ?thesis using rt_inv_send [OF inv] by auto
  next
    case (CreatePathSup path)
    obtain a R1 where e: "path_entry path R = (a, R1)" by fastforce
    with x CreatePathSup have "R' = R1" by (simp add: Runtime_create_path_supervisor_def)
    with path_entry_core [OF e] show ?thesis by (intro rt_inv_core [OF inv]) simp_all
  next
    case (PathSupervise path p f st)
    obtain a R1 where e: "path_entry path R = (a, R1)" by fastforce
    with path_entry_core [OF e] have "rt_inv R1" by (intro rt_inv_core [OF inv]) auto
    with x PathSupervise e show ?thesis by (auto simp: Runtime_path_supervise_with_factory_def Let_def)
  next
    case (WatchPath ks pre)
    with x watch_path_core [OF inv] show ?thesis by (auto simp: Runtime_watch_path_def)
  qed (use x inv room spawned in \<open>auto simp: call_op_defs rt_inv_frame_ops rt_inv_send rt_inv_hot_swap
      rt_inv_remove_mailbox take_observed_core split: option.splits\<close>)
qed

lemma receiver_use_ok:
  "receiver_use mb mb' \<Longrightarrow> mail_wf mb \<Longrightarrow> mail_wf mb' \<and> same_ends mb mb'"
  by (induction rule: receiver_use.induct)
    (auto simp: recv_wf recv_ends try_recv_wf try_recv_ends selective_recv_wf selective_recv_ends)

lemma rt_step_inv: "rt_step R R' \<Longrightarrow> rt_inv R \<Longrightarrow> rt_inv R'"
proof (induction rule: rt_step.induct)
  case (api R x R')
  then show ?case by (simp add: rt_inv_exec)
next
  case (poll R us t vs t' R')
  then show ?case by (simp add: rt_inv_poll)
next
  case (receive t R mb)
  then show ?case using receiver_use_ok by (simp add: rt_inv_box rt_inv_wf)
next
  case (finish R us t vs res t' R')
  then show ?case by (simp add: rt_inv_finish)
next
  case (exit R us t vs ps ord t' R')
  then show ?case by (simp add: rt_inv_exit)
next
  case (restart R a us u vs r w s)
  show ?case by (rule rt_inv_core [OF restart(3)]) simp_all
next
  case (notify R ks p)
  then show ?case by simp
qed

lemma rt_reachable_inv: "rt_reachable R \<Longrightarrow> rt_inv R"
proof (induction rule: rt_reachable.induct)
  case start
  show ?case by (auto simp: rt_inv_def Runtime_new_def pids_ok_def addrs_ok_def entries_ok_def ends_ok_def
        channel_wf slab_inv_def SlabAllocator_new_def SlabAllocator_is_valid_def split: prod.splits)
qed (rule rt_step_inv)

section \<open>The supervisors of a running system\<close>

definition sups_ok :: "Runtime \<Rightarrow> bool" where
  "sups_ok R \<longleftrightarrow> (\<forall>a. sup_reachable (sups R a))"

lemma sups_ok_same: "sups_ok R \<Longrightarrow> sups R' = sups R \<Longrightarrow> sups_ok R'"
  by (simp add: sups_ok_def)

lemma sup_new_reachable: "sup_reachable sup_new"
  by (simp add: sup_new_def sup_reachable.start)

lemma sups_ok_call [simp]: "sups_ok R \<Longrightarrow> sups_ok (sup_call a x R)"
  using sup_reachable.step [OF _ sup_step.call] by (auto simp: sups_ok_def sup_call_def)

lemma sups_ok_notify:
  assumes "sups_ok R" and "iter_order (children (sup (sups R a))) ks"
  shows "sups_ok (sup_notify ks a p R)"
proof -
  obtain s ts where n: "Supervisor_notify_exit ks p (sup (sups R a)) = (s, ts)" by fastforce
  from assms(1) have "sup_reachable (sups R a)" by (simp add: sups_ok_def)
  from sup_reachable.step [OF this sup_step.notify [OF assms(2) n]] assms(1) n show ?thesis
    by (auto simp: sups_ok_def sup_notify_def)
qed

lemma sups_ok_watch: "sups_ok R \<Longrightarrow> sups_ok (fold (\<lambda>(_, p). sup_call 0 (Watch p)) es R)"
  by (induction es arbitrary: R) auto

lemma path_entry_sups: "sups_ok R \<Longrightarrow> path_entry path R = (a, R') \<Longrightarrow> sups_ok R'"
  by (auto simp: path_entry_def sups_ok_def sup_new_reachable split: option.splits)

lemma spawn_task_sups: "spawn_task b R = Some (p, R') \<Longrightarrow> sups R' = sups R"
  by (auto simp: spawn_task_def Let_def split: option.splits)

lemma spawn_observed_sups:
  "Runtime_spawn_observed_handler n R = Some (p, R') \<Longrightarrow> sups R' = sups R"
  "Runtime_spawn_with_path_observed n path R = Some (p, R') \<Longrightarrow> sups R' = sups R"
  by (auto simp: Runtime_spawn_with_path_observed_def Runtime_register_path_def
      split: option.splits elim!: spawn_observed_task dest: spawn_task_sups)

lemma sups_ok_frame:
  assumes "sups_ok R"
  shows "sups_ok (Runtime_register name p R)" "sups_ok (Runtime_unregister name R)"
    "sups_ok (Runtime_register_path name p R)" "sups_ok (Runtime_unregister_path name R)"
    "sups_ok (Runtime_remove_path_supervisor name R)" "sups_ok (Runtime_set_release_gil_limits m n R)"
    "sups_ok (Runtime_set_release_gil_strict b R)" "sups_ok (Runtime_set_network_io_timeout d R)"
    "sups_ok (Runtime_set_network_max_payload n R)" "sups_ok (Runtime_set_network_max_name_len n R)"
    "sups_ok (Runtime_set_monitor_backoff f d n R)" "sups_ok (Runtime_hot_swap q h R)"
    "sups_ok (snd (Runtime_take_observed_message_matching q g R))"
    "sups_ok (remove_mailbox q R)" "sups_ok (snd (Runtime_send q msg R))"
  by (rule sups_ok_same [OF assms]; simp add: frame_op_defs Runtime_hot_swap_def
      Runtime_take_observed_message_matching_def split: option.split)+

lemma sups_ok_exec:
  assumes ok: "sups_ok R" and x: "rt_exec x R = Some R'"
  shows "sups_ok R'"
proof (cases x)
  case (CreatePathSup path)
  with x path_entry_sups [OF ok, of path] show ?thesis
    by (auto simp: Runtime_create_path_supervisor_def prod_eq_iff)
next
  case (PathSupervise path p f st)
  obtain a R1 where e: "path_entry path R = (a, R1)" by fastforce
  with x PathSupervise path_entry_sups [OF ok e] show ?thesis
    by (auto simp: Runtime_path_supervise_with_factory_def Let_def)
next
  case (WatchPath ks pre)
  with x sups_ok_watch [OF ok] show ?thesis by (auto simp: Runtime_watch_path_def)
next
  case (SendNamed name m)
  with x ok send_named_cases [of name m R] show ?thesis by (auto intro: sups_ok_same)
qed (use x ok in \<open>auto simp: call_op_defs sups_ok_frame split: option.splits dest: spawn_task_sups
    spawn_observed_sups intro: sups_ok_same [OF ok]\<close>)

lemma exit_step_sups:
  assumes ok: "sups_ok R" and ord: "\<forall>a. iter_order (children (sup (sups R a))) (ord a)"
    and e: "exit_step ord ps t R = (t', R')"
  shows "sups_ok R'"
proof -
  have n: "sups_ok (sup_notify (ord a) a p R)" for a p using sups_ok_notify [OF ok] ord by blast
  have p: "sups_ok (case path_supervisors R k of None \<Rightarrow> R | Some a \<Rightarrow>
      if Supervisor_contains_child (sup (sups R a)) q then sup_notify (ord a) a q R else R)" for k q
    using ok n by (simp split: option.split)
  show ?thesis
    using e ok n p
    by (cases "pc t") (auto simp: exit_step_def sups_ok_frame split: list.splits intro: sups_ok_same [OF ok])
qed

lemma rt_step_sups: "rt_step R R' \<Longrightarrow> sups_ok R \<Longrightarrow> sups_ok R'"
proof (induction rule: rt_step.induct)
  case (api R x R')
  then show ?case by (simp add: sups_ok_exec)
next
  case (poll R us t vs t' R')
  have "sups R' = sups R"
    using poll(4) by (cases rule: body_poll_cases) (auto simp: finish_body_def)
  with poll(5) show ?case by (simp add: sups_ok_def)
next
  case (receive t R mb)
  then show ?case by (simp add: sups_ok_def)
next
  case (finish R us t vs res t' R')
  then show ?case by (auto simp: finish_body_def sups_ok_def)
next
  case (exit R us t vs ps ord t' R')
  from exit_step_sups [OF exit(6,4,5)] show ?case by (simp add: sups_ok_def)
next
  case (restart R a us u vs r w s)
  then have ra: "sup_reachable (sups R a)" by (simp add: sups_ok_def)
  have "sup_reachable \<lparr>sup = s, tasks = us @ (case w of None \<Rightarrow> [] | Some u' \<Rightarrow> [u']) @ vs\<rparr>"
    using sup_reachable.step [OF ra sup_step.retry [OF restart(1)]]
      sup_reachable.step [OF ra sup_step.finish [OF restart(1)]] restart(2)
    by (cases w) auto
  with restart(3) show ?case by (simp add: sups_ok_def)
next
  case (notify R ks p)
  then show ?case by (simp add: sups_ok_notify)
qed

lemma rt_reachable_sups: "rt_reachable R \<Longrightarrow> sup_reachable (sups R a)"
proof -
  assume "rt_reachable R"
  then have "sups_ok R"
  proof (induction rule: rt_reachable.induct)
    case start
    show ?case by (simp add: sups_ok_def Runtime_new_def sup_new_reachable)
  qed (rule rt_step_sups)
  then show ?thesis by (simp add: sups_ok_def)
qed

section \<open>The exit protocol run to its end\<close>

fun exit_phase :: "actor_pc \<Rightarrow> nat \<times> nat" where
  "exit_phase Running = (0, 0)"
| "exit_phase ExRemove = (6, 0)"
| "exit_phase ExNotify = (5, 0)"
| "exit_phase (ExPaths ks) = (4, length ks)"
| "exit_phase ExDeallocate = (3, 0)"
| "exit_phase ExLinks = (2, 0)"
| "exit_phase (ExSend qs) = (1, length qs)"
| "exit_phase ExDone = (0, 0)"

lemma exit_step_descends:
  assumes "exit_step ord ps t R = (t', R')" and "pc t \<noteq> Running" and "pc t \<noteq> ExDone"
  shows "(exit_phase (pc t'), exit_phase (pc t)) \<in> less_than <*lex*> less_than"
  using assms by (cases "pc t") (auto simp: exit_step_def split: list.splits)

function exit_loop :: "(addr \<Rightarrow> pid list) \<Rightarrow> string list \<Rightarrow> actor \<Rightarrow> Runtime \<Rightarrow> actor \<times> Runtime" where
  "exit_loop ord ps t R =
     (if pc t = Running \<or> pc t = ExDone then (t, R)
      else case exit_step ord ps t R of (t', R') \<Rightarrow> exit_loop ord ps t' R')"
  by pat_completeness auto
termination
  by (relation "inv_image (less_than <*lex*> less_than) (\<lambda>(ord, ps, t, R). exit_phase (pc t))")
    (auto simp del: in_lex_prod split: prod.split dest: exit_step_descends)

declare exit_loop.simps [simp del]

definition exit_message :: "actor \<Rightarrow> Message" where
  "exit_message t = System (Exit \<lparr>from_pid = apid t, reason = fst (why t), metadata = snd (why t)\<rparr>)"

definition send_all_to :: "pid list \<Rightarrow> Message \<Rightarrow> Runtime \<Rightarrow> Runtime" where
  "send_all_to qs m R = fold (\<lambda>q R. snd (Runtime_send q m R)) qs R"

lemma exit_loop_send:
  "pc t = ExSend qs \<Longrightarrow> exit_loop ord ps t R = (t\<lparr>pc := ExDone\<rparr>, send_all_to qs (exit_message t) R)"
proof (induction qs arbitrary: t R)
  case Nil
  then show ?case
    by (subst exit_loop.simps) (simp add: exit_step_def exit_loop.simps send_all_to_def)
next
  case (Cons q qs)
  then show ?case
    by (subst exit_loop.simps) (simp add: exit_step_def exit_message_def send_all_to_def)
qed

lemma exit_loop_deallocate:
  assumes "pc t = ExDeallocate"
  shows "exit_loop ord ps t R = (t\<lparr>pc := ExDone\<rparr>,
     send_all_to (peers_of (links (sup (sups R 0))) (apid t)) (exit_message t)
       (sup_call 0 (TakeLinks (apid t)) (R\<lparr>slab := snd (SlabAllocator_deallocate (apid t) (slab R))\<rparr>)))"
proof -
  have "exit_loop ord ps t R = exit_loop ord ps (t\<lparr>pc := ExLinks\<rparr>) (R\<lparr>slab := snd (SlabAllocator_deallocate (apid t) (slab R))\<rparr>)"
    using assms by (subst exit_loop.simps) (simp add: exit_step_def)
  also have "\<dots> = exit_loop ord ps (t\<lparr>pc := ExSend (peers_of (links (sup (sups R 0))) (apid t))\<rparr>)
      (sup_call 0 (TakeLinks (apid t)) (R\<lparr>slab := snd (SlabAllocator_deallocate (apid t) (slab R))\<rparr>))"
    by (subst exit_loop.simps) (simp add: exit_step_def linked_pids_forget)
  finally show ?thesis by (simp add: exit_loop_send exit_message_def)
qed

text \<open>What the notifications of the supervisors leave alone.\<close>

definition notify_frame :: "Runtime \<Rightarrow> Runtime \<Rightarrow> bool" where
  "notify_frame R R' \<longleftrightarrow> slab R' = slab R \<and> mailboxes R' = mailboxes R \<and> boxes R' = boxes R
     \<and> actors R' = actors R \<and> (\<forall>a. links (sup (sups R' a)) = links (sup (sups R a)))"

lemma notify_frame_refl: "notify_frame R R"
  by (simp add: notify_frame_def)

lemma notify_frame_trans: "notify_frame R R1 \<Longrightarrow> notify_frame R1 R2 \<Longrightarrow> notify_frame R R2"
  by (simp add: notify_frame_def)

lemma notify_frame_notify: "notify_frame R (sup_notify ks a p R)"
proof -
  obtain s ts where "Supervisor_notify_exit ks p (sup (sups R a)) = (s, ts)" by fastforce
  with notify_exit_links [OF this] show ?thesis by (simp add: notify_frame_def sup_notify_def)
qed

lemma exit_loop_paths:
  assumes "pc t = ExPaths ks"
  obtains R1 where "notify_frame R R1"
    and "exit_loop ord ps t R = exit_loop ord ps (t\<lparr>pc := ExDeallocate\<rparr>) R1"
  using assms
proof (induction ks arbitrary: t R thesis)
  case Nil
  from Nil.prems(2) have "exit_loop ord ps t R = exit_loop ord ps (t\<lparr>pc := ExDeallocate\<rparr>) R"
    by (subst exit_loop.simps) (simp add: exit_step_def)
  with Nil.prems(1) [of R] show ?case by (simp add: notify_frame_refl)
next
  case (Cons k ks)
  define R1 where "R1 = (case path_supervisors R k of None \<Rightarrow> R
     | Some a \<Rightarrow> if Supervisor_contains_child (sup (sups R a)) (apid t) then sup_notify (ord a) a (apid t) R else R)"
  have f: "notify_frame R R1"
    by (simp add: R1_def notify_frame_refl notify_frame_notify split: option.split)
  have s: "exit_loop ord ps t R = exit_loop ord ps (t\<lparr>pc := ExPaths ks\<rparr>) R1"
    using Cons.prems(2) by (subst exit_loop.simps) (simp add: exit_step_def R1_def)
  obtain R2 where "notify_frame R1 R2"
    "exit_loop ord ps (t\<lparr>pc := ExPaths ks\<rparr>) R1 = exit_loop ord ps (t\<lparr>pc := ExDeallocate\<rparr>) R2"
    by (rule Cons.IH [where t = "t\<lparr>pc := ExPaths ks\<rparr>" and R = R1]) auto
  with f s Cons.prems(1) [of R2] notify_frame_trans [OF f] show ?case by simp
qed

lemma exit_loop_remove:
  assumes "pc t = ExRemove"
  obtains R1 where "notify_frame (remove_mailbox (apid t) R) R1"
    and "exit_loop ord ps t R = exit_loop ord ps (t\<lparr>pc := ExDeallocate\<rparr>) R1"
proof -
  let ?R1 = "sup_notify (ord 0) 0 (apid t) (remove_mailbox (apid t) R)"
  have "exit_loop ord ps t R = exit_loop ord ps (t\<lparr>pc := ExNotify\<rparr>) (remove_mailbox (apid t) R)"
    using assms by (subst exit_loop.simps) (simp add: exit_step_def)
  also have "\<dots> = exit_loop ord ps (t\<lparr>pc := ExPaths ps\<rparr>) ?R1"
    by (subst exit_loop.simps) (simp add: exit_step_def)
  finally have e: "exit_loop ord ps t R = exit_loop ord ps (t\<lparr>pc := ExPaths ps\<rparr>) ?R1" .
  obtain R2 where "notify_frame ?R1 R2"
    "exit_loop ord ps (t\<lparr>pc := ExPaths ps\<rparr>) ?R1 = exit_loop ord ps (t\<lparr>pc := ExDeallocate\<rparr>) R2"
    by (rule exit_loop_paths [of "t\<lparr>pc := ExPaths ps\<rparr>" ps]) auto
  with e notify_frame_trans [OF notify_frame_notify] show thesis by (intro that [of R2]) auto
qed

text \<open>Exit messages as the mailboxes see them.\<close>

lemma send_all_to_frame:
  "slab (send_all_to qs m R) = slab R" "mailboxes (send_all_to qs m R) = mailboxes R"
  "sups (send_all_to qs m R) = sups R"
proof -
  have "slab (snd (Runtime_send q m R)) = slab R" for q R
    by (simp add: Runtime_send_def split: option.split prod.split)
  then show "slab (send_all_to qs m R) = slab R" "mailboxes (send_all_to qs m R) = mailboxes R"
    "sups (send_all_to qs m R) = sups R"
    by (induction qs arbitrary: R) (simp_all add: send_all_to_def)
qed

lemma send_all_to_box:
  assumes wf: "\<And>b. mail_wf (boxes R b)" and inj: "\<And>p q. mailboxes R p = Some a \<Longrightarrow> mailboxes R q = Some a \<Longrightarrow> p = q"
    and p: "mailboxes R p = Some a" and rx: "rx_alive (sys_ch (boxes R a))"
  shows "mail_abs (boxes (send_all_to qs (System s) R) a)
    = (fst (mail_abs (boxes R a)) @ replicate (count_list qs p) s, snd (mail_abs (boxes R a)))"
  using assms
proof (induction qs arbitrary: R)
  case Nil
  then show ?case by (simp add: send_all_to_def)
next
  case (Cons q qs)
  let ?R = "snd (Runtime_send q (System s) R)"
  have step: "boxes ?R b = (if mailboxes R q = Some b then snd (MailboxSender_send (System s) (boxes R b)) else boxes R b)" for b
    by (simp add: Runtime_send_def split: option.split prod.split)
  have "mail_wf (boxes ?R b)" for b using Cons.prems(1) by (simp add: step send_wf)
  moreover have "rx_alive (sys_ch (boxes ?R a))"
    using Cons.prems(4) send_ends [of "boxes R a" "System s"] by (simp add: step same_ends_def)
  ultimately have "mail_abs (boxes (send_all_to qs (System s) ?R) a)
      = (fst (mail_abs (boxes ?R a)) @ replicate (count_list qs p) s, snd (mail_abs (boxes ?R a)))"
    using Cons.prems(2,3) by (intro Cons.IH) auto
  moreover have "mail_abs (boxes ?R a) =
      (if q = p then (fst (mail_abs (boxes R a)) @ [s], snd (mail_abs (boxes R a))) else mail_abs (boxes R a))"
    using Cons.prems send_alive(2) [OF Cons.prems(1,4), of "System s"]
    by (cases "mail_abs (boxes R a)") (auto simp: step)
  ultimately show ?case by (auto simp: send_all_to_def)
qed

section \<open>Receive loops\<close>

text \<open>\<open>n\<close> polls of a loop, stopping when the body has ended.\<close>

fun poll_n :: "nat \<Rightarrow> actor \<Rightarrow> Runtime \<Rightarrow> actor \<times> Runtime" where
  "poll_n 0 t R = (t, R)"
| "poll_n (Suc n) t R =
     (if pc t = Running then case body_poll t R of (t', R') \<Rightarrow> poll_n n t' R' else (t, R))"

lemma closed_recv:
  assumes "\<not> tx_alive (sys_ch mb)"
  shows "length (stash mb) + length (queue (sys_ch mb)) = 0 \<and> MailboxReceiver_recv mb = (Ready None, mb)
    \<or> (\<exists>m mb'. MailboxReceiver_recv mb = (Ready (Some m), mb') \<and> \<not> tx_alive (sys_ch mb')
        \<and> Suc (length (stash mb') + length (queue (sys_ch mb'))) = length (stash mb) + length (queue (sys_ch mb)))"
proof (cases rule: stash_casesE [of mb])
  case (stashed_system us s vs)
  with assms show ?thesis by (auto simp: MailboxReceiver_recv_def nth_append)
next
  case (no_system us)
  with assms show ?thesis
    by (cases us; cases "queue (sys_ch mb)")
      (simp_all add: MailboxReceiver_recv_def chan_try_recv_def chan_recv_def Let_def)
qed

lemma poll_n_closed:
  assumes "pc t = Running" and "body t \<noteq> FreeBody" and "\<not> tx_alive (sys_ch (boxes R (abox t)))"
    and "length (stash (boxes R (abox t))) + length (queue (sys_ch (boxes R (abox t)))) < n"
  shows "pc (fst (poll_n n t R)) = ExRemove \<and> why (fst (poll_n n t R)) = (Normal, None)"
  using assms
proof (induction n arbitrary: t R)
  case (Suc n)
  let ?mb = "boxes R (abox t)"
  from closed_recv [OF Suc.prems(3)] show ?case
  proof (elim disjE exE conjE)
    assume "MailboxReceiver_recv ?mb = (Ready None, ?mb)"
    with Suc.prems(1) show ?case
      by (cases n) (simp_all add: body_poll_def finish_body_def exit_reason_def)
  next
    fix m mb'
    assume r: "MailboxReceiver_recv ?mb = (Ready (Some m), mb')" and tx: "\<not> tx_alive (sys_ch mb')"
      and len: "Suc (length (stash mb') + length (queue (sys_ch mb'))) = length (stash ?mb) + length (queue (sys_ch ?mb))"
    obtain t' R' where p: "body_poll t R = (t', R')" by fastforce
    with r Suc.prems(1,2) have "boxes R' (abox t') = mb'" "pc t' = Running" "body t' \<noteq> FreeBody"
      by (cases "body t"; auto simp: body_poll_def)+
    with Suc.IH [of t' R'] tx len Suc.prems p show ?case by simp
  qed
qed simp

section \<open>What the invariant says of the calls\<close>

lemma alive_holder_inv:
  assumes inv: "rt_inv R"
  shows "(Runtime_is_alive R p \<longleftrightarrow> (\<exists>!t. t \<in> set (actors R) \<and> apid t = p \<and> holds_pid t))
    \<and> (mailboxes R p = Some a \<longrightarrow>
        (\<exists>t\<in>set (actors R). apid t = p \<and> abox t = a \<and> holds_pid t \<and> (\<forall>u\<in>set (actors R). abox u = a \<longrightarrow> u = t)))"
proof -
  from inv have pids: "pids_ok (slab R) (actors R)" and addrs: "addrs_ok (next_addr R) (actors R)"
    by (simp_all add: rt_inv_def)
  have "Runtime_is_alive R p \<longleftrightarrow> (\<exists>t. t \<in> set (actors R) \<and> apid t = p \<and> holds_pid t)"
    using pids by (auto simp: pids_ok_def Runtime_is_alive_def set_eq_iff image_iff)
  moreover have "mailboxes R p = Some a \<longrightarrow>
      (\<exists>t\<in>set (actors R). apid t = p \<and> abox t = a \<and> holds_pid t \<and> (\<forall>u\<in>set (actors R). abox u = a \<longrightarrow> u = t))"
    using rt_inv_entry [OF inv] has_entry_holds box_unique [OF addrs] by metis
  ultimately show ?thesis using holder_unique [OF pids] by blast
qed

text \<open>A send to an actor whose entry is in the map, while it runs and afterwards.\<close>

lemma send_running:
  assumes "rt_inv R" and "t \<in> set (actors R)" and "mailboxes R (apid t) = Some (abox t)" and "pc t = Running"
  obtains mb where "Runtime_send (apid t) m R = (Inr (), R\<lparr>boxes := (boxes R)(abox t := mb)\<rparr>)"
    and "mail_abs mb = spec_send m (mail_abs (boxes R (abox t)))"
proof -
  have "rx_alive (sys_ch (boxes R (abox t)))" using assms by (auto simp: rt_inv_def ends_ok_def)
  with send_alive [OF rt_inv_wf [OF assms(1)], of "abox t" m] that assms(3) show thesis
    by (cases "MailboxSender_send m (boxes R (abox t))") (auto simp: Runtime_send_def)
qed

lemma send_exiting:
  assumes "rt_inv R" and "t \<in> set (actors R)" and "mailboxes R (apid t) = Some (abox t)" and "pc t \<noteq> Running"
  shows "Runtime_send (apid t) m R = (Inl m, R)"
proof -
  have "\<not> rx_alive (sys_ch (boxes R (abox t)))" using assms by (auto simp: rt_inv_def ends_ok_def)
  with send_dead [OF rt_inv_wf [OF assms(1)], of "abox t"] assms(3) show ?thesis by (simp add: Runtime_send_def)
qed

lemma send_outcome_inv:
  assumes inv: "rt_inv R" and s: "Runtime_send p m R = (res, R')"
  shows "(res = Inr () \<longrightarrow> (\<exists>t\<in>set (actors R). apid t = p \<and> pc t = Running
        \<and> mail_abs (boxes R' (abox t)) = spec_send m (mail_abs (boxes R (abox t)))
        \<and> (\<forall>b. b \<noteq> abox t \<longrightarrow> boxes R' b = boxes R b)))
    \<and> (res \<noteq> Inr () \<longrightarrow> res = Inl m \<and> R' = R)
    \<and> (\<not> Runtime_is_alive R p \<longrightarrow> res = Inl m)"
proof (cases "mailboxes R p")
  case None
  with s show ?thesis by (auto simp: Runtime_send_def)
next
  case (Some a)
  from rt_inv_entry [OF inv Some] obtain t
    where t: "t \<in> set (actors R)" "has_entry t" "apid t = p" "abox t = a" .
  have alive: "Runtime_is_alive R p"
    using not_valid_no_entry [OF inv, of p] Some unfolding Runtime_is_alive_def by fastforce
  have m: "mailboxes R (apid t) = Some (abox t)" using t Some by simp
  show ?thesis
  proof (cases "pc t = Running")
    case True
    obtain mb where "Runtime_send (apid t) m R = (Inr (), R\<lparr>boxes := (boxes R)(abox t := mb)\<rparr>)"
      "mail_abs mb = spec_send m (mail_abs (boxes R (abox t)))" by (rule send_running [OF inv t(1) m True])
    with s t alive True show ?thesis by auto
  next
    case False
    from send_exiting [OF inv t(1) m False] s t alive show ?thesis by auto
  qed
qed

section \<open>Properties\<close>

text \<open>
  C1: an identifier is alive exactly as long as an actor holds it. In every reachable state of the
  interleaved runtime \<^verbatim>\<open>is_alive(p)\<close> says that exactly one spawned actor has the identifier \<open>p\<close> and
  has not yet deallocated it; an entry in the mailbox map belongs to that actor, and nobody else
  holds its mailbox.
\<close>

theorem alive_iff_one_holder:
  assumes "rt_reachable R"
  shows "(Runtime_is_alive R p \<longleftrightarrow> (\<exists>!t. t \<in> set (actors R) \<and> apid t = p \<and> holds_pid t))
    \<and> (mailboxes R p = Some a \<longrightarrow>
        (\<exists>t\<in>set (actors R). apid t = p \<and> abox t = a \<and> holds_pid t \<and> (\<forall>u\<in>set (actors R). abox u = a \<longrightarrow> u = t)))"
  by (rule alive_holder_inv [OF rt_reachable_inv [OF assms]])

lemma spawn_from_new:
  obtains p R where "Runtime_spawn_actor Runtime_new = Some (p, R)" and "rt_reachable R"
proof -
  have room: "slab_room (slab Runtime_new)" by (simp add: Runtime_new_def slab_room_def SlabAllocator_new_def)
  obtain p R where s: "Runtime_spawn_actor Runtime_new = Some (p, R)"
    by (auto simp: Runtime_spawn_actor_def spawn_task_def Runtime_new_def SlabAllocator_allocate_def
        SlabAllocator_new_def Let_def)
  then have "rt_exec SpawnActor Runtime_new = Some R" by simp
  from rt_reachable.step [OF rt_reachable.start rt_step_call [OF disjI1 [OF room] this]] s show thesis
    by (intro that)
qed

lemma new_room: "rt_inv Runtime_new" "slab_room (slab Runtime_new)"
  by (auto simp: rt_reachable_inv rt_reachable.start) (simp add: Runtime_new_def slab_room_def SlabAllocator_new_def)

lemma spawned_alive:
  assumes "rt_inv R" and "slab_room (slab R)" and "spawn_task b R = Some (p, R')"
  shows "Runtime_is_alive R' q \<longleftrightarrow> q = p \<or> Runtime_is_alive R q" and "\<not> Runtime_is_alive R p"
    and "mailboxes R' = (mailboxes R)(p \<mapsto> next_addr R)" and "boxes R' = (boxes R)(next_addr R := channel)"
proof -
  from spawn_task_spec [OF assms] obtain sl where al: "SlabAllocator_allocate (slab R) = Some (p, sl)"
    and R': "R' = R\<lparr>slab := sl, boxes := (boxes R)(next_addr R := channel), next_addr := Suc (next_addr R),
      mailboxes := (mailboxes R)(p \<mapsto> next_addr R),
      actors := actors R @ [\<lparr>apid = p, abox = next_addr R, body = b, pc = Running, why = (Normal, None)\<rparr>]\<rparr>" .
  have si: "slab_inv (slab R)" using assms(1) by (simp add: rt_inv_def pids_ok_def)
  show "Runtime_is_alive R' q \<longleftrightarrow> q = p \<or> Runtime_is_alive R q" and "\<not> Runtime_is_alive R p"
    unfolding Runtime_is_alive_def R' using slab.alloc_valid [OF si assms(2) al, of q] slab.alloc_fresh [OF si assms(2) al]
    by simp_all
  show "mailboxes R' = (mailboxes R)(p \<mapsto> next_addr R)" "boxes R' = (boxes R)(next_addr R := channel)"
    by (simp_all add: R')
qed

theorem alive_iff_one_holder_witness:
  "\<exists>p R. Runtime_spawn_actor Runtime_new = Some (p, R)
     \<and> (\<exists>!t. t \<in> set (actors R) \<and> apid t = p \<and> holds_pid t)"
proof -
  obtain p R where s: "Runtime_spawn_actor Runtime_new = Some (p, R)" and r: "rt_reachable R"
    by (rule spawn_from_new)
  have "Runtime_is_alive R p"
    using spawned_alive(1) [OF new_room, of FreeBody p R p] s by (simp add: Runtime_spawn_actor_def)
  then have "\<exists>!t. t \<in> set (actors R) \<and> apid t = p \<and> holds_pid t"
    using alive_iff_one_holder [OF r, of p] by simp
  with s show ?thesis by blast
qed

text \<open>
  C22: spawning works. While the slab has room, a spawn in a reachable state does not panic: it
  returns an identifier that was not alive and is now, with an empty mailbox that accepts messages;
  every other identifier keeps its status, its mailbox and its queued messages.
\<close>

theorem spawn_gives_live_actor:
  assumes "rt_reachable R" and "slab_room (slab R)"
  shows "\<exists>p R'. Runtime_spawn_handler_with_budget budget R = Some (p, R')
    \<and> \<not> Runtime_is_alive R p \<and> Runtime_is_alive R' p \<and> Runtime_mailbox_size R' p = Some 0
    \<and> fst (Runtime_send p m R') = Inr ()
    \<and> (\<forall>q. q \<noteq> p \<longrightarrow> Runtime_is_alive R' q = Runtime_is_alive R q
         \<and> Runtime_mailbox_size R' q = Runtime_mailbox_size R q)"
proof -
  note inv = rt_reachable_inv [OF assms(1)]
  have si: "slab_inv (slab R)" using inv by (simp add: rt_inv_def pids_ok_def)
  obtain p R' where s: "spawn_task (HandlerBody budget 0) R = Some (p, R')"
    using slab.alloc_total [OF si] by (auto simp: spawn_task_def Let_def)
  note f = spawned_alive [OF inv assms(2) s]
  have "mailboxes R q \<noteq> Some (next_addr R)" for q
  proof
    assume "mailboxes R q = Some (next_addr R)"
    from rt_inv_entry [OF inv this] obtain t where "t \<in> set (actors R)" "abox t = next_addr R" .
    with inv show False by (auto simp: rt_inv_def addrs_ok_def)
  qed
  then have "q \<noteq> p \<Longrightarrow> Runtime_mailbox_size R' q = Runtime_mailbox_size R q" for q
    by (cases "mailboxes R q") (auto simp: Runtime_mailbox_size_def f(3,4))
  moreover have "fst (MailboxSender_send m channel) = Inr ()"
    by (rule send_alive(1)) (simp_all add: channel_wf, simp add: channel_def chan_new_def)
  then have "fst (Runtime_send p m R') = Inr ()"
    by (cases "MailboxSender_send m channel") (simp add: Runtime_send_def f(3,4))
  ultimately show ?thesis
    using s f(1,2) by (auto simp: Runtime_spawn_handler_with_budget_def Runtime_mailbox_size_def f(3,4)
        MailboxSender_len_def channel_def)
qed

theorem spawn_gives_live_actor_witness:
  "\<exists>p R'. Runtime_spawn_handler_with_budget 8 Runtime_new = Some (p, R') \<and> Runtime_is_alive R' p
     \<and> fst (Runtime_send p (User [1]) R') = Inr ()"
  using spawn_gives_live_actor [OF rt_reachable.start new_room(2), of 8 "User [1]"] by blast

text \<open>
  C2: a message is delivered to the actor it is addressed to, or handed back. In every reachable
  state \<^verbatim>\<open>send(p, m)\<close> succeeds only if a running actor holds \<open>p\<close>, and then \<open>m\<close> is appended to that
  actor's queue for its class and no other mailbox changes; otherwise it returns \<open>m\<close> and changes
  nothing. To an identifier that is not alive it always fails.
\<close>

theorem send_delivers_or_returns:
  assumes "rt_reachable R" and "Runtime_send p m R = (res, R')"
  shows "(res = Inr () \<longrightarrow> (\<exists>t\<in>set (actors R). apid t = p \<and> pc t = Running
        \<and> mail_abs (boxes R' (abox t)) = spec_send m (mail_abs (boxes R (abox t)))
        \<and> (\<forall>b. b \<noteq> abox t \<longrightarrow> boxes R' b = boxes R b)))
    \<and> (res \<noteq> Inr () \<longrightarrow> res = Inl m \<and> R' = R)
    \<and> (\<not> Runtime_is_alive R p \<longrightarrow> res = Inl m)"
  by (rule send_outcome_inv [OF rt_reachable_inv [OF assms(1)] assms(2)])

theorem send_delivers_or_returns_witness:
  "Runtime_send 7 (User [1]) Runtime_new = (Inl (User [1]), Runtime_new)"
proof -
  have "\<not> Runtime_is_alive Runtime_new 7"
    by (simp add: Runtime_is_alive_def Runtime_new_def SlabAllocator_new_def SlabAllocator_is_valid_def
        split: prod.split)
  with send_delivers_or_returns [OF rt_reachable.start, of 7 "User [1]"] show ?thesis
    by (metis prod.collapse sum.simps(4))
qed

text \<open>
  C15: a stopped actor terminates. Once \<^verbatim>\<open>stop\<close> has removed the entry of a running handler or
  observed actor, its receive loop ends normally after at most as many rounds as the stash and the
  system queue have messages, plus one, whatever still waits in the user queue.
\<close>

theorem stopped_actor_terminates:
  assumes "rt_reachable R" and "t \<in> set (actors R)" and "pc t = Running" and "body t \<noteq> FreeBody"
    and "length (stash (boxes R (abox t))) + length (queue (sys_ch (boxes R (abox t)))) < n"
  shows "pc (fst (poll_n n t (Runtime_stop (apid t) R))) = ExRemove
    \<and> why (fst (poll_n n t (Runtime_stop (apid t) R))) = (Normal, None)"
proof -
  let ?R = "Runtime_stop (apid t) R"
  have inv: "rt_inv ?R" using rt_inv_remove_mailbox [OF rt_reachable_inv [OF assms(1)]] by (simp add: Runtime_stop_def)
  have "t \<in> set (actors ?R)" "mailboxes ?R (apid t) = None" using assms(2) by (simp_all add: Runtime_stop_def)
  with inv have tx: "\<not> tx_alive (sys_ch (boxes ?R (abox t)))" by (auto simp: rt_inv_def ends_ok_def)
  have "stash (boxes ?R b) = stash (boxes R b) \<and> queue (sys_ch (boxes ?R b)) = queue (sys_ch (boxes R b))" for b
    by (auto simp: Runtime_stop_def remove_mailbox_def drop_sender_def chan_drop_tx_def split: option.split)
  with poll_n_closed [OF assms(3,4) tx] assms(5) show ?thesis by simp
qed

theorem stopped_actor_terminates_witness:
  "\<exists>p R t. Runtime_spawn_handler_with_budget 2 Runtime_new = Some (p, R) \<and> t \<in> set (actors R) \<and> apid t = p
     \<and> pc (fst (poll_n 1 t (Runtime_stop p R))) = ExRemove"
proof -
  obtain p R where s: "Runtime_spawn_handler_with_budget 2 Runtime_new = Some (p, R)"
    using spawn_gives_live_actor [OF rt_reachable.start new_room(2), of 2] by blast
  then have st: "spawn_task (HandlerBody 2 0) Runtime_new = Some (p, R)"
    by (simp add: Runtime_spawn_handler_with_budget_def)
  have "rt_exec (SpawnHandler 2) Runtime_new = Some R" using s by simp
  from rt_reachable.step [OF rt_reachable.start rt_step_call [OF disjI1 [OF new_room(2)] this]] have r: "rt_reachable R" .
  let ?t = "\<lparr>apid = p, abox = 0, body = HandlerBody 2 0, pc = Running, why = (Normal, None)\<rparr>"
  have t: "?t \<in> set (actors R)" and b: "boxes R 0 = channel"
    using st by (auto simp: spawn_task_def Runtime_new_def Let_def remove_mailbox_def split: option.splits)
  from stopped_actor_terminates [OF r t, of 1] s t b show ?thesis
    by (auto simp: channel_def chan_new_def)
qed

text \<open>
  The mailbox of another running actor is untouched by the removal of the exiting one, and the
  \<^verbatim>\<open>Exit\<close> messages sent afterwards reach it once per link.
\<close>

lemma other_box_kept:
  assumes "rt_inv R" and "actors R = us @ t # vs" and "pc t = ExRemove"
    and "u \<in> set (us @ vs)" and "pc u = Running"
  shows "apid u \<noteq> apid t" and "boxes (remove_mailbox (apid t) R) (abox u) = boxes R (abox u)"
proof -
  have addrs: "addrs_ok (next_addr R) (actors R)" and pids: "pids_ok (slab R) (actors R)"
    using assms(1) by (simp_all add: rt_inv_def)
  have neq: "abox u \<noteq> abox t" "apid u \<noteq> apid t"
    using assms(2-5) addrs pids by (auto simp: addrs_ok_def pids_ok_def dest: not_in_imageD)
  then show "apid u \<noteq> apid t" by simp
  have "mailboxes R (apid t) \<noteq> Some (abox u)"
  proof
    assume "mailboxes R (apid t) = Some (abox u)"
    from rt_inv_entry [OF assms(1) this] obtain x where "x \<in> set (actors R)" "apid x = apid t" "abox x = abox u" .
    with box_unique [OF addrs, of x u] neq assms(2,4) show False by auto
  qed
  then show "boxes (remove_mailbox (apid t) R) (abox u) = boxes R (abox u)"
    by (simp add: remove_mailbox_def split: option.split)
qed

lemma exit_reaches_peer:
  assumes "rt_inv R" and "actors R = us @ t # vs" and "pc t = ExRemove"
    and "u \<in> set (us @ vs)" and "pc u = Running" and "mailboxes R (apid u) = Some (abox u)"
    and R2: "mailboxes R2 = (mailboxes R)(apid t := None)" "boxes R2 = boxes (remove_mailbox (apid t) R)"
  shows "mail_abs (boxes (send_all_to qs (System s) R2) (abox u)) =
    (fst (mail_abs (boxes R (abox u))) @ replicate (count_list qs (apid u)) s, snd (mail_abs (boxes R (abox u))))"
proof -
  have addrs: "addrs_ok (next_addr R) (actors R)" using assms(1) by (simp add: rt_inv_def)
  note kept = other_box_kept [OF assms(1-5)]
  have inj: "x = y" if "mailboxes R2 x = Some (abox u)" "mailboxes R2 y = Some (abox u)" for x y
  proof -
    from that have "mailboxes R x = Some (abox u)" "mailboxes R y = Some (abox u)"
      by (auto simp: R2 split: if_splits)
    then show ?thesis using rt_inv_entry [OF assms(1)] box_unique [OF addrs] by metis
  qed
  have wf: "mail_wf (boxes R2 b)" for b
    using rt_inv_wf [OF rt_inv_remove_mailbox [OF assms(1)]] by (simp add: R2)
  have "rx_alive (sys_ch (boxes R2 (abox u)))"
    using assms(1,2,4,5) by (auto simp: R2 kept rt_inv_def ends_ok_def)
  moreover have "mailboxes R2 (apid u) = Some (abox u)" using assms(6) kept(1) by (simp add: R2)
  ultimately show ?thesis
    using send_all_to_box [OF wf inj, where p = "apid u" and qs = qs and s = s] by (simp add: R2 kept)
qed

text \<open>
  C5: the exit protocol does what linked actors rely on. When an actor's body has ended and the rest
  of its task runs without interference, it finishes; its identifier is no longer alive, it has no
  mailbox entry and no links, and every other running actor has received one \<^verbatim>\<open>Exit\<close> message per
  link to it, with its identifier, the exit reason and the metadata, behind the system messages it
  already had; its user messages are untouched.
\<close>

theorem exit_protocol_notifies_links:
  assumes "rt_reachable R" and "actors R = us @ t # vs" and "pc t = ExRemove"
    and "exit_loop ord ps t R = (t', R')"
  shows "pc t' = ExDone \<and> \<not> Runtime_is_alive R' (apid t) \<and> mailboxes R' (apid t) = None
    \<and> peers_of (links (sup (sups R' 0))) (apid t) = []
    \<and> (u \<in> set (us @ vs) \<and> pc u = Running \<and> mailboxes R (apid u) = Some (abox u) \<longrightarrow>
        mail_abs (boxes R' (abox u)) =
          (fst (mail_abs (boxes R (abox u)))
             @ replicate (count_list (peers_of (links (sup (sups R 0))) (apid t)) (apid u))
                 (Exit \<lparr>from_pid = apid t, reason = fst (why t), metadata = snd (why t)\<rparr>),
           snd (mail_abs (boxes R (abox u)))))"
proof -
  let ?p = "apid t" and ?info = "\<lparr>from_pid = apid t, reason = fst (why t), metadata = snd (why t)\<rparr>"
  note inv = rt_reachable_inv [OF assms(1)]
  obtain R1 where f: "notify_frame (remove_mailbox ?p R) R1"
    and e: "exit_loop ord ps t R = exit_loop ord ps (t\<lparr>pc := ExDeallocate\<rparr>) R1"
    by (rule exit_loop_remove [OF assms(3)])
  define R2 where "R2 = sup_call 0 (TakeLinks ?p) (R1\<lparr>slab := snd (SlabAllocator_deallocate ?p (slab R1))\<rparr>)"
  let ?qs = "peers_of (links (sup (sups R 0))) ?p"
  have l1: "links (sup (sups R1 0)) = links (sup (sups R 0))" using f by (simp add: notify_frame_def)
  have R': "t' = t\<lparr>pc := ExDone\<rparr>" "R' = send_all_to ?qs (System (Exit ?info)) R2"
    using assms(4) by (auto simp: e exit_loop_deallocate R2_def l1 exit_message_def)
  have mb: "mailboxes R2 = (mailboxes R)(?p := None)" "boxes R2 = boxes (remove_mailbox ?p R)"
    "slab R2 = snd (SlabAllocator_deallocate ?p (slab R))"
    using f by (simp_all add: R2_def notify_frame_def)
  have si: "slab_inv (slab R)" using inv by (simp add: rt_inv_def pids_ok_def)
  have "\<not> Runtime_is_alive R' ?p"
    using slab.dealloc_valid [OF si] by (simp add: Runtime_is_alive_def R' send_all_to_frame mb)
  moreover have "peers_of (links (sup (sups R' 0))) ?p = []"
  proof -
    have "links_sym (links (sup (sups R 0)))"
      using reachable_links_sym [OF rt_reachable_sups [OF assms(1)]] .
    moreover have "sup (sups R' 0) = snd (Supervisor_linked_pids ?p (sup (sups R1 0)))"
      by (simp add: R' send_all_to_frame R2_def sup_call_def)
    ultimately show ?thesis
      using peers.take_twice [of "sup (sups R1 0)" ?p] by (simp add: l1 linked_pids_forget)
  qed
  moreover have "mail_abs (boxes R' (abox u)) = (fst (mail_abs (boxes R (abox u)))
      @ replicate (count_list ?qs (apid u)) (Exit ?info), snd (mail_abs (boxes R (abox u))))"
    if u: "u \<in> set (us @ vs)" "pc u = Running" "mailboxes R (apid u) = Some (abox u)"
    unfolding R'(2) by (rule exit_reaches_peer [OF inv assms(2,3) u mb(1,2)])
  ultimately show ?thesis by (simp add: R'(1)) (simp add: R' send_all_to_frame mb)
qed

text \<open>A runtime with two linked actors, the first of them supervised, which then panics.\<close>

definition ex_actor :: "nat \<Rightarrow> actor" where
  "ex_actor i = \<lparr>apid = make_pid i 1, abox = i, body = FreeBody, pc = Running, why = (Normal, None)\<rparr>"

definition ex_spec :: ChildSpec where
  "ex_spec = \<lparr>factory = UserFactory 1, strategy = RestartOne\<rparr>"

definition ex_linked :: Runtime where
  "ex_linked = Runtime_supervise (make_pid 0 1) (UserFactory 1) RestartOne
     (Runtime_link (make_pid 0 1) (make_pid 1 1)
        (snd (the (Runtime_spawn_actor (snd (the (Runtime_spawn_actor Runtime_new)))))))"

definition ex_exiting :: Runtime where
  "ex_exiting = (snd (finish_body (JoinPanic ''boom'') (ex_actor 0) ex_linked))
     \<lparr>actors := [fst (finish_body (JoinPanic ''boom'') (ex_actor 0) ex_linked), ex_actor 1]\<rparr>"

lemmas ex_simps = ex_linked_def ex_actor_def Runtime_link_def Runtime_supervise_def sup_call_def Runtime_spawn_actor_def
  spawn_task_def remove_mailbox_def Runtime_new_def SlabAllocator_allocate_def SlabAllocator_new_def Let_def

lemma ex_pids: "make_pid 0 1 = 0x100000000" "make_pid (Suc 0) 1 = 0x100000001"
  by code_simp+

lemma ex_linked_facts:
  "actors ex_linked = [ex_actor 0, ex_actor 1]"
  "mailboxes ex_linked = [make_pid 0 1 \<mapsto> 0, make_pid 1 1 \<mapsto> 1]"
  "boxes ex_linked b = channel"
  "sups ex_linked = (\<lambda>_. sup_new)(0 := \<lparr>sup = Supervisor_add_child (make_pid 0 1) ex_spec
     (Supervisor_link (make_pid 0 1) (make_pid 1 1) Supervisor_new), tasks = []\<rparr>)"
  "path_supervisors ex_linked = Map.empty"
  by (simp_all add: ex_simps ex_pids sup_new_def ex_spec_def)

lemma rt_exec_reachable:
  "rt_reachable R \<Longrightarrow> slab_room (slab R) \<or> \<not> spawns x \<Longrightarrow> rt_exec x R = Some R' \<Longrightarrow> rt_reachable R'"
  by (rule rt_reachable.step [OF _ rt_step_call])

lemma ex_linked_reachable: "rt_reachable ex_linked"
proof -
  define R1 where "R1 = snd (the (Runtime_spawn_actor Runtime_new))"
  define R2 where "R2 = snd (the (Runtime_spawn_actor R1))"
  have "rt_exec SpawnActor Runtime_new = Some R1" "rt_exec SpawnActor R1 = Some R2"
    by (simp_all add: R1_def R2_def ex_simps)
  moreover define R3 where "R3 = Runtime_link (make_pid 0 1) (make_pid 1 1) R2"
  have "slab_room (slab R1)" "slab_room (slab R2)" "slab_room (slab R3)"
    by (simp_all add: R1_def R2_def R3_def ex_simps slab_room_def)
  moreover have "rt_exec (LinkPids (make_pid 0 1) (make_pid 1 1)) R2 = Some R3"
    "rt_exec (SuperviseChild (make_pid 0 1) (UserFactory 1) RestartOne) R3 = Some ex_linked"
    by (simp_all add: ex_linked_def R1_def R2_def R3_def)
  ultimately show ?thesis
    using rt_exec_reachable [OF rt_reachable.start disjI1 [OF new_room(2)]] rt_exec_reachable by metis
qed

lemma ex_exiting_reachable: "rt_reachable ex_exiting"
proof -
  have "rt_step ex_linked ex_exiting"
    unfolding ex_exiting_def
    using rt_step.finish [of ex_linked "[]" "ex_actor 0" "[ex_actor 1]" "JoinPanic ''boom''"
        "fst (finish_body (JoinPanic ''boom'') (ex_actor 0) ex_linked)"
        "snd (finish_body (JoinPanic ''boom'') (ex_actor 0) ex_linked)"]
    by (simp add: ex_linked_facts) (simp add: ex_actor_def)
  with ex_linked_reachable show ?thesis by (rule rt_reachable.step)
qed

definition ex_dying :: actor where
  "ex_dying = (ex_actor 0)\<lparr>pc := ExRemove, why := (Panic, Some ''join_error: boom'')\<rparr>"

lemma ex_exiting_facts:
  "actors ex_exiting = [ex_dying, ex_actor 1]" "mailboxes ex_exiting = mailboxes ex_linked"
  "boxes ex_exiting (Suc 0) = channel" "sups ex_exiting = sups ex_linked"
  "path_supervisors ex_exiting = Map.empty"
  by (simp_all add: ex_exiting_def finish_body_def exit_reason_def ex_dying_def ex_linked_facts)
    (simp_all add: ex_actor_def)

theorem exit_protocol_notifies_links_witness:
  "\<exists>t' R'. exit_loop (\<lambda>_. []) [] ex_dying ex_exiting = (t', R') \<and> pc t' = ExDone
     \<and> fst (mail_abs (boxes R' 1))
       = [Exit \<lparr>from_pid = make_pid 0 1, reason = Panic, metadata = Some ''join_error: boom''\<rparr>]"
proof -
  obtain t' R' where l: "exit_loop (\<lambda>_. []) [] ex_dying ex_exiting = (t', R')" by fastforce
  have a: "actors ex_exiting = [] @ ex_dying # [ex_actor 1]" by (simp add: ex_exiting_facts)
  have "pc ex_dying = ExRemove" by (simp add: ex_dying_def)
  note th = exit_protocol_notifies_links [OF ex_exiting_reachable a this l, of "ex_actor 1"]
  have "peers_of (links (sup (sups ex_exiting 0))) (make_pid 0 1) = [make_pid 1 1]"
    by (simp add: ex_exiting_facts ex_linked_facts Supervisor_add_child_def link_links Supervisor_new_def
        peers_of_push ex_pids)
  with th l show ?thesis
    by (simp add: ex_exiting_facts ex_linked_facts ex_dying_def ex_actor_def channel_abs ex_pids)
qed

text \<open>
  A restart that overtakes the exit protocol silences it. If the restart task of the exiting
  actor ends (with a new child, or by giving up) before the protocol takes the links, the task has
  already removed them, and the protocol sends no \<^verbatim>\<open>Exit\<close> message to anybody.
\<close>

theorem restart_silences_exit:
  assumes "rt_reachable R" and "tasks (sups R 0) = us @ w # vs" and "orig_pid w = apid t"
    and "restart_attempt r w (sup (sups R 0)) = (None, s)" and "pc t = ExLinks"
  shows "fst (exit_step ord ps t (R\<lparr>sups := (sups R)(0 := \<lparr>sup = s, tasks = us @ vs\<rparr>)\<rparr>)) = t\<lparr>pc := ExSend []\<rparr>"
proof -
  have "links_sym (links (sup (sups R 0)))" using reachable_links_sym [OF rt_reachable_sups [OF assms(1)]] .
  moreover have "links s = forget (apid t) (links (sup (sups R 0)))"
    using restart_attempt_finish(1) [OF assms(4)] assms(3) by simp
  ultimately have "peers_of (links s) (apid t) = []"
    using peers.take_twice [of "sup (sups R 0)" "apid t"] by (simp add: linked_pids_forget)
  with assms(5) show ?thesis by (simp add: exit_step_def linked_pids_forget)
qed

lemma exit_reachable:
  assumes "rt_reachable R" and "actors R = t # vs" and "pc t \<noteq> Running"
    and "iter_order (path_supervisors R) ps" and "\<forall>a. iter_order (children (sup (sups R a))) (ord a)"
    and "exit_step ord ps t R = (t', R')"
  shows "rt_reachable (R'\<lparr>actors := t' # vs\<rparr>)"
  using rt_step.exit [of R "[]" t vs ps ord t' R'] assms rt_reachable.step by simp

text \<open>The example four statements later: the restart task exists, the links are still to be taken.\<close>

lemma ex_at_links:
  obtains R where "rt_reachable R" and "actors R = [ex_dying\<lparr>pc := ExLinks\<rparr>, ex_actor 1]"
    and "tasks (sups R 0) = [spawn_restart (make_pid 0 1) ex_spec]"
    and "peers_of (links (sup (sups R 0))) (make_pid 0 1) = [make_pid 1 1]"
proof -
  let ?p = "make_pid 0 1"
  let ?ord = "\<lambda>a. if a = 0 then [?p] else []"
  let ?t = "\<lambda>c. ex_dying\<lparr>pc := c\<rparr>"
  have p: "apid (?t c) = ?p" "apid ex_dying = ?p" for c by (simp_all add: ex_dying_def ex_actor_def)
  have d: "pc ex_dying = ExRemove" by (simp add: ex_dying_def)
  have ch: "children (sup (sups ex_exiting a)) = (if a = 0 then [?p \<mapsto> ex_spec] else Map.empty)"
    and rs: "restarting (sup (sups ex_exiting 0)) = {}"
    and lk: "peers_of (links (sup (sups ex_exiting 0))) ?p = [make_pid 1 1]"
    and tk: "tasks (sups ex_exiting 0) = []" for a
    by (simp_all add: ex_exiting_facts ex_linked_facts Supervisor_add_child_def link_links Supervisor_new_def
        peers_of_push ex_pids sup_new_def)
  define S1 where "S1 = (remove_mailbox ?p ex_exiting)\<lparr>actors := [?t ExNotify, ex_actor 1]\<rparr>"
  have s1: "sups S1 = sups ex_exiting" "path_supervisors S1 = Map.empty"
    by (simp_all add: S1_def ex_exiting_facts)
  have r1: "rt_reachable S1"
    unfolding S1_def
    by (rule exit_reachable [OF ex_exiting_reachable, of ex_dying "[ex_actor 1]" "[]" ?ord])
      (auto simp: ex_exiting_facts(1,5) d ch iter_order_def exit_step_def p)
  define S2 where "S2 = (sup_notify [?p] 0 ?p S1)\<lparr>actors := [?t (ExPaths []), ex_actor 1]\<rparr>"
  have n: "Supervisor_notify_exit [?p] ?p (sup (sups ex_exiting 0))
      = ((sup (sups ex_exiting 0))\<lparr>restarting := {?p}\<rparr>, [spawn_restart ?p ex_spec])"
    using notify_exit_one [of ?p "sup (sups ex_exiting 0)" ex_spec] by (simp add: rs ch ex_spec_def)
  have s2: "sups S2 = (sups ex_exiting)(0 := \<lparr>sup = (sup (sups ex_exiting 0))\<lparr>restarting := {?p}\<rparr>,
      tasks = [spawn_restart ?p ex_spec]\<rparr>)" "path_supervisors S2 = Map.empty"
    using s1 by (simp_all add: S2_def sup_notify_def n tk)
  have r2: "rt_reachable S2"
    unfolding S2_def
    by (rule exit_reachable [OF r1, of "?t ExNotify" "[ex_actor 1]" "[]" ?ord])
      (auto simp: s1 ch iter_order_def exit_step_def p, simp add: S1_def)
  define S3 where "S3 = S2\<lparr>actors := [?t ExDeallocate, ex_actor 1]\<rparr>"
  have s3: "sups S3 = sups S2" "path_supervisors S3 = Map.empty" by (simp_all add: S3_def s2)
  have r3: "rt_reachable S3"
    unfolding S3_def
    by (rule exit_reachable [OF r2, of "?t (ExPaths [])" "[ex_actor 1]" "[]" ?ord])
      (auto simp: s2 ch iter_order_def exit_step_def p, simp add: S2_def)
  define S4 where "S4 = S3\<lparr>slab := snd (SlabAllocator_deallocate ?p (slab S3)), actors := [?t ExLinks, ex_actor 1]\<rparr>"
  have "rt_reachable (S3\<lparr>slab := snd (SlabAllocator_deallocate ?p (slab S3))\<rparr>\<lparr>actors := [?t ExLinks, ex_actor 1]\<rparr>)"
    by (rule exit_reachable [OF r3, of "?t ExDeallocate" "[ex_actor 1]" "[]" ?ord])
      (auto simp: s3 s2 ch iter_order_def exit_step_def p, simp add: S3_def)
  then have "rt_reachable S4" by (simp add: S4_def)
  then show thesis by (rule that [of S4]) (simp_all add: S4_def s3 s2 lk)
qed

theorem restart_silences_exit_witness:
  "\<exists>R s. rt_reachable R \<and> peers_of (links (sup (sups R 0))) (make_pid 0 1) = [make_pid 1 1]
     \<and> restart_attempt (Inr 99) (spawn_restart (make_pid 0 1) ex_spec) (sup (sups R 0)) = (None, s)
     \<and> fst (exit_step (\<lambda>_. []) [] (ex_dying\<lparr>pc := ExLinks\<rparr>) (R\<lparr>sups := (sups R)(0 := \<lparr>sup = s, tasks = []\<rparr>)\<rparr>))
       = ex_dying\<lparr>pc := ExSend []\<rparr>"
proof -
  obtain R where R: "rt_reachable R" "tasks (sups R 0) = [] @ spawn_restart (make_pid 0 1) ex_spec # []"
    "peers_of (links (sup (sups R 0))) (make_pid 0 1) = [make_pid 1 1]"
    by (rule ex_at_links) simp
  obtain s where s: "restart_attempt (Inr 99) (spawn_restart (make_pid 0 1) ex_spec) (sup (sups R 0)) = (None, s)"
    by (simp add: restart_attempt_ok)
  have "fst (exit_step (\<lambda>_. []) [] (ex_dying\<lparr>pc := ExLinks\<rparr>) (R\<lparr>sups := (sups R)(0 := \<lparr>sup = s, tasks = [] @ []\<rparr>)\<rparr>))
      = ex_dying\<lparr>pc := ExLinks\<rparr>\<lparr>pc := ExSend []\<rparr>"
    by (rule restart_silences_exit [OF R(1,2) _ s]) (simp_all add: ex_dying_def ex_actor_def)
  with R s show ?thesis by auto
qed

text \<open>
  The runtime uses its supervisors only as their contract allows. In every reachable state of the
  runtime, each supervisor (the global one and those of the paths, also after they were removed from
  the map) is in a state that the supervisor's own step relation reaches; so its links are symmetric
  and each of its restart marks belongs to a running task.
\<close>

theorem runtime_supervisors_reachable:
  assumes "rt_reachable R"
  shows "sup_reachable (sups R a) \<and> links_sym (links (sup (sups R a))) \<and> marks_running (sups R a)"
  using rt_reachable_sups [OF assms] reachable_links_sym reachable_marks_running by blast

theorem runtime_supervisors_reachable_witness:
  "\<exists>R. rt_reachable R \<and> tasks (sups R 0) \<noteq> [] \<and> marks_running (sups R 0)"
proof -
  obtain R where R: "rt_reachable R" "tasks (sups R 0) = [spawn_restart (make_pid 0 1) ex_spec]"
    by (rule ex_at_links)
  with runtime_supervisors_reachable [OF R(1), of 0] show ?thesis by auto
qed

text \<open>The budget of a handler loop over \<open>n\<close> messages: the count, and how often it has yielded.\<close>

primrec budget_run :: "usize \<Rightarrow> nat \<Rightarrow> usize \<times> nat" where
  "budget_run budget 0 = (0, 0)"
| "budget_run budget (Suc n) =
     (case budget_run budget n of (k, y) \<Rightarrow>
        (case budget_tick budget k of (k', yielded) \<Rightarrow> (k', y + of_bool yielded)))"

lemma mod_Suc_max:
  fixes m :: nat
  assumes "0 < m"
  shows "m \<le> Suc (n mod m) \<Longrightarrow> Suc n mod m = 0 \<and> Suc n div m = Suc (n div m)"
    and "\<not> m \<le> Suc (n mod m) \<Longrightarrow> Suc n mod m = Suc (n mod m) \<and> Suc n div m = n div m"
proof -
  have "m \<le> Suc (n mod m) \<Longrightarrow> Suc (n mod m) = m" using mod_less_divisor [OF assms, of n] by linarith
  then show "m \<le> Suc (n mod m) \<Longrightarrow> Suc n mod m = 0 \<and> Suc n div m = Suc (n div m)"
    by (simp add: mod_Suc div_Suc)
  show "\<not> m \<le> Suc (n mod m) \<Longrightarrow> Suc n mod m = Suc (n mod m) \<and> Suc n div m = n div m"
    by (auto simp: mod_Suc div_Suc)
qed

text \<open>
  Cooperative scheduling is exact. A handler loop with budget \<open>b\<close> that has processed \<open>n\<close>
  messages has yielded exactly \<open>n\<close> divided by \<open>b\<close> times (a budget of 0 counts as 1), so it yields
  after every \<open>b\<close>-th message, and its counter is the remainder: it never overflows.
\<close>

theorem budget_yields_exactly:
  "budget_run budget n = (of_nat (n mod max 1 (unat budget)), n div max 1 (unat budget))"
proof (induction n)
  case (Suc n)
  let ?m = "max 1 (unat budget)"
  have "unat budget < 2 ^ LENGTH(64)" by (rule unsigned_less)
  then have m: "0 < ?m" "?m < 2 ^ 64" by (auto simp: max_def)
  then have r: "Suc (n mod ?m) < 2 ^ 64" using mod_less_divisor [of ?m n] by linarith
  then have "unat (of_nat (Suc (n mod ?m)) :: usize) = Suc (n mod ?m)"
    by (simp add: unat_of_nat take_bit_nat_eq_self del: of_nat_Suc)
  then have "budget \<le> of_nat (Suc (n mod ?m)) \<longleftrightarrow> ?m \<le> Suc (n mod ?m)"
    by (simp add: word_le_nat_alt del: of_nat_Suc)
  then have "budget \<le> of_nat (n mod ?m) + 1 \<longleftrightarrow> ?m \<le> Suc (n mod ?m)" by (simp add: add.commute)
  with Suc.IH mod_Suc_max [OF m(1), of n] show ?case
    by (auto simp: budget_tick_def Let_def add.commute)
qed simp

text \<open>
  \<^verbatim>\<open>take_observed_message_matching\<close> removes exactly the first observed message the predicate
  accepts and returns it; if none is accepted, or the actor is not observed, it returns nothing and
  changes nothing.
\<close>

theorem take_observed_first_match:
  assumes "observers R p = Some a"
  shows "(vecs R a = us @ m # vs \<and> (\<forall>u\<in>set us. \<not> matcher u) \<and> matcher m \<longrightarrow>
      (\<exists>R'. Runtime_take_observed_message_matching p matcher R = (Some m, R')
         \<and> Runtime_get_observed_messages R' p = Some (us @ vs) \<and> (\<forall>b. b \<noteq> a \<longrightarrow> vecs R' b = vecs R b)))
    \<and> ((\<forall>m\<in>set (vecs R a). \<not> matcher m) \<longrightarrow>
        Runtime_take_observed_message_matching p matcher R = (None, R))"
  using assms position_append_hit [of us matcher m vs]
  by (auto simp: Runtime_take_observed_message_matching_def Runtime_get_observed_messages_def position_miss)

theorem take_observed_first_match_witness:
  "\<exists>R'. Runtime_take_observed_message_matching 3 (\<lambda>m. m = User [2])
       (Runtime_new\<lparr>observers := [3 \<mapsto> 0], vecs := (\<lambda>_. [User [1], User [2]])\<rparr>) = (Some (User [2]), R')
     \<and> Runtime_get_observed_messages R' 3 = Some [User [1]]"
proof -
  let ?R = "Runtime_new\<lparr>observers := [3 \<mapsto> 0], vecs := (\<lambda>_. [User [1], User [2]])\<rparr>"
  have "observers ?R 3 = Some 0" by simp
  from take_observed_first_match [OF this, of "[User [1]]" "User [2]" "[]" "\<lambda>m. m = User [2]"]
  show ?thesis by auto
qed

end
