(* ===== verification/Recovery.thy ===== *)
theory Recovery
  imports Lifecycle
begin

text \<open>
  Recovery across components: what the supervisors keep through the exit protocol of an actor, and
  what a restart task then makes of a factory that spawns.
\<close>

section \<open>The exit protocol and the supervisors\<close>

text \<open>Notifications keep the children and only add restart tasks.\<close>

definition notified :: "Runtime \<Rightarrow> Runtime \<Rightarrow> bool" where
  "notified R R' \<longleftrightarrow> (\<forall>a. children (sup (sups R' a)) = children (sup (sups R a))
     \<and> set (tasks (sups R a)) \<subseteq> set (tasks (sups R' a)))"

lemma notified_refl: "notified R R"
  by (simp add: notified_def)

lemma notified_trans: "notified R R1 \<Longrightarrow> notified R1 R2 \<Longrightarrow> notified R R2"
  by (auto simp: notified_def)

lemma notify_exit_children: "Supervisor_notify_exit ks p s = (s', ts) \<Longrightarrow> children s' = children s"
  by (auto simp: Supervisor_notify_exit_def Let_def split: if_splits option.splits RestartStrategy.splits)

lemma notified_notify: "notified R (sup_notify ks a p R)"
  using notify_exit_children by (fastforce simp: notified_def sup_notify_def split: prod.split)

lemma exit_loop_deallocate_notified:
  assumes "pc t = ExDeallocate" and "exit_loop ord ps t R = (t', R')"
  shows "notified R R' \<and> slab R' = snd (SlabAllocator_deallocate (apid t) (slab R))"
proof -
  have "R' = send_all_to (peers_of (links (sup (sups R 0))) (apid t)) (exit_message t)
      (sup_call 0 (TakeLinks (apid t)) (R\<lparr>slab := snd (SlabAllocator_deallocate (apid t) (slab R))\<rparr>))"
    using assms by (simp add: exit_loop_deallocate)
  then show ?thesis
    by (simp add: notified_def send_all_to_frame sup_call_def linked_pids_forget)
qed

lemma exit_loop_paths_notified:
  assumes "pc t = ExPaths ks" and "exit_loop ord ps t R = (t', R')"
  shows "notified R R' \<and> slab R' = snd (SlabAllocator_deallocate (apid t) (slab R))"
  using assms
proof (induction ks arbitrary: t R)
  case Nil
  then have "exit_loop ord ps (t\<lparr>pc := ExDeallocate\<rparr>) R = (t', R')"
    by (subst (asm) exit_loop.simps) (simp add: exit_step_def)
  then show ?case using exit_loop_deallocate_notified [of "t\<lparr>pc := ExDeallocate\<rparr>"] by simp
next
  case (Cons k ks)
  define R1 where "R1 = (case path_supervisors R k of None \<Rightarrow> R
     | Some a \<Rightarrow> if Supervisor_contains_child (sup (sups R a)) (apid t) then sup_notify (ord a) a (apid t) R else R)"
  have "notified R R1 \<and> slab R1 = slab R"
    using notify_frame_notify by (auto simp: R1_def notified_refl notified_notify notify_frame_def split: option.split)
  moreover have "exit_loop ord ps (t\<lparr>pc := ExPaths ks\<rparr>) R1 = (t', R')"
    using Cons.prems by (subst (asm) exit_loop.simps) (simp add: exit_step_def R1_def)
  ultimately show ?case using Cons.IH [of "t\<lparr>pc := ExPaths ks\<rparr>" R1] notified_trans by auto
qed

text \<open>From the end of the body on: the restart task of a supervised actor is there at the end.\<close>

lemma exit_loop_starts_restart:
  assumes "pc t = ExRemove" and "exit_loop ord ps t R = (t', R')"
    and "children (sup (sups R 0)) (apid t) = Some spec" and "strategy spec = RestartOne"
    and "apid t \<notin> restarting (sup (sups R 0))"
  shows "spawn_restart (apid t) spec \<in> set (tasks (sups R' 0))
    \<and> children (sup (sups R' 0)) = children (sup (sups R 0))
    \<and> slab R' = snd (SlabAllocator_deallocate (apid t) (slab R))"
proof -
  let ?R = "remove_mailbox (apid t) R"
  let ?R1 = "sup_notify (ord 0) 0 (apid t) ?R"
  have s: "sups ?R = sups R" "slab ?R = slab R" by (simp_all add: remove_mailbox_def split: option.split)
  have "exit_loop ord ps (t\<lparr>pc := ExNotify\<rparr>) ?R = (t', R')"
    using assms(1,2) by (subst (asm) exit_loop.simps) (simp add: exit_step_def)
  then have "exit_loop ord ps (t\<lparr>pc := ExPaths ps\<rparr>) ?R1 = (t', R')"
    by (subst (asm) exit_loop.simps) (simp add: exit_step_def)
  from exit_loop_paths_notified [OF _ this] have n: "notified ?R1 R'"
    "slab R' = snd (SlabAllocator_deallocate (apid t) (slab ?R1))" by simp_all
  have "spawn_restart (apid t) spec \<in> set (tasks (sups ?R1 0))"
    using assms(3-5) by (simp add: sup_notify_def s notify_exit_one)
  with n notified_notify [of ?R "ord 0" 0 "apid t"] notify_frame_notify [of ?R "ord 0" 0 "apid t"] show ?thesis
    by (auto simp: notified_def notify_frame_def s)
qed

section \<open>Properties\<close>

text \<open>
  C3: a supervised actor that dies is replaced. Take any reachable state in which the body of an actor
  has ended that the global supervisor restarts one for one and is not restarting yet. After its exit
  protocol the restart task is there; if the factory then spawns a handler, the task ends with the new
  actor alive and recorded under the old specification, the old identifier neither alive nor recorded
  nor marked, and every other child as it was.
\<close>

theorem supervised_actor_is_replaced:
  assumes "rt_reachable R" and "actors R = us @ t # vs" and "pc t = ExRemove"
    and "children (sup (sups R 0)) (apid t) = Some spec" and "strategy spec = RestartOne"
    and "\<forall>k\<in>set (tasks (sups R 0)). orig_pid k \<noteq> apid t"
    and "exit_loop ord ps t R = (t', R1)" and "slab_room (slab R1)"
    and "Runtime_spawn_handler_with_budget b R1 = Some (q, R2)"
    and "call_factory env (factory spec) R1 = (Inr q, R2)"
    and "restart_loop env (spawn_restart (apid t) spec) (sup (sups R1 0)) R1 = (s, R3)"
  shows "spawn_restart (apid t) spec \<in> set (tasks (sups R1 0))
    \<and> Runtime_is_alive R3 q \<and> \<not> Runtime_is_alive R3 (apid t)
    \<and> children s = (children (sup (sups R 0)))(q \<mapsto> spec, apid t := None) \<and> q \<noteq> apid t
    \<and> apid t \<notin> restarting s"
proof -
  let ?p = "apid t"
  note inv = rt_reachable_inv [OF assms(1)]
  have si: "slab_inv (slab R)" and live: "SlabAllocator_is_valid (slab R) ?p"
    using inv assms(2,3) by (auto simp: rt_inv_def pids_ok_def holds_pid_def)
  have "marks_running (sups R 0)" using reachable_marks_running [OF rt_reachable_sups [OF assms(1)]] .
  then have "restarting (sup (sups R 0)) \<subseteq> orig_pid ` set (tasks (sups R 0))" by (simp add: marks_running_def)
  with assms(6) have "?p \<notin> restarting (sup (sups R 0))" by (metis imageE subsetD)
  note ex = exit_loop_starts_restart [OF assms(3,7,4,5) this]
  have si1: "slab_inv (slab R1)" using slab.dealloc_inv [OF si] ex by simp
  obtain sl where al: "SlabAllocator_allocate (slab R1) = Some (q, sl)" and R2: "slab R2 = sl"
    using assms(9)
    by (auto simp: Runtime_spawn_handler_with_budget_def spawn_task_def Let_def remove_mailbox_def
        split: option.splits)
  have alive: "Runtime_is_alive R2 x \<longleftrightarrow> x = q \<or> Runtime_is_alive R1 x" for x
    using slab.alloc_valid [OF si1 assms(8) al] by (simp add: Runtime_is_alive_def R2)
  have run: "slab_run (snd (SlabAllocator_deallocate ?p (slab R))) [Allocate] = Some sl" using al ex by simp
  moreover have "length (entries sl) \<le> 2 ^ 32"
    using slab.alloc_inv [OF si1 assms(8) al] by (rule slab_inv_bound)
  ultimately have dead: "\<not> Runtime_is_alive R2 ?p"
    using stale_pid [OF si live, of "[Allocate]" sl] by (simp add: Runtime_is_alive_def R2 deallocations_def)
  then have "q \<noteq> ?p" using alive by auto
  moreover have "R3 = R2 \<and> s = retire ?p spec (Some q) (sup (sups R1 0))"
    using assms(11) by (subst (asm) restart_loop.simps) (simp add: assms(10) restart_attempt_ok)
  ultimately show ?thesis using ex alive dead by (simp add: retire_def)
qed

text \<open>The linked example of the exit protocol, with a factory that spawns a handler.\<close>

definition spawning_factory :: "nat \<Rightarrow> Runtime \<Rightarrow> (string + pid) \<times> Runtime" where
  "spawning_factory n R =
     (case Runtime_spawn_handler_with_budget 8 R of Some (p, R) \<Rightarrow> (Inr p, R) | None \<Rightarrow> (Inl ''panic'', R))"

theorem supervised_actor_is_replaced_witness:
  "\<exists>t' R1 q s R3. exit_loop (\<lambda>_. []) [] ex_dying ex_exiting = (t', R1)
     \<and> restart_loop spawning_factory (spawn_restart (make_pid 0 1) ex_spec) (sup (sups R1 0)) R1 = (s, R3)
     \<and> Runtime_is_alive R3 q \<and> children s q = Some ex_spec \<and> \<not> Runtime_is_alive R3 (make_pid 0 1)"
proof -
  obtain t' R1 where l: "exit_loop (\<lambda>_. []) [] ex_dying ex_exiting = (t', R1)" by fastforce
  have a: "actors ex_exiting = [] @ ex_dying # [ex_actor 1]" by (simp add: ex_exiting_facts)
  have d: "pc ex_dying = ExRemove" "apid ex_dying = make_pid 0 1" by (simp_all add: ex_dying_def ex_actor_def)
  have c: "children (sup (sups ex_exiting 0)) (apid ex_dying) = Some ex_spec" "tasks (sups ex_exiting 0) = []"
    by (simp_all add: d ex_exiting_facts ex_linked_facts Supervisor_add_child_def)
  have st: "strategy ex_spec = RestartOne" "factory ex_spec = UserFactory 1" by (simp_all add: ex_spec_def)
  have "make_pid 0 1 \<notin> restarting (sup (sups ex_exiting 0))"
    by (simp add: ex_exiting_facts ex_linked_facts Supervisor_add_child_def link_links Supervisor_new_def)
  note ex = exit_loop_starts_restart [OF d(1) l c(1) st(1), unfolded d(2), OF this]
  have len: "length (entries (slab ex_exiting)) = 2"
    by (simp add: ex_exiting_def finish_body_def ex_simps)
  then have room: "slab_room (slab R1)" using ex by (simp add: slab_room_def)
  have "slab_inv (slab R1)"
    using ex slab.dealloc_inv rt_reachable_inv [OF ex_exiting_reachable] by (simp add: rt_inv_def pids_ok_def)
  from slab.alloc_total [OF this] obtain q R2 where sp: "Runtime_spawn_handler_with_budget 8 R1 = Some (q, R2)"
    by (auto simp: Runtime_spawn_handler_with_budget_def spawn_task_def Let_def)
  have f: "call_factory spawning_factory (factory ex_spec) R1 = (Inr q, R2)"
    by (simp add: call_factory_def st spawning_factory_def sp)
  obtain s R3 where r: "restart_loop spawning_factory (spawn_restart (apid ex_dying) ex_spec) (sup (sups R1 0)) R1 = (s, R3)"
    by fastforce
  have "\<forall>k\<in>set (tasks (sups ex_exiting 0)). orig_pid k \<noteq> apid ex_dying" by (simp add: c)
  from supervised_actor_is_replaced [OF ex_exiting_reachable a d(1) c(1) st(1) this l room sp f r] l r show ?thesis
    by (auto simp: d)
qed

end
