(* ===== verification/Network.thy ===== *)
theory Network
  imports Runtime
begin

text \<open>
  \<^verbatim>\<open>src/network.rs\<close>: the wire protocol between nodes, the server's connection loop, the client calls,
  the pool of outgoing connections and the heartbeat monitor. A call of \<^verbatim>\<open>send_remote\<close> is one step here;
  \<open>Pool\<close> has the same code with its tasks interleaved.

  \<^item> What a socket delivers is a list of events: a chunk of bytes, an error, or a read that took
    longer than the timeout; the end of the list is the end of the stream. A reader is the bytes its
    buffer still holds and the events to come, so a read may return fewer bytes than were asked for.
  \<^item> What a socket accepts is a list of outcomes, one per write; a write that fails may have sent the
    first bytes. After the list every write succeeds.
  \<^item> Connecting is an outcome as well. The scaling of a delay by the \<^verbatim>\<open>f64\<close> factor of the monitor is
    the parameter \<open>scale\<close>, \<open>None\<close> where \<^verbatim>\<open>Duration::from_secs_f64\<close> panics.
\<close>

unbundle bit_operations_syntax

datatype io_error = UnexpectedEof | TimedOut | InvalidData string | InvalidInput string
  | ConnectionAborted | OsError string

section \<open>Constants and message types\<close>

definition PROTOCOL_VERSION :: u8 where "PROTOCOL_VERSION = 1"
definition MAX_PAYLOAD_LEN :: usize where "MAX_PAYLOAD_LEN = 1024 * 1024"
definition MAX_NAME_LEN :: usize where "MAX_NAME_LEN = 1024"
definition DEFAULT_IO_TIMEOUT :: duration where "DEFAULT_IO_TIMEOUT = secs 5"

datatype MessageType = UserFrame | ResolveFrame | PingFrame

definition MessageType_code :: "MessageType \<Rightarrow> u8" where
  "MessageType_code mt = (case mt of UserFrame \<Rightarrow> 0 | ResolveFrame \<Rightarrow> 1 | PingFrame \<Rightarrow> 2)"

definition MessageType_try_from :: "u8 \<Rightarrow> MessageType option" where
  "MessageType_try_from b =
     (if b = 0 then Some UserFrame else if b = 1 then Some ResolveFrame
      else if b = 2 then Some PingFrame else None)"

text \<open>\<^verbatim>\<open>to_be_bytes\<close>, \<^verbatim>\<open>put_u64\<close>, \<^verbatim>\<open>put_u32\<close> and \<^verbatim>\<open>from_be_bytes\<close>\<close>

definition to_be_bytes :: "nat \<Rightarrow> 'a::len word \<Rightarrow> bytes" where
  "to_be_bytes k w = map (\<lambda>i. ucast (drop_bit (8 * i) w)) (rev [0..<k])"

definition from_be_bytes :: "bytes \<Rightarrow> 'a::len word" where
  "from_be_bytes bs = foldl (\<lambda>acc b. push_bit 8 acc OR ucast b) 0 bs"

text \<open>
  \<^verbatim>\<open>String::from_utf8\<close>: the well-formed sequences of one to four bytes (no overlong forms, no
  surrogates, nothing above U+10FFFF).
\<close>

definition cont_byte :: "u8 \<Rightarrow> bool" where
  "cont_byte b \<longleftrightarrow> 0x80 \<le> b \<and> b \<le> 0xBF"

fun utf8_second3 :: "u8 \<Rightarrow> u8 \<Rightarrow> bool" where
  "utf8_second3 a b =
     (if a = 0xE0 then 0xA0 \<le> b \<and> b \<le> 0xBF
      else if a = 0xED then 0x80 \<le> b \<and> b \<le> 0x9F
      else 0xE1 \<le> a \<and> a \<le> 0xEF \<and> cont_byte b)"

fun utf8_second4 :: "u8 \<Rightarrow> u8 \<Rightarrow> bool" where
  "utf8_second4 a b =
     (if a = 0xF0 then 0x90 \<le> b \<and> b \<le> 0xBF
      else if a = 0xF4 then 0x80 \<le> b \<and> b \<le> 0x8F
      else 0xF1 \<le> a \<and> a \<le> 0xF3 \<and> cont_byte b)"

fun valid_utf8 :: "bytes \<Rightarrow> bool" where
  "valid_utf8 [] = True"
| "valid_utf8 (a # bs) =
     (if a \<le> 0x7F then valid_utf8 bs
      else if 0xC2 \<le> a \<and> a \<le> 0xDF then
        (case bs of b # r \<Rightarrow> cont_byte b \<and> valid_utf8 r | _ \<Rightarrow> False)
      else if 0xE0 \<le> a \<and> a \<le> 0xEF then
        (case bs of b # c # r \<Rightarrow> utf8_second3 a b \<and> cont_byte c \<and> valid_utf8 r | _ \<Rightarrow> False)
      else
        (case bs of b # c # d # r \<Rightarrow> utf8_second4 a b \<and> cont_byte c \<and> cont_byte d \<and> valid_utf8 r | _ \<Rightarrow> False))"

definition string_of_bytes :: "bytes \<Rightarrow> string" where
  "string_of_bytes bs = map (\<lambda>b. char_of (unat b)) bs"

definition bytes_of_string :: "string \<Rightarrow> bytes" where
  "bytes_of_string s = map of_char s"

definition from_utf8 :: "bytes \<Rightarrow> string option" where
  "from_utf8 bs = (if valid_utf8 bs then Some (string_of_bytes bs) else None)"

section \<open>Sockets\<close>

datatype rx_event = Chunk bytes | ReadTimeout | ReadError string

type_synonym reader = "bytes \<times> rx_event list"

text \<open>One \<^verbatim>\<open>timeout(dur, reader.read(&mut buf)).await\<close> for \<open>n\<close> bytes.\<close>

fun read_some :: "nat \<Rightarrow> reader \<Rightarrow> (io_error + bytes) \<times> reader" where
  "read_some n (b # bs, es) = (Inr (take n (b # bs)), (drop n (b # bs), es))"
| "read_some n ([], []) = (Inr [], ([], []))"
| "read_some n ([], Chunk bs # es) = (Inr (take n bs), (drop n bs, es))"
| "read_some n ([], ReadTimeout # es) = (Inl TimedOut, ([], es))"
| "read_some n ([], ReadError e # es) = (Inl (OsError e), ([], es))"

lemma read_some_shrinks:
  assumes "read_some n r = (Inr bs, r')" and "bs \<noteq> []"
  shows "length bs \<le> n"
  using assms by (cases "(n, r)" rule: read_some.cases) auto

text \<open>The loop: \<open>n\<close> more bytes are wanted, \<open>acc\<close> is what \<^verbatim>\<open>buf[..offset]\<close> holds.\<close>

function read_loop :: "nat \<Rightarrow> bytes \<Rightarrow> reader \<Rightarrow> (io_error + bytes) \<times> reader" where
  "read_loop n acc r =
     (if n = 0 then (Inr acc, r)
      else case read_some n r of
             (Inl e, r') \<Rightarrow> (Inl e, r')
           | (Inr [], r') \<Rightarrow> (Inl UnexpectedEof, r')
           | (Inr (b # bs), r') \<Rightarrow> read_loop (n - length (b # bs)) (acc @ b # bs) r')"
  by pat_completeness auto
termination
  by (relation "measure fst") auto

declare read_loop.simps [simp del]

definition read_exact_with_timeout :: "nat \<Rightarrow> reader \<Rightarrow> (io_error + bytes) \<times> reader" where
  "read_exact_with_timeout n r = read_loop n [] r"

record writer =
  outcomes :: "(io_error \<times> nat) option list"
  written :: bytes

definition write_all_with_timeout :: "bytes \<Rightarrow> writer \<Rightarrow> (io_error + unit) \<times> writer" where
  "write_all_with_timeout bs w =
     (case outcomes w of
        Some (e, k) # os \<Rightarrow> (Inl e, w\<lparr>outcomes := os, written := written w @ take k bs\<rparr>)
      | None # os \<Rightarrow> (Inr (), w\<lparr>outcomes := os, written := written w @ bs\<rparr>)
      | [] \<Rightarrow> (Inr (), w\<lparr>written := written w @ bs\<rparr>))"

section \<open>The server's connection loop\<close>

text \<open>How many bytes a reader can still deliver: every round of the loop takes one at least.\<close>

fun chunk_bytes :: "rx_event list \<Rightarrow> nat" where
  "chunk_bytes [] = 0"
| "chunk_bytes (Chunk bs # es) = length bs + chunk_bytes es"
| "chunk_bytes (_ # es) = chunk_bytes es"

definition pending_bytes :: "reader \<Rightarrow> nat" where
  "pending_bytes r = length (fst r) + chunk_bytes (snd r)"

lemma read_some_pending:
  "read_some n r = (x, r') \<Longrightarrow> pending_bytes r' + (case x of Inr bs \<Rightarrow> length bs | Inl _ \<Rightarrow> 0) = pending_bytes r"
  by (cases "(n, r)" rule: read_some.cases) (auto simp: pending_bytes_def)

lemma read_loop_pending:
  "read_loop n acc r = (x, r') \<Longrightarrow>
     pending_bytes r' + (case x of Inr bs \<Rightarrow> length bs - length acc | Inl _ \<Rightarrow> 0) \<le> pending_bytes r
     \<and> (\<forall>bs. x = Inr bs \<longrightarrow> length bs = length acc + n)"
proof (induction n acc r arbitrary: x rule: read_loop.induct)
  case (1 n acc r)
  show ?case
  proof (cases "n = 0")
    case True
    with "1.prems" show ?thesis by (auto simp: read_loop.simps)
  next
    case False
    obtain y r1 where y: "read_some n r = (y, r1)" by (cases "read_some n r")
    note p = read_some_pending [OF y]
    show ?thesis
    proof (cases y)
      case (Inl e)
      with "1.prems" False y p show ?thesis by (auto simp: read_loop.simps [of n])
    next
      case (Inr bs)
      show ?thesis
      proof (cases bs)
        case Nil
        with Inr "1.prems" False y p show ?thesis by (auto simp: read_loop.simps [of n])
      next
        case (Cons b bs')
        have le: "length bs \<le> n" using read_some_shrinks [of n r bs r1] y Inr Cons by simp
        have r: "read_loop (n - length bs) (acc @ bs) r1 = (x, r')"
          using "1.prems" False y Inr Cons by (simp add: read_loop.simps [of n])
        have "pending_bytes r' + (case x of Inr cs \<Rightarrow> length cs - length (acc @ bs) | Inl _ \<Rightarrow> 0) \<le> pending_bytes r1
           \<and> (\<forall>cs. x = Inr cs \<longrightarrow> length cs = length (acc @ bs) + (n - length bs))"
          using "1.IH" [OF False y [symmetric] Inr Cons, folded Cons] r by blast
        with p Inr le show ?thesis by (auto split: sum.splits)
      qed
    qed
  qed
qed

lemma read_exact_pending:
  assumes "read_exact_with_timeout n r = (Inr bs, r')"
  shows "length bs = n" and "pending_bytes r' + n \<le> pending_bytes r"
  using read_loop_pending [of n "[]" r "Inr bs" r'] assms
  by (simp_all add: read_exact_with_timeout_def)

lemma read_exact_pending_le:
  "read_exact_with_timeout n r = (x, r') \<Longrightarrow> pending_bytes r' \<le> pending_bytes r"
  using read_loop_pending [of n "[]" r x r'] by (simp add: read_exact_with_timeout_def)

record conn =
  rd :: reader
  wr :: writer
  srv :: Runtime

text \<open>The three arms of the loop's \<^verbatim>\<open>match\<close>; an error is what \<^verbatim>\<open>?\<close> or \<^verbatim>\<open>return Err\<close> returns.\<close>

definition handle_user :: "conn \<Rightarrow> (io_error + unit) \<times> conn" where
  "handle_user c =
     (case read_exact_with_timeout 12 (rd c) of
        (Inl e, r) \<Rightarrow> (Inl e, c\<lparr>rd := r\<rparr>)
      | (Inr meta, r) \<Rightarrow>
          let p = from_be_bytes (take 8 meta) :: pid;
              len = ucast (from_be_bytes (drop 8 meta) :: u32) :: usize in
          if len > network_max_payload (srv c) then (Inl (InvalidData ''payload too large''), c\<lparr>rd := r\<rparr>)
          else (case read_exact_with_timeout (unat len) r of
                  (Inl e, r) \<Rightarrow> (Inl e, c\<lparr>rd := r\<rparr>)
                | (Inr data, r) \<Rightarrow> (Inr (), c\<lparr>rd := r, srv := snd (Runtime_send p (User data) (srv c))\<rparr>)))"

definition handle_resolve :: "conn \<Rightarrow> (io_error + unit) \<times> conn" where
  "handle_resolve c =
     (case read_exact_with_timeout 4 (rd c) of
        (Inl e, r) \<Rightarrow> (Inl e, c\<lparr>rd := r\<rparr>)
      | (Inr len_buf, r) \<Rightarrow>
          let len = ucast (from_be_bytes len_buf :: u32) :: usize in
          if len > network_max_name_len (srv c) then (Inl (InvalidData ''resolve name too long''), c\<lparr>rd := r\<rparr>)
          else (case read_exact_with_timeout (unat len) r of
                  (Inl e, r) \<Rightarrow> (Inl e, c\<lparr>rd := r\<rparr>)
                | (Inr name_vec, r) \<Rightarrow>
                    (case from_utf8 name_vec of
                       None \<Rightarrow> (Inl (InvalidData ''invalid utf8 in resolve request''), c\<lparr>rd := r\<rparr>)
                     | Some name \<Rightarrow>
                         let p = (case Runtime_resolve (srv c) name of Some p \<Rightarrow> p | None \<Rightarrow> 0);
                             (res, w) = write_all_with_timeout (to_be_bytes 8 p) (wr c)
                         in (res, c\<lparr>rd := r, wr := w\<rparr>))))"

definition handle_ping :: "conn \<Rightarrow> (io_error + unit) \<times> conn" where
  "handle_ping c = (let (res, w) = write_all_with_timeout [3] (wr c) in (res, c\<lparr>wr := w\<rparr>))"

definition handle_frame :: "MessageType \<Rightarrow> conn \<Rightarrow> (io_error + unit) \<times> conn" where
  "handle_frame mt c =
     (case mt of UserFrame \<Rightarrow> handle_user c | ResolveFrame \<Rightarrow> handle_resolve c | PingFrame \<Rightarrow> handle_ping c)"

lemma handle_frame_pending:
  assumes "handle_frame mt c = (x, c')"
  shows "pending_bytes (rd c') \<le> pending_bytes (rd c)"
  using assms
  by (auto simp: handle_frame_def handle_user_def handle_resolve_def handle_ping_def Let_def
      split: MessageType.splits prod.splits sum.splits if_splits option.splits
      dest!: read_exact_pending_le intro: order_trans)

function handle_loop :: "conn \<Rightarrow> (io_error + unit) \<times> conn" where
  "handle_loop c =
     (case read_exact_with_timeout 1 (rd c) of
        (Inl _, r) \<Rightarrow> (Inr (), c\<lparr>rd := r\<rparr>)
      | (Inr header, r) \<Rightarrow>
          (case MessageType_try_from (hd header) of
             None \<Rightarrow> (Inl (InvalidData ''unknown message type''), c\<lparr>rd := r\<rparr>)
           | Some mt \<Rightarrow>
               (case handle_frame mt (c\<lparr>rd := r\<rparr>) of
                  (Inl e, c') \<Rightarrow> (Inl e, c')
                | (Inr _, c') \<Rightarrow> handle_loop c')))"
  by pat_completeness auto
termination
proof (relation "measure (\<lambda>c. pending_bytes (rd c))")
  fix c y r header mt z c' u
  assume r: "(y, r) = read_exact_with_timeout 1 (rd c)" and y: "y = Inr header"
    and f: "(z, c') = handle_frame mt (c\<lparr>rd := r\<rparr>)"
  from read_exact_pending(2) [of 1 "rd c" header r] r y have "pending_bytes r < pending_bytes (rd c)" by simp
  with handle_frame_pending [OF f [symmetric]] show "(c', c) \<in> measure (\<lambda>c. pending_bytes (rd c))" by simp
qed simp

declare handle_loop.simps [simp del]

definition handle_connection :: "conn \<Rightarrow> (io_error + unit) \<times> conn" where
  "handle_connection c =
     (case read_exact_with_timeout 1 (rd c) of
        (Inl e, r) \<Rightarrow> (Inl e, c\<lparr>rd := r\<rparr>)
      | (Inr version, r) \<Rightarrow>
          if hd version \<noteq> PROTOCOL_VERSION
          then (Inl (InvalidData ''protocol version mismatch''), c\<lparr>rd := r\<rparr>)
          else handle_loop (c\<lparr>rd := r\<rparr>))"

section \<open>The client calls\<close>

text \<open>The \<^verbatim>\<open>?\<close> after a write.\<close>

definition after_write ::
    "(io_error + unit) \<times> writer \<Rightarrow> (writer \<Rightarrow> (io_error + 'a) \<times> writer) \<Rightarrow> (io_error + 'a) \<times> writer" where
  "after_write x k = (case x of (Inl e, w) \<Rightarrow> (Inl e, w) | (Inr _, w) \<Rightarrow> k w)"

text \<open>\<open>dial\<close> is the outcome of \<^verbatim>\<open>timeout(io_timeout, TcpStream::connect(addr)).await??\<close>.\<close>

definition resolve_remote ::
    "io_error option \<Rightarrow> string \<Rightarrow> Runtime \<Rightarrow> writer \<Rightarrow> reader \<Rightarrow> (io_error + pid) \<times> writer" where
  "resolve_remote dial name R w r =
     (case dial of
        Some e \<Rightarrow> (Inl e, w)
      | None \<Rightarrow>
          after_write (write_all_with_timeout [PROTOCOL_VERSION] w) (\<lambda>w.
          after_write (write_all_with_timeout [MessageType_code ResolveFrame] w) (\<lambda>w.
            let name_bytes = bytes_of_string name in
            if length name_bytes > unat (network_max_name_len R) then (Inl (InvalidInput ''name too long''), w)
            else
              after_write (write_all_with_timeout (to_be_bytes 4 (of_nat (length name_bytes) :: u32)) w) (\<lambda>w.
              after_write (write_all_with_timeout name_bytes w) (\<lambda>w.
                (case read_exact_with_timeout 8 r of
                   (Inl e, _) \<Rightarrow> (Inl e, w)
                 | (Inr pid_buf, _) \<Rightarrow> (Inr (from_be_bytes pid_buf), w)))))))"

definition Runtime_resolve_remote_async ::
    "io_error option \<Rightarrow> string \<Rightarrow> Runtime \<Rightarrow> writer \<Rightarrow> reader \<Rightarrow> pid option" where
  "Runtime_resolve_remote_async dial name R w r =
     (case fst (resolve_remote dial name R w r) of
        Inr p \<Rightarrow> if p = 0 then None else Some p
      | Inl _ \<Rightarrow> None)"

text \<open>The bytes of a user frame.\<close>

definition encode_user :: "pid \<Rightarrow> bytes \<Rightarrow> bytes" where
  "encode_user p data =
     MessageType_code UserFrame # to_be_bytes 8 p @ to_be_bytes 4 (of_nat (length data) :: u32) @ data"

text \<open>
  The pool. A peer is the queue of its channel, whether the task that drains it still runs, and the
  bytes the task has written to its socket.
\<close>

record peer =
  pqueue :: "bytes list"
  popen :: bool
  psent :: bytes

record pool =
  PEER_POOL :: "string \<rightharpoonup> addr"
  peers :: "addr \<Rightarrow> peer"
  next_peer :: addr

definition get_or_connect_peer ::
    "io_error option \<Rightarrow> io_error option \<Rightarrow> string \<Rightarrow> pool \<Rightarrow> (io_error + addr) \<times> pool" where
  "get_or_connect_peer dial hello a P =
     (case PEER_POOL P a of
        Some i \<Rightarrow> (Inr i, P)
      | None \<Rightarrow>
          (case dial of
             Some e \<Rightarrow> (Inl e, P)
           | None \<Rightarrow>
               (case hello of
                  Some e \<Rightarrow> (Inl e, P)
                | None \<Rightarrow>
                    let i = next_peer P in
                    (Inr i, P\<lparr>PEER_POOL := (PEER_POOL P)(a \<mapsto> i), next_peer := i + 1,
                       peers := (peers P)(i := \<lparr>pqueue = [], popen = True, psent = [PROTOCOL_VERSION]\<rparr>)\<rparr>))))"

text \<open>\<^verbatim>\<open>sender.send(msg).await\<close> once it has completed.\<close>

definition peer_send :: "addr \<Rightarrow> bytes \<Rightarrow> pool \<Rightarrow> bool \<times> pool" where
  "peer_send i msg P =
     (if popen (peers P i)
      then (True, P\<lparr>peers := (peers P)(i := (peers P i)\<lparr>pqueue := pqueue (peers P i) @ [msg]\<rparr>)\<rparr>)
      else (False, P))"

definition send_remote ::
    "io_error option \<times> io_error option \<Rightarrow> io_error option \<times> io_error option \<Rightarrow> Runtime
       \<Rightarrow> string \<Rightarrow> pid \<Rightarrow> bytes \<Rightarrow> pool \<Rightarrow> (io_error + unit) \<times> pool" where
  "send_remote try1 try2 R a p data P =
     (if length data > unat (network_max_payload R) then (Inl (InvalidInput ''payload too large''), P)
      else
        let msg = encode_user p data in
        (case get_or_connect_peer (fst try1) (snd try1) a P of
           (Inl e, P) \<Rightarrow> (Inl e, P)
         | (Inr i, P) \<Rightarrow>
             (case peer_send i msg P of
                (True, P) \<Rightarrow> (Inr (), P)
              | (False, P) \<Rightarrow>
                  let P = P\<lparr>PEER_POOL := (PEER_POOL P)(a := None)\<rparr> in
                  (case get_or_connect_peer (fst try2) (snd try2) a P of
                     (Inl e, P) \<Rightarrow> (Inl e, P)
                   | (Inr j, P) \<Rightarrow>
                       (case peer_send j msg P of
                          (True, P) \<Rightarrow> (Inr (), P)
                        | (False, P) \<Rightarrow> (Inl ConnectionAborted, P))))))"

text \<open>One round of a peer's task: a message written, or the task ended and its entry removed.\<close>

definition peer_round :: "(io_error \<times> nat) option \<Rightarrow> string \<Rightarrow> addr \<Rightarrow> pool \<Rightarrow> pool" where
  "peer_round out a i P =
     (case pqueue (peers P i) of
        [] \<Rightarrow> P
      | msg # rest \<Rightarrow>
          (case out of
             None \<Rightarrow> P\<lparr>peers := (peers P)(i := (peers P i)\<lparr>pqueue := rest, psent := psent (peers P i) @ msg\<rparr>)\<rparr>
           | Some (_, k) \<Rightarrow> P\<lparr>peers := (peers P)(i := (peers P i)\<lparr>pqueue := [], popen := False,
                              psent := psent (peers P i) @ take k msg\<rparr>),
                         PEER_POOL := (PEER_POOL P)(a := None)\<rparr>))"

section \<open>The heartbeat monitor\<close>

record monitor =
  curr :: duration
  base :: duration
  factor :: f64
  max_backoff :: duration
  threshold :: usize
  failures :: usize

definition millis :: "u64 \<Rightarrow> duration" where
  "millis ms = unat ms * 1000000"

definition monitor_start :: "u64 \<Rightarrow> Runtime \<Rightarrow> monitor" where
  "monitor_start interval_ms R =
     \<lparr>curr = millis interval_ms, base = millis interval_ms, factor = monitor_backoff_factor R,
      max_backoff = monitor_backoff_max R, threshold = monitor_failure_threshold R, failures = 0\<rparr>"

text \<open>One probe: connect, say the version, ping, and read the pong.\<close>

definition probe :: "io_error option \<Rightarrow> writer \<Rightarrow> reader \<Rightarrow> bool" where
  "probe dial w r =
     (case dial of
        Some _ \<Rightarrow> False
      | None \<Rightarrow>
          (case write_all_with_timeout [PROTOCOL_VERSION] w of
             (Inl _, _) \<Rightarrow> False
           | (Inr _, w) \<Rightarrow>
               (case write_all_with_timeout [MessageType_code PingFrame] w of
                  (Inl _, _) \<Rightarrow> False
                | (Inr _, w) \<Rightarrow>
                    (case read_exact_with_timeout 1 r of
                       (Inl _, _) \<Rightarrow> False
                     | (Inr pong, _) \<Rightarrow> hd pong = 3))))"

text \<open>
  The loop. The check at the head of a round and what follows the probe happen at different times;
  \<open>None\<close> says that the loop has ended.
\<close>

definition monitor_check :: "pid \<Rightarrow> Runtime \<Rightarrow> bool" where
  "monitor_check p R = Runtime_is_alive R p"

datatype verdict = Continue monitor | NodeDown | MonitorPanic

definition monitor_verdict ::
    "(f64 \<Rightarrow> duration \<Rightarrow> duration option) \<Rightarrow> bool \<Rightarrow> monitor \<Rightarrow> verdict" where
  "monitor_verdict scale up m =
     (if \<not> up then
        let m = m\<lparr>failures := failures m + 1\<rparr> in
        if failures m \<ge> threshold m then NodeDown
        else (case scale (factor m) (curr m) of
                None \<Rightarrow> MonitorPanic
              | Some next \<Rightarrow> Continue (m\<lparr>curr := (if next > max_backoff m then max_backoff m else next)\<rparr>))
      else Continue (m\<lparr>failures := 0, curr := base m\<rparr>))"

definition monitor_apply :: "pid list \<Rightarrow> pid \<Rightarrow> verdict \<Rightarrow> Runtime \<Rightarrow> Runtime" where
  "monitor_apply ks p v R =
     (case v of NodeDown \<Rightarrow> sup_notify ks 0 p (Runtime_stop p R) | _ \<Rightarrow> R)"

text \<open>
  The loop over rounds: \<open>env\<close> is what the rest of the system does while the monitor sleeps and probes,
  \<open>up\<close> the answer of the probe. The result is the monitor if it still runs, the number of probes, and
  the runtime.
\<close>

fun monitor_loop ::
    "(f64 \<Rightarrow> duration \<Rightarrow> duration option) \<Rightarrow> pid list \<Rightarrow> pid \<Rightarrow> ((Runtime \<Rightarrow> Runtime) \<times> bool) list
       \<Rightarrow> monitor \<Rightarrow> Runtime \<Rightarrow> monitor option \<times> nat \<times> Runtime" where
  "monitor_loop scale ks p [] m R = (Some m, 0, R)"
| "monitor_loop scale ks p ((env, up) # rounds) m R =
     (if \<not> monitor_check p R then (None, 0, R)
      else
        let R = env R in
        (case monitor_verdict scale up m of
           Continue m' \<Rightarrow>
             (case monitor_loop scale ks p rounds m' R of (x, n, R') \<Rightarrow> (x, Suc n, R'))
         | v \<Rightarrow> (None, 1, monitor_apply ks p v R)))"

definition monitor_remote ::
    "(f64 \<Rightarrow> duration \<Rightarrow> duration option) \<Rightarrow> pid list \<Rightarrow> pid \<Rightarrow> u64 \<Rightarrow> ((Runtime \<Rightarrow> Runtime) \<times> bool) list
       \<Rightarrow> Runtime \<Rightarrow> monitor option \<times> nat \<times> Runtime" where
  "monitor_remote scale ks p interval_ms rounds R =
     monitor_loop scale ks p rounds (monitor_start interval_ms R) R"

text \<open>The runtime's entry point runs it in a task of its own.\<close>

definition Runtime_monitor_remote ::
    "(f64 \<Rightarrow> duration \<Rightarrow> duration option) \<Rightarrow> pid list \<Rightarrow> pid \<Rightarrow> ((Runtime \<Rightarrow> Runtime) \<times> bool) list
       \<Rightarrow> Runtime \<Rightarrow> monitor option \<times> nat \<times> Runtime" where
  "Runtime_monitor_remote scale ks p rounds R = monitor_remote scale ks p 1000 rounds R"

section \<open>Encoding\<close>

lemma to_be_Suc: "to_be_bytes (Suc k) w = to_be_bytes k (drop_bit 8 w) @ [ucast w]"
proof -
  have "[0..<Suc k] = 0 # map Suc [0..<k]" by (simp add: map_Suc_upt upt_conv_Cons)
  then show ?thesis by (simp add: to_be_bytes_def rev_map add.commute)
qed

lemma from_to_be: "from_be_bytes (to_be_bytes k w) = take_bit (8 * k) w"
proof (induction k arbitrary: w)
  case 0
  then show ?case by (simp add: from_be_bytes_def to_be_bytes_def)
next
  case (Suc k)
  have "from_be_bytes (to_be_bytes (Suc k) w) = push_bit 8 (take_bit (8 * k) (drop_bit 8 w)) OR ucast (ucast w :: u8)"
    using Suc.IH [of "drop_bit 8 w"] by (simp add: to_be_Suc from_be_bytes_def)
  also have "\<dots> = take_bit (8 * Suc k) w"
    by (rule bit_word_eqI) (auto simp: bit_simps)
  finally show ?case .
qed

lemma to_from_be:
  "8 * length bs \<le> LENGTH('a::len) \<Longrightarrow> to_be_bytes (length bs) (from_be_bytes bs :: 'a word) = bs"
proof (induction bs rule: rev_induct)
  case Nil
  show ?case by (simp add: to_be_bytes_def)
next
  case (snoc b bs)
  let ?x = "from_be_bytes bs :: 'a word" and ?k = "length bs"
  have w: "from_be_bytes (bs @ [b]) = push_bit 8 ?x OR ucast b" by (simp add: from_be_bytes_def)
  have "to_be_bytes ?k (drop_bit 8 (push_bit 8 ?x OR ucast b)) = to_be_bytes ?k ?x"
    unfolding to_be_bytes_def
  proof (rule map_cong [OF refl])
    fix i assume "i \<in> set (rev [0..<?k])"
    then have "8 * Suc i \<le> 8 * ?k" by simp
    with snoc.prems have i: "8 * i + 16 \<le> LENGTH('a)" by simp
    show "ucast (drop_bit (8 * i) (drop_bit 8 (push_bit 8 ?x OR ucast b))) = (ucast (drop_bit (8 * i) ?x) :: u8)"
      by (rule bit_word_eqI) (use i in \<open>auto simp: bit_simps dest: bit_imp_le_length\<close>)
  qed
  moreover have "ucast (push_bit 8 ?x OR ucast b) = b"
    by (rule bit_word_eqI) (use snoc.prems in \<open>auto simp: bit_simps\<close>)
  ultimately show ?case using snoc by (simp add: to_be_Suc w)
qed

lemma from_to_be_8 [simp]: "from_be_bytes (to_be_bytes 8 (w :: u64)) = w"
  by (simp add: from_to_be take_bit_word_eq_self)

lemma from_to_be_4 [simp]: "from_be_bytes (to_be_bytes 4 (w :: u32)) = w"
  by (simp add: from_to_be take_bit_word_eq_self)

lemma length_to_be [simp]: "length (to_be_bytes k w) = k"
  by (simp add: to_be_bytes_def)

lemma length_field:
  assumes "n < 2 ^ 32"
  shows "unat (ucast (of_nat n :: u32) :: usize) = n"
  using assms by (simp add: unsigned_ucast_eq take_bit_nat_eq_self unat_of_nat)

lemma string_of_bytes_of_string [simp]: "string_of_bytes (bytes_of_string s) = s"
proof -
  have "char_of (unat (of_char c :: u8)) = c" for c
  proof -
    have "(of_char c :: u8) = of_nat (of_char c)" by (rule of_nat_of_char [symmetric])
    moreover have "unat (of_nat (of_char c) :: u8) = take_bit 8 (of_char c)"
      unfolding unsigned_of_nat by simp
    ultimately have "unat (of_char c :: u8) = take_bit 8 (of_char c)" by metis
    then show ?thesis by (simp add: char_of_take_bit_eq)
  qed
  then show ?thesis by (induction s) (simp_all add: string_of_bytes_def bytes_of_string_def)
qed

lemma length_limit: "(ucast (l :: u32) :: usize) > m \<longleftrightarrow> unat l > unat m" "unat (ucast (l :: u32) :: usize) = unat l"
proof -
  show l: "unat (ucast l :: usize) = unat l"
    by (simp add: unsigned_ucast_eq take_bit_nat_eq_self less_trans [OF unsigned_less])
  show "(ucast l :: usize) > m \<longleftrightarrow> unat l > unat m" by (simp add: word_less_nat_alt l)
qed

lemma bytes_of_string_of_bytes [simp]: "bytes_of_string (string_of_bytes bs) = bs"
proof -
  have "(of_char (char_of (unat b)) :: u8) = b" for b :: u8
  proof -
    have "(of_char (char_of (unat b)) :: u8) = of_nat (of_char (char_of (unat b)))" by (rule of_nat_of_char [symmetric])
    also have "\<dots> = of_nat (unat b mod 256)" by simp
    also have "\<dots> = b" using unsigned_less [of b, where 'a = nat] by simp
    finally show ?thesis .
  qed
  then show ?thesis by (induction bs) (simp_all add: string_of_bytes_def bytes_of_string_def)
qed

section \<open>Reading does not depend on how the bytes were cut\<close>

text \<open>What a reader will deliver up to its first obstacle, and the obstacle.\<close>

fun ahead :: "rx_event list \<Rightarrow> bytes" where
  "ahead (Chunk (b # bs) # es) = b # bs @ ahead es"
| "ahead _ = []"

fun obstacle :: "rx_event list \<Rightarrow> io_error" where
  "obstacle (Chunk (b # bs) # es) = obstacle es"
| "obstacle (ReadTimeout # es) = TimedOut"
| "obstacle (ReadError e # es) = OsError e"
| "obstacle _ = UnexpectedEof"

definition stream :: "reader \<Rightarrow> bytes" where
  "stream r = fst r @ ahead (snd r)"

definition stop :: "reader \<Rightarrow> io_error" where
  "stop r = obstacle (snd r)"

lemma read_some_cases:
  assumes "0 < n" and "read_some n r = (x, r')"
  shows "(\<exists>b bs. x = Inr (b # bs) \<and> length (b # bs) \<le> n \<and> stream r = (b # bs) @ stream r' \<and> stop r' = stop r)
    \<or> (stream r = [] \<and> (x = Inr [] \<and> stop r = UnexpectedEof \<or> x = Inl (stop r)))"
proof -
  have cut: "\<exists>c cs. take n (b # bs) = c # cs \<and> length (c # cs) \<le> n \<and> b # bs = (c # cs) @ drop n (b # bs)"
    for b :: u8 and bs
  proof -
    have "take n (b # bs) \<noteq> []" using assms(1) by simp
    then obtain c cs where "take n (b # bs) = c # cs" by (meson neq_Nil_conv)
    with append_take_drop_id [of n "b # bs"] length_take [of n "b # bs"] show ?thesis by auto
  qed
  show ?thesis
  proof (cases "(n, r)" rule: read_some.cases)
    case (1 m b bs es)
    obtain c cs where c: "take n (b # bs) = c # cs" "length (c # cs) \<le> n" "b # bs = (c # cs) @ drop n (b # bs)"
      using cut by blast
    with 1 assms(2) have "x = Inr (c # cs)" "r' = (drop n (b # bs), es)" "r = (b # bs, es)" by simp_all
    with c show ?thesis by (simp add: stream_def stop_def del: append_Cons)
  next
    case (3 m bs es)
    show ?thesis
    proof (cases bs)
      case Nil
      with 3 assms(2) show ?thesis by (simp add: stream_def stop_def)
    next
      case (Cons b ds)
      obtain c cs where c: "take n (b # ds) = c # cs" "length (c # cs) \<le> n" "b # ds = (c # cs) @ drop n (b # ds)"
        using cut by blast
      with 3 Cons assms(2) have "x = Inr (c # cs)" "r' = (drop n (b # ds), es)" "r = ([], Chunk (b # ds) # es)"
        by simp_all
      with c show ?thesis by (simp add: stream_def stop_def del: append_Cons)
    qed
  qed (use assms(2) in \<open>auto simp: stream_def stop_def\<close>)
qed

lemma read_loop_stream:
  assumes "read_loop n acc r = (x, r')"
  shows "(n \<le> length (stream r) \<longrightarrow> x = Inr (acc @ take n (stream r)) \<and> stream r' = drop n (stream r) \<and> stop r' = stop r)
    \<and> (length (stream r) < n \<longrightarrow> x = Inl (stop r))"
  using assms
proof (induction n acc r arbitrary: x rule: read_loop.induct)
  case (1 n acc r)
  show ?case
  proof (cases "n = 0")
    case True
    with "1.prems" show ?thesis by (auto simp: read_loop.simps)
  next
    case False
    obtain y r1 where y: "read_some n r = (y, r1)" by (cases "read_some n r")
    from False read_some_cases [OF _ y] consider
      (some) b bs where "y = Inr (b # bs)" "length (b # bs) \<le> n" "stream r = (b # bs) @ stream r1" "stop r1 = stop r"
      | (eof) "stream r = []" "y = Inr []" "stop r = UnexpectedEof" | (err) "stream r = []" "y = Inl (stop r)"
      by blast
    then show ?thesis
    proof cases
      case some
      from "1.prems" False y some(1) have "read_loop (n - length (b # bs)) (acc @ b # bs) r1 = (x, r')"
        by (simp add: read_loop.simps [of n])
      note ih = "1.IH" [OF False y [symmetric] some(1) refl this]
      have "take n (stream r) = (b # bs) @ take (n - length (b # bs)) (stream r1)"
        "drop n (stream r) = drop (n - length (b # bs)) (stream r1)"
        unfolding some(3) take_append drop_append using some(2) by (simp_all only: take_all drop_all append_Nil)
      moreover have "length (stream r) = length (b # bs) + length (stream r1)" unfolding some(3) by simp
      ultimately show ?thesis using ih some(2,4) by auto
    qed (use "1.prems" False y in \<open>auto simp: read_loop.simps [of n]\<close>)
  qed
qed

lemma read_exact_ok:
  assumes "stream r = bs @ rest" and "length bs = n"
  obtains r' where "read_exact_with_timeout n r = (Inr bs, r')" "stream r' = rest" "stop r' = stop r"
proof -
  obtain x r' where x: "read_loop n [] r = (x, r')" by (cases "read_loop n [] r")
  from read_loop_stream [OF x] assms have "x = Inr bs" "stream r' = rest" "stop r' = stop r" by auto
  with x show thesis by (intro that [of r']) (simp_all add: read_exact_with_timeout_def)
qed

lemma read_exact_short:
  assumes "length (stream r) < n"
  obtains r' where "read_exact_with_timeout n r = (Inl (stop r), r')"
proof -
  obtain x r' where x: "read_loop n [] r = (x, r')" by (cases "read_loop n [] r")
  with read_loop_stream [OF x] assms show thesis by (intro that) (simp add: read_exact_with_timeout_def)
qed

section \<open>Frames\<close>

lemma new_limits:
  "network_max_payload Runtime_new = MAX_PAYLOAD_LEN" "network_max_name_len Runtime_new = MAX_NAME_LEN"
  "network_io_timeout Runtime_new = DEFAULT_IO_TIMEOUT"
  "unat MAX_PAYLOAD_LEN = 1048576" "unat MAX_NAME_LEN = 1024"
  by (simp_all add: Runtime_new_def MAX_PAYLOAD_LEN_def MAX_NAME_LEN_def DEFAULT_IO_TIMEOUT_def)

datatype frame = FUser pid bytes | FResolve string | FPing

fun encode :: "frame \<Rightarrow> bytes" where
  "encode (FUser p data) = encode_user p data"
| "encode (FResolve name) = MessageType_code ResolveFrame
     # to_be_bytes 4 (of_nat (length (bytes_of_string name)) :: u32) @ bytes_of_string name"
| "encode FPing = [MessageType_code PingFrame]"

text \<open>A frame within the limits of a node. The length field has 32 bits; a Rust string is valid UTF-8.\<close>

fun fits :: "Runtime \<Rightarrow> frame \<Rightarrow> bool" where
  "fits R (FUser p data) = (length data \<le> unat (network_max_payload R) \<and> length data < 2 ^ 32)"
| "fits R (FResolve name) = (length name \<le> unat (network_max_name_len R) \<and> length name < 2 ^ 32
     \<and> valid_utf8 (bytes_of_string name))"
| "fits R FPing = True"

text \<open>What serving a frame means: the runtime afterwards, and the bytes of the answer.\<close>

fun deliver :: "frame \<Rightarrow> Runtime \<Rightarrow> Runtime" where
  "deliver (FUser p data) R = snd (Runtime_send p (User data) R)"
| "deliver _ R = R"

fun answer :: "Runtime \<Rightarrow> frame \<Rightarrow> bytes" where
  "answer R (FUser p data) = []"
| "answer R (FResolve name) = to_be_bytes 8 (case Runtime_resolve R name of Some p \<Rightarrow> p | None \<Rightarrow> 0)"
| "answer R FPing = [3]"

lemma deliver_frame [simp]:
  "registry (deliver f R) = registry R" "network_max_payload (deliver f R) = network_max_payload R"
  "network_max_name_len (deliver f R) = network_max_name_len R"
  by (cases f; simp add: Runtime_send_def split: option.split prod.split)+

lemma fits_deliver [simp]: "fits (deliver f R) = fits R" "answer (deliver f R) = answer R"
proof -
  show "fits (deliver f R) = fits R"
  proof
    fix g show "fits (deliver f R) g = fits R g" by (cases g) simp_all
  qed
  show "answer (deliver f R) = answer R"
  proof
    fix g show "answer (deliver f R) g = answer R g" by (cases g) (simp_all add: Runtime_resolve_def)
  qed
qed

lemma length_bytes_of_string [simp]: "length (bytes_of_string s) = length s"
  by (simp add: bytes_of_string_def)

lemma write_free: "outcomes w = [] \<Longrightarrow> write_all_with_timeout bs w = (Inr (), w\<lparr>written := written w @ bs\<rparr>)"
  by (simp add: write_all_with_timeout_def)

lemma split_meta:
  "take 8 (to_be_bytes 8 (p :: pid) @ to_be_bytes 4 (l :: u32)) = to_be_bytes 8 p"
  "drop 8 (to_be_bytes 8 (p :: pid) @ to_be_bytes 4 (l :: u32)) = to_be_bytes 4 l"
  by simp_all

lemma payload_limit:
  assumes "n < 2 ^ 32"
  shows "(ucast (of_nat n :: u32) :: usize) > m \<longleftrightarrow> n > unat m"
  using length_field [OF assms] by (simp add: word_less_nat_alt)

lemma handle_user_ok:
  assumes "stream (rd c) = to_be_bytes 8 p @ to_be_bytes 4 (of_nat (length data) :: u32) @ data @ rest"
    and "fits (srv c) (FUser p data)"
  obtains r where "handle_user c = (Inr (), c\<lparr>rd := r, srv := deliver (FUser p data) (srv c)\<rparr>)"
    and "stream r = rest" and "stop r = stop (rd c)"
proof -
  let ?meta = "to_be_bytes 8 p @ to_be_bytes 4 (of_nat (length data) :: u32)"
  have s: "stream (rd c) = ?meta @ (data @ rest)" "length ?meta = 12" using assms(1) by simp_all
  obtain r1 where r1: "read_exact_with_timeout 12 (rd c) = (Inr ?meta, r1)" "stream r1 = data @ rest" "stop r1 = stop (rd c)"
    by (rule read_exact_ok [OF s])
  obtain r2 where r2: "read_exact_with_timeout (length data) r1 = (Inr data, r2)" "stream r2 = rest" "stop r2 = stop r1"
    by (rule read_exact_ok [OF r1(2) refl])
  have len: "length data < 2 ^ 32" "\<not> length data > unat (network_max_payload (srv c))" using assms(2) by simp_all
  have "handle_user c = (Inr (), c\<lparr>rd := r2, srv := deliver (FUser p data) (srv c)\<rparr>)"
    unfolding handle_user_def r1(1) using r2(1) len payload_limit [OF len(1)] length_field [OF len(1)]
    by (simp add: Let_def split_meta del: of_nat_numeral)
  with r1 r2 show thesis by (intro that [of r2]) simp_all
qed

lemma handle_resolve_ok:
  assumes "stream (rd c) = to_be_bytes 4 (of_nat (length name) :: u32) @ bytes_of_string name @ rest"
    and "fits (srv c) (FResolve name)" and "outcomes (wr c) = []"
  obtains r where "handle_resolve c = (Inr (), c\<lparr>rd := r, wr := (wr c)\<lparr>written := written (wr c) @ answer (srv c) (FResolve name)\<rparr>\<rparr>)"
    and "stream r = rest" and "stop r = stop (rd c)"
proof -
  let ?len = "to_be_bytes 4 (of_nat (length name) :: u32)"
  obtain r1 where r1: "read_exact_with_timeout 4 (rd c) = (Inr ?len, r1)"
      "stream r1 = bytes_of_string name @ rest" "stop r1 = stop (rd c)"
    by (rule read_exact_ok [OF assms(1)]) simp_all
  obtain r2 where r2: "read_exact_with_timeout (length name) r1 = (Inr (bytes_of_string name), r2)"
      "stream r2 = rest" "stop r2 = stop r1"
    by (rule read_exact_ok [OF r1(2)]) simp_all
  have len: "length name < 2 ^ 32" "\<not> length name > unat (network_max_name_len (srv c))"
    and utf: "valid_utf8 (bytes_of_string name)" using assms(2) by simp_all
  have "handle_resolve c = (Inr (), c\<lparr>rd := r2, wr := (wr c)\<lparr>written := written (wr c) @ answer (srv c) (FResolve name)\<rparr>\<rparr>)"
    unfolding handle_resolve_def r1(1)
    using r2(1) len payload_limit [OF len(1)] length_field [OF len(1)] utf write_free [OF assms(3)]
    by (simp add: Let_def from_utf8_def)
  with r1 r2 show thesis by (intro that [of r2]) simp_all
qed

text \<open>One frame at the head of the stream, served.\<close>

lemma frame_handled:
  assumes "stream (rd c) = encode f @ rest" and "fits (srv c) f" and "outcomes (wr c) = []"
  obtains b mt r1 r where "read_exact_with_timeout (Suc 0) (rd c) = (Inr [b], r1)" and "MessageType_try_from b = Some mt"
    and "handle_frame mt (c\<lparr>rd := r1\<rparr>) = (Inr (), c\<lparr>rd := r, srv := deliver f (srv c),
       wr := (wr c)\<lparr>written := written (wr c) @ answer (srv c) f\<rparr>\<rparr>)"
    and "stream r = rest" and "stop r = stop (rd c)"
proof -
  define mt where "mt = (case f of FUser _ _ \<Rightarrow> UserFrame | FResolve _ \<Rightarrow> ResolveFrame | FPing \<Rightarrow> PingFrame)"
  obtain body where enc: "encode f = MessageType_code mt # body" and body: "body = tl (encode f)"
    by (cases f) (auto simp: mt_def encode_user_def)
  have s: "stream (rd c) = [MessageType_code mt] @ (body @ rest)" using assms(1) enc by simp
  obtain r1 where r1: "read_exact_with_timeout 1 (rd c) = (Inr [MessageType_code mt], r1)"
      "stream r1 = body @ rest" "stop r1 = stop (rd c)"
    by (rule read_exact_ok [OF s]) simp_all
  have mt: "MessageType_try_from (MessageType_code mt) = Some mt"
    by (cases mt) (simp_all add: MessageType_try_from_def MessageType_code_def)
  let ?c1 = "c\<lparr>rd := r1\<rparr>"
  have "\<exists>r. handle_frame mt ?c1 = (Inr (), c\<lparr>rd := r, srv := deliver f (srv c),
      wr := (wr c)\<lparr>written := written (wr c) @ answer (srv c) f\<rparr>\<rparr>) \<and> stream r = rest \<and> stop r = stop (rd c)"
  proof (cases f)
    case (FUser p data)
    have st: "stream (rd ?c1) = to_be_bytes 8 p @ to_be_bytes 4 (of_nat (length data) :: u32) @ data @ rest"
      using r1(2) body FUser by (simp add: encode_user_def)
    have "fits (srv ?c1) (FUser p data)" using assms(2) FUser by simp
    then obtain r where "handle_user ?c1 = (Inr (), ?c1\<lparr>rd := r, srv := deliver (FUser p data) (srv ?c1)\<rparr>)"
        "stream r = rest" "stop r = stop (rd ?c1)" by (rule handle_user_ok [OF st])
    with r1(3) FUser show ?thesis by (intro exI [of _ r]) (simp add: handle_frame_def mt_def)
  next
    case (FResolve name)
    have st: "stream (rd ?c1) = to_be_bytes 4 (of_nat (length name) :: u32) @ bytes_of_string name @ rest"
      using r1(2) body FResolve by simp
    have "fits (srv ?c1) (FResolve name)" "outcomes (wr ?c1) = []" using assms(2,3) FResolve by simp_all
    then obtain r where "handle_resolve ?c1 = (Inr (), ?c1\<lparr>rd := r, wr := (wr ?c1)\<lparr>written := written (wr ?c1) @ answer (srv ?c1) (FResolve name)\<rparr>\<rparr>)"
        "stream r = rest" "stop r = stop (rd ?c1)" by (rule handle_resolve_ok [OF st])
    with r1(3) FResolve show ?thesis by (intro exI [of _ r]) (simp add: handle_frame_def mt_def)
  next
    case FPing
    with r1 body write_free [OF assms(3)] show ?thesis
      by (intro exI [of _ r1]) (simp add: handle_frame_def mt_def handle_ping_def)
  qed
  with r1(1) mt that show thesis by (auto simp: One_nat_def)
qed

lemma handle_loop_frame:
  assumes "stream (rd c) = encode f @ rest" and "fits (srv c) f" and "outcomes (wr c) = []"
  obtains r where "stream r = rest" and "stop r = stop (rd c)"
    and "handle_loop c = handle_loop (c\<lparr>rd := r, srv := deliver f (srv c),
       wr := (wr c)\<lparr>written := written (wr c) @ answer (srv c) f\<rparr>\<rparr>)"
  by (rule frame_handled [OF assms], rule that) (simp_all add: handle_loop.simps [of c])

lemma handle_loop_frames:
  assumes "stream (rd c) = concat (map encode fs) @ rest" and "\<forall>f\<in>set fs. fits (srv c) f" and "outcomes (wr c) = []"
  shows "\<exists>r. stream r = rest \<and> stop r = stop (rd c)
    \<and> handle_loop c = handle_loop (c\<lparr>rd := r, srv := fold deliver fs (srv c),
       wr := (wr c)\<lparr>written := written (wr c) @ concat (map (answer (srv c)) fs)\<rparr>\<rparr>)"
  using assms
proof (induction fs arbitrary: c)
  case Nil
  then show ?case by (intro exI [of _ "rd c"]) simp
next
  case (Cons f fs)
  have s: "stream (rd c) = encode f @ (concat (map encode fs) @ rest)" using Cons.prems(1) by simp
  obtain r where r: "stream r = concat (map encode fs) @ rest" "stop r = stop (rd c)"
    "handle_loop c = handle_loop (c\<lparr>rd := r, srv := deliver f (srv c),
       wr := (wr c)\<lparr>written := written (wr c) @ answer (srv c) f\<rparr>\<rparr>)"
    by (rule handle_loop_frame [OF s _ Cons.prems(3)]) (use Cons.prems(2) in simp_all)
  let ?c = "c\<lparr>rd := r, srv := deliver f (srv c), wr := (wr c)\<lparr>written := written (wr c) @ answer (srv c) f\<rparr>\<rparr>"
  have "\<exists>r'. stream r' = rest \<and> stop r' = stop (rd ?c)
    \<and> handle_loop ?c = handle_loop (?c\<lparr>rd := r', srv := fold deliver fs (srv ?c),
       wr := (wr ?c)\<lparr>written := written (wr ?c) @ concat (map (answer (srv ?c)) fs)\<rparr>\<rparr>)"
    by (rule Cons.IH) (use Cons.prems(2,3) r(1) in simp_all)
  then obtain r' where r': "stream r' = rest" "stop r' = stop (rd ?c)"
    "handle_loop ?c = handle_loop (?c\<lparr>rd := r', srv := fold deliver fs (srv ?c),
       wr := (wr ?c)\<lparr>written := written (wr ?c) @ concat (map (answer (srv ?c)) fs)\<rparr>\<rparr>)" by blast
  show ?case by (rule exI [of _ r']) (use r(2,3) r' in simp)
qed

lemma handle_connection_frames:
  assumes "stream (rd c) = PROTOCOL_VERSION # concat (map encode fs) @ rest" and "\<forall>f\<in>set fs. fits (srv c) f"
    and "outcomes (wr c) = []"
  obtains r where "stream r = rest" and "stop r = stop (rd c)"
    and "handle_connection c = handle_loop (c\<lparr>rd := r, srv := fold deliver fs (srv c),
       wr := (wr c)\<lparr>written := written (wr c) @ concat (map (answer (srv c)) fs)\<rparr>\<rparr>)"
proof -
  have s: "stream (rd c) = [PROTOCOL_VERSION] @ (concat (map encode fs) @ rest)" using assms(1) by simp
  obtain r1 where r1: "read_exact_with_timeout 1 (rd c) = (Inr [PROTOCOL_VERSION], r1)"
      "stream r1 = concat (map encode fs) @ rest" "stop r1 = stop (rd c)"
    by (rule read_exact_ok [OF s]) simp_all
  let ?c = "c\<lparr>rd := r1\<rparr>"
  obtain r where r: "stream r = rest" "stop r = stop (rd ?c)"
    "handle_loop ?c = handle_loop (?c\<lparr>rd := r, srv := fold deliver fs (srv ?c),
       wr := (wr ?c)\<lparr>written := written (wr ?c) @ concat (map (answer (srv ?c)) fs)\<rparr>\<rparr>)"
    using handle_loop_frames [of ?c fs rest] assms(2,3) r1(2) by auto
  then show thesis by (intro that [of r]) (simp_all add: r1(3) r1(1) [unfolded One_nat_def] handle_connection_def)
qed

lemma handle_loop_end:
  assumes "stream (rd c) = []"
  obtains r where "handle_loop c = (Inr (), c\<lparr>rd := r\<rparr>)"
proof -
  obtain r where "read_exact_with_timeout 1 (rd c) = (Inl (stop (rd c)), r)"
    by (rule read_exact_short [of "rd c" 1]) (use assms in simp_all)
  then show thesis by (intro that [of r]) (simp add: handle_loop.simps [of c])
qed

lemma handle_loop_header:
  assumes "stream (rd c) = b # rest"
  obtains r where "read_exact_with_timeout (Suc 0) (rd c) = (Inr [b], r)" "stream r = rest" "stop r = stop (rd c)"
proof -
  have "stream (rd c) = [b] @ rest" "length [b] = Suc 0" using assms by simp_all
  then show thesis by (rule read_exact_ok) (rule that)
qed

lemma serves_frames:
  assumes "stream (rd c) = PROTOCOL_VERSION # concat (map encode fs)" and "\<forall>f\<in>set fs. fits (srv c) f"
    and "outcomes (wr c) = []"
  shows "\<exists>r. handle_connection c = (Inr (), c\<lparr>rd := r, srv := fold deliver fs (srv c),
     wr := (wr c)\<lparr>written := written (wr c) @ concat (map (answer (srv c)) fs)\<rparr>\<rparr>)"
proof -
  have "stream (rd c) = PROTOCOL_VERSION # concat (map encode fs) @ []" using assms(1) by simp
  then obtain r where r: "stream r = []"
    "handle_connection c = handle_loop (c\<lparr>rd := r, srv := fold deliver fs (srv c),
       wr := (wr c)\<lparr>written := written (wr c) @ concat (map (answer (srv c)) fs)\<rparr>\<rparr>)"
    by (rule handle_connection_frames [OF _ assms(2,3)])
  let ?c = "c\<lparr>rd := r, srv := fold deliver fs (srv c), wr := (wr c)\<lparr>written := written (wr c) @ concat (map (answer (srv c)) fs)\<rparr>\<rparr>"
  obtain r' where "handle_loop ?c = (Inr (), ?c\<lparr>rd := r'\<rparr>)"
    by (rule handle_loop_end [of ?c]) (use r(1) in simp_all)
  with r(2) show ?thesis by (intro exI [of _ r']) (cases c, simp)
qed

section \<open>The monitor\<close>

text \<open>Whether a run of answers, after \<open>k\<close> failures, ever makes \<open>n\<close> failures in a row.\<close>

fun outage :: "nat \<Rightarrow> nat \<Rightarrow> bool list \<Rightarrow> bool" where
  "outage n k [] = False"
| "outage n k (up # ups) = (if up then outage n 0 ups else n \<le> Suc k \<or> outage n (Suc k) ups)"

lemma outage_iff_replicate:
  assumes "k < n"
  shows "outage n k ups \<longleftrightarrow>
     (\<exists>zs. ups = replicate (n - k) False @ zs) \<or> (\<exists>xs zs. ups = xs @ replicate n False @ zs)"
  using assms
proof (induction ups arbitrary: k)
  case Nil
  then show ?case by auto
next
  case (Cons up ups)
  have shift: "(\<exists>xs zs. up # ups = xs @ replicate n False @ zs)
      \<longleftrightarrow> (\<exists>zs. up # ups = replicate n False @ zs) \<or> (\<exists>xs zs. ups = xs @ replicate n False @ zs)"
    by (metis append_Cons append_Nil list.exhaust list.inject)
  show ?case
  proof (cases up)
    case True
    from Cons.prems have "up # ups \<noteq> replicate n False @ zs" "up # ups \<noteq> replicate (n - k) False @ zs" for zs
      using True by (cases n; cases "n - k"; auto)+
    moreover have "(\<exists>zs. ups = replicate n False @ zs) \<longrightarrow> (\<exists>xs zs. ups = xs @ replicate n False @ zs)"
      by (metis append_Nil)
    ultimately show ?thesis using True Cons.IH [of 0] Cons.prems shift by auto
  next
    case False
    have rep: "replicate (n - k) False = False # replicate (n - Suc k) False"
      using Cons.prems by (metis Suc_diff_Suc replicate_Suc)
    have first: "(\<exists>zs. up # ups = replicate (n - k) False @ zs) \<longleftrightarrow> (\<exists>zs. ups = replicate (n - Suc k) False @ zs)"
      using False rep by simp
    have le: "(\<exists>zs. up # ups = replicate n False @ zs) \<longrightarrow> (\<exists>zs. up # ups = replicate (n - k) False @ zs)"
    proof
      assume "\<exists>zs. up # ups = replicate n False @ zs"
      moreover have "replicate n False = replicate (n - k) False @ replicate k False"
        using Cons.prems by (metis less_imp_le_nat le_add_diff_inverse2 replicate_add)
      ultimately show "\<exists>zs. up # ups = replicate (n - k) False @ zs" by auto
    qed
    show ?thesis
    proof (cases "n \<le> Suc k")
      case True
      with Cons.prems have "n - Suc k = 0" by simp
      with False True first show ?thesis by simp
    next
      case F: False
      with Cons.IH [of "Suc k"] False first le shift show ?thesis by auto
    qed
  qed
qed

definition in_a_row :: "nat \<Rightarrow> bool list \<Rightarrow> bool" where
  "in_a_row k ups \<longleftrightarrow> (\<exists>us vs. ups = us @ replicate k False @ vs)"

lemma outage_in_a_row: "outage (max 1 k) 0 ups \<longleftrightarrow> in_a_row (max 1 k) ups"
  using outage_iff_replicate [of 0 "max 1 k" ups] by (auto simp: in_a_row_def intro: exI [of _ "[]"])

definition monitor_wf :: "monitor \<Rightarrow> bool" where
  "monitor_wf m \<longleftrightarrow> unat (failures m) < max 1 (unat (threshold m)) \<and> curr m \<le> max (base m) (max_backoff m)"

lemma usize_Suc:
  assumes "unat (f :: usize) < max 1 (unat (t :: usize))"
  shows "unat (f + 1) = Suc (unat f)"
proof -
  have "unat t < 2 ^ LENGTH(64)" by (rule unsigned_less)
  with assms have "Suc (unat f) < 2 ^ 64" by (auto simp: max_def split: if_splits)
  then show ?thesis by (simp add: unat_word_ariths(1))
qed

lemma monitor_verdict_cases:
  assumes wf: "monitor_wf m" and ok: "\<forall>d \<le> max (base m) (max_backoff m). scale (factor m) d \<noteq> None"
  shows "\<exists>m'. monitor_verdict scale True m = Continue m' \<and> monitor_wf m' \<and> failures m' = 0
      \<and> threshold m' = threshold m \<and> factor m' = factor m \<and> base m' = base m \<and> max_backoff m' = max_backoff m"
    and "max 1 (unat (threshold m)) \<le> Suc (unat (failures m)) \<Longrightarrow> monitor_verdict scale False m = NodeDown"
    and "\<not> max 1 (unat (threshold m)) \<le> Suc (unat (failures m)) \<Longrightarrow>
      \<exists>m'. monitor_verdict scale False m = Continue m' \<and> monitor_wf m' \<and> unat (failures m') = Suc (unat (failures m))
        \<and> threshold m' = threshold m \<and> factor m' = factor m \<and> base m' = base m \<and> max_backoff m' = max_backoff m"
proof -
  have suc: "unat (failures m + 1) = Suc (unat (failures m))"
    using wf usize_Suc [of "failures m" "threshold m"] by (simp add: monitor_wf_def)
  have le: "threshold m \<le> failures m + 1 \<longleftrightarrow> max 1 (unat (threshold m)) \<le> Suc (unat (failures m))"
    by (simp add: word_le_nat_alt suc)
  show "\<exists>m'. monitor_verdict scale True m = Continue m' \<and> monitor_wf m' \<and> failures m' = 0
      \<and> threshold m' = threshold m \<and> factor m' = factor m \<and> base m' = base m \<and> max_backoff m' = max_backoff m"
    by (simp add: monitor_verdict_def monitor_wf_def)
  show "max 1 (unat (threshold m)) \<le> Suc (unat (failures m)) \<Longrightarrow> monitor_verdict scale False m = NodeDown"
    using le by (simp add: monitor_verdict_def Let_def)
  assume "\<not> max 1 (unat (threshold m)) \<le> Suc (unat (failures m))"
  moreover obtain d where "scale (factor m) (curr m) = Some d" using ok wf unfolding monitor_wf_def by blast
  ultimately show "\<exists>m'. monitor_verdict scale False m = Continue m' \<and> monitor_wf m'
        \<and> unat (failures m') = Suc (unat (failures m)) \<and> threshold m' = threshold m \<and> factor m' = factor m
        \<and> base m' = base m \<and> max_backoff m' = max_backoff m"
    using le by (auto simp: monitor_verdict_def Let_def monitor_wf_def suc)
qed

text \<open>The rounds a monitor gets to if no outage ends it: the first ones, up to a head at which the
  identifier is no longer alive.\<close>

fun lived :: "pid \<Rightarrow> ((Runtime \<Rightarrow> Runtime) \<times> bool) list \<Rightarrow> Runtime \<Rightarrow> ((Runtime \<Rightarrow> Runtime) \<times> bool) list" where
  "lived p [] R = []"
| "lived p ((env, up) # rounds) R = (if Runtime_is_alive R p then (env, up) # lived p rounds (env R) else [])"

text \<open>What \<open>monitor_loop\<close> must have done, given the rounds, a threshold and the failures so far.\<close>

definition monitor_outcome ::
    "nat \<Rightarrow> nat \<Rightarrow> pid list \<Rightarrow> pid \<Rightarrow> ((Runtime \<Rightarrow> Runtime) \<times> bool) list \<Rightarrow> Runtime
       \<Rightarrow> bool \<Rightarrow> nat \<Rightarrow> Runtime \<Rightarrow> bool" where
  "monitor_outcome k f ks p rounds R ended n R' \<longleftrightarrow>
     (let ups = map snd (lived p rounds R) in
      if outage k f ups
      then ended \<and> 0 < n \<and> outage k f (take n ups) \<and> \<not> outage k f (take (n - 1) ups)
        \<and> R' = sup_notify ks 0 p (Runtime_stop p (fold fst (take n rounds) R))
      else n = length ups \<and> R' = fold fst (lived p rounds R) R \<and> (ended \<longleftrightarrow> n < length rounds))"

lemma monitor_outcome_dead: "\<not> Runtime_is_alive R p \<Longrightarrow> monitor_outcome k f ks p (r # rounds) R True 0 R"
  by (cases r) (simp add: monitor_outcome_def)

lemma monitor_outcome_down:
  assumes "Runtime_is_alive R p" and "k \<le> Suc f"
  shows "monitor_outcome k f ks p ((env, False) # rounds) R True 1 (sup_notify ks 0 p (Runtime_stop p (env R)))"
  using assms by (simp add: monitor_outcome_def)

lemma monitor_outcome_next:
  assumes "Runtime_is_alive R p" and "up \<or> \<not> k \<le> Suc f"
    and "monitor_outcome k (if up then 0 else Suc f) ks p rounds (env R) ended n R'"
  shows "monitor_outcome k f ks p ((env, up) # rounds) R ended (Suc n) R'"
  using assms by (cases n) (auto simp: monitor_outcome_def Let_def split: if_splits)

lemma monitor_loop_outcome:
  assumes "monitor_wf m" and "\<forall>d \<le> max (base m) (max_backoff m). scale (factor m) d \<noteq> None"
    and "monitor_loop scale ks p rounds m R = (x, n, R')"
  shows "monitor_outcome (max 1 (unat (threshold m))) (unat (failures m)) ks p rounds R (x = None) n R'
    \<and> (\<forall>m'. x = Some m' \<longrightarrow> curr m' \<le> max (base m) (max_backoff m))"
  using assms
proof (induction rounds arbitrary: m n R)
  case Nil
  then show ?case by (auto simp: monitor_wf_def monitor_outcome_def)
next
  case (Cons r rounds)
  obtain env up where r: "r = (env, up)" by fastforce
  note v = monitor_verdict_cases [of m scale, OF Cons.prems(1,2)]
  show ?case
  proof (cases "Runtime_is_alive R p")
    case False
    with Cons.prems(3) monitor_outcome_dead [OF False] show ?thesis by (simp add: r monitor_check_def)
  next
    case alive: True
    show ?thesis
    proof (cases "\<not> up \<and> max 1 (unat (threshold m)) \<le> Suc (unat (failures m))")
      case True
      with v(2) Cons.prems(3) alive monitor_outcome_down [OF alive] show ?thesis
        by (auto simp: r monitor_check_def monitor_apply_def)
    next
      case False
      then obtain m' where m': "monitor_verdict scale up m = Continue m'" "monitor_wf m'"
          "unat (failures m') = (if up then 0 else Suc (unat (failures m)))"
          "threshold m' = threshold m" "factor m' = factor m" "base m' = base m" "max_backoff m' = max_backoff m"
        using v(1,3) by (cases up) auto
      obtain x1 n1 R1 where l: "monitor_loop scale ks p rounds m' (env R) = (x1, n1, R1)" by (metis prod_cases3)
      with Cons.prems(3) alive m'(1) have e: "n = Suc n1" and
        l': "monitor_loop scale ks p rounds m' (env R) = (x, n1, R')" by (simp_all add: r monitor_check_def)
      from Cons.IH [OF m'(2) _ l'] Cons.prems(2) m' monitor_outcome_next [OF alive] False
      show ?thesis unfolding e r by auto
    qed
  qed
qed

section \<open>Properties\<close>

text \<open>
  The wire protocol is lossless. However the network cuts the byte stream into chunks, a server
  that receives the version byte and then any sequence of frames within its limits delivers every
  user message, in order, to the identifiers named in the frames, answers every resolve request with
  the registered identifier (0 if there is none) and every ping with 3, in order, and ends without
  error when the stream ends.
\<close>

theorem server_serves_frames:
  assumes "stream (rd c) = PROTOCOL_VERSION # concat (map encode fs)" and "\<forall>f\<in>set fs. fits (srv c) f"
    and "outcomes (wr c) = []"
  shows "\<exists>r. handle_connection c = (Inr (), c\<lparr>rd := r, srv := fold deliver fs (srv c),
     wr := (wr c)\<lparr>written := written (wr c) @ concat (map (answer (srv c)) fs)\<rparr>\<rparr>)"
  using assms by (rule serves_frames)

text \<open>A connection whose bytes arrive in two chunks, cut inside a frame.\<close>

definition ex_conn :: conn where
  "ex_conn = \<lparr>rd = ([], [Chunk (take 5 (PROTOCOL_VERSION # encode_user 7 [1, 2] @ [2])),
                        Chunk (drop 5 (PROTOCOL_VERSION # encode_user 7 [1, 2] @ [2]))]),
     wr = \<lparr>outcomes = [], written = []\<rparr>, srv = Runtime_new\<rparr>"

lemma ex_conn_stream: "stream (rd ex_conn) = PROTOCOL_VERSION # concat (map encode [FUser 7 [1, 2], FPing])"
  by (simp add: ex_conn_def stream_def encode_user_def to_be_bytes_def MessageType_code_def upt_rec)

lemma ex_conn_fits: "\<forall>f\<in>set [FUser 7 [1, 2], FPing]. fits (srv ex_conn) f"
  by (simp add: ex_conn_def Runtime_new_def)

theorem server_serves_frames_witness:
  "\<exists>c. handle_connection ex_conn = (Inr (), c) \<and> written (wr c) = [3]
     \<and> srv c = snd (Runtime_send 7 (User [1, 2]) Runtime_new)"
  using server_serves_frames [OF ex_conn_stream ex_conn_fits] by (auto simp: ex_conn_def)

lemma truncated_payload_rejected:
  assumes "stream (rd c) = 0 # to_be_bytes 8 (p :: pid) @ to_be_bytes 4 (of_nat (length data) :: u32) @ take k data"
    and "k < length data" and "fits (srv c) (FUser p data)"
  shows "\<exists>r. handle_loop c = (Inl (stop (rd c)), c\<lparr>rd := r\<rparr>)"
proof -
  let ?meta = "to_be_bytes 8 p @ to_be_bytes 4 (of_nat (length data) :: u32)"
  obtain r1 where r1: "read_exact_with_timeout (Suc 0) (rd c) = (Inr [0], r1)" "stream r1 = ?meta @ take k data"
      "stop r1 = stop (rd c)"
    by (rule handle_loop_header [of c 0 "?meta @ take k data"]) (use assms(1) in simp_all)
  obtain r2 where r2: "read_exact_with_timeout 12 r1 = (Inr ?meta, r2)" "stream r2 = take k data" "stop r2 = stop r1"
    by (rule read_exact_ok [OF r1(2), of 12]) simp_all
  obtain r3 where r3: "read_exact_with_timeout (length data) r2 = (Inl (stop r2), r3)"
    by (rule read_exact_short [of r2 "length data"]) (use r2 assms(2) in simp_all)
  have n: "length data < 2 ^ 32" "\<not> length data > unat (network_max_payload (srv c))" using assms(3) by simp_all
  have "handle_user (c\<lparr>rd := r1\<rparr>) = (Inl (stop (rd c)), c\<lparr>rd := r3\<rparr>)"
    using payload_limit [OF n(1)] n(2) length_field [OF n(1)] r1(3) r2(3)
    by (simp add: handle_user_def r2(1) r3 split_meta Let_def)
  with r1(1) show ?thesis
    by (auto simp: handle_loop.simps [of c] MessageType_try_from_def handle_frame_def simp del: split_paired_Ex)
qed

text \<open>A stream that ends anywhere inside a user frame: nothing is done for the frame.\<close>

lemma cut_frame_ignored:
  assumes st: "stream (rd c) = take k (encode_user p data)" and k: "k < length (encode_user p data)"
    and fits: "fits (srv c) (FUser p data)"
  shows "\<exists>res r. handle_loop c = (res, c\<lparr>rd := r\<rparr>)"
proof (cases k)
  case 0
  with st handle_loop_end [of c] show ?thesis by (metis take_0)
next
  case (Suc m)
  let ?meta = "to_be_bytes 8 p @ to_be_bytes 4 (of_nat (length data) :: u32)"
  have e: "encode_user p data = 0 # ?meta @ data" by (simp add: encode_user_def MessageType_code_def)
  show ?thesis
  proof (cases "m < 12")
    case True
    obtain r1 where r1: "read_exact_with_timeout (Suc 0) (rd c) = (Inr [0], r1)" "stream r1 = take m (?meta @ data)"
      by (rule handle_loop_header [of c 0 "take m (?meta @ data)"]) (use st Suc e in simp_all)
    obtain r2 where "read_exact_with_timeout 12 r1 = (Inl (stop r1), r2)"
      by (rule read_exact_short [of r1 12]) (use r1 True in simp)
    with r1(1) show ?thesis
      by (auto simp: handle_loop.simps [of c] MessageType_try_from_def handle_frame_def handle_user_def
          simp del: split_paired_Ex)
  next
    case False
    with st Suc have "stream (rd c) = 0 # ?meta @ take (m - 12) data" by (simp add: e)
    moreover have "m - 12 < length data" using k Suc False by (simp add: e)
    ultimately show ?thesis using truncated_payload_rejected [of c p data "m - 12"] fits by auto
  qed
qed

lemma deliver_limits:
  "network_max_payload (fold deliver fs R) = network_max_payload R"
  "network_max_name_len (fold deliver fs R) = network_max_name_len R"
  by (induction fs arbitrary: R) simp_all

text \<open>
  What is wrong with a rest of the stream that does not begin with a good frame: \<open>None\<close> says that it does
  begin with one. \<open>e\<close> is how the stream ends behind its last byte: end of file, a timeout or a socket error.
\<close>

fun defect :: "Runtime \<Rightarrow> io_error \<Rightarrow> bytes \<Rightarrow> (io_error + unit) option" where
  "defect R e [] = Some (Inr ())"
| "defect R e (t # bs) =
     (if t = 0 then
        let len = unat (from_be_bytes (take 4 (drop 8 bs)) :: u32) in
        if length bs < 12 then Some (Inl e)
        else if len > unat (network_max_payload R) then Some (Inl (InvalidData ''payload too large''))
        else if length bs < 12 + len then Some (Inl e)
        else None
      else if t = 1 then
        let len = unat (from_be_bytes (take 4 bs) :: u32) in
        if length bs < 4 then Some (Inl e)
        else if len > unat (network_max_name_len R) then Some (Inl (InvalidData ''resolve name too long''))
        else if length bs < 4 + len then Some (Inl e)
        else if \<not> valid_utf8 (take len (drop 4 bs)) then Some (Inl (InvalidData ''invalid utf8 in resolve request''))
        else None
      else if t = 2 then None
      else Some (Inl (InvalidData ''unknown message type'')))"

text \<open>A stream without a defect begins with a frame within the limits.\<close>

lemma no_defect_user:
  assumes "defect R e (0 # bs) = None"
  obtains p data rest where "0 # bs = encode (FUser p data) @ rest" and "fits R (FUser p data)"
proof -
  let ?l = "from_be_bytes (take 4 (drop 8 bs)) :: u32" and ?p = "from_be_bytes (take 8 bs) :: pid"
  let ?data = "take (unat ?l) (drop 12 bs)"
  have len: "\<not> length bs < 12" "unat ?l \<le> unat (network_max_payload R)" "12 + unat ?l \<le> length bs"
    using assms by (simp_all add: Let_def split: if_splits)
  have d: "length ?data = unat ?l" using len by simp
  then have n: "(of_nat (length ?data) :: u32) = ?l" by (simp only: d) simp
  have "to_be_bytes 8 ?p = take 8 bs" "to_be_bytes 4 ?l = take 4 (drop 8 bs)"
    using to_from_be [of "take 8 bs", where 'a = 64] to_from_be [of "take 4 (drop 8 bs)", where 'a = 32] len by simp_all
  moreover have "bs = take 8 bs @ take 4 (drop 8 bs) @ ?data @ drop (unat ?l) (drop 12 bs)"
  proof -
    have "drop 4 (drop 8 bs) = drop 12 bs" by simp
    then show ?thesis
      using append_take_drop_id [of 8 bs] append_take_drop_id [of 4 "drop 8 bs"] append_take_drop_id [of "unat ?l" "drop 12 bs"]
      by metis
  qed
  ultimately have "0 # bs = encode (FUser ?p ?data) @ drop (unat ?l) (drop 12 bs)"
    by (simp only: encode.simps encode_user_def n MessageType_code_def MessageType.case append_Cons append_assoc)
  moreover have "fits R (FUser ?p ?data)" using d len unsigned_less [of ?l, where 'a = nat] by simp
  ultimately show thesis by (rule that)
qed

lemma no_defect_resolve:
  assumes "defect R e (1 # bs) = None"
  obtains name rest where "1 # bs = encode (FResolve name) @ rest" and "fits R (FResolve name)"
proof -
  let ?l = "from_be_bytes (take 4 bs) :: u32"
  let ?name = "take (unat ?l) (drop 4 bs)"
  have len: "\<not> length bs < 4" "unat ?l \<le> unat (network_max_name_len R)" "4 + unat ?l \<le> length bs" "valid_utf8 ?name"
    using assms by (simp_all add: Let_def split: if_splits)
  have d: "length ?name = unat ?l" using len by simp
  then have n: "(of_nat (length ?name) :: u32) = ?l" by (simp only: d) simp
  have "to_be_bytes 4 ?l = take 4 bs" using to_from_be [of "take 4 bs", where 'a = 32] len by simp
  then have "1 # bs = encode (FResolve (string_of_bytes ?name)) @ drop (unat ?l) (drop 4 bs)"
    using append_take_drop_id [of 4 bs] append_take_drop_id [of "unat ?l" "drop 4 bs"]
    by (simp only: encode.simps bytes_of_string_of_bytes n MessageType_code_def MessageType.case
        append_Cons append_assoc)
  moreover have "fits R (FResolve (string_of_bytes ?name))"
    using d len unsigned_less [of ?l, where 'a = nat] length_bytes_of_string [of "string_of_bytes ?name"] by simp
  ultimately show thesis by (rule that)
qed

lemma no_defect_frame:
  assumes "defect R e bs = None"
  obtains f rest where "bs = encode f @ rest" and "fits R f" and "length rest < length bs"
proof (cases bs)
  case (Cons t body)
  consider "t = 0" | "t = 1" | "t = 2" using assms Cons by (auto split: if_splits)
  then obtain f rest where f: "bs = encode f @ rest" "fits R f"
  proof cases
    case 1
    with assms Cons no_defect_user [of R e body] that show thesis by metis
  next
    case 2
    with assms Cons no_defect_resolve [of R e body] that show thesis by metis
  next
    case 3
    with Cons that [of FPing body] show thesis by (simp add: MessageType_code_def)
  qed
  moreover have "encode f \<noteq> []" by (cases f) (simp_all add: encode_user_def)
  ultimately show thesis by (intro that [of f rest]) simp_all
qed (use assms in simp)

lemma stream_decomposes:
  "\<exists>fs rest. bs = concat (map encode fs) @ rest \<and> (\<forall>f\<in>set fs. fits R f) \<and> defect R e rest \<noteq> None"
proof (induction bs rule: length_induct)
  case (1 bs)
  show ?case
  proof (cases "defect R e bs")
    case None
    then obtain f rest where f: "bs = encode f @ rest" "fits R f" "length rest < length bs"
      by (rule no_defect_frame)
    with "1.IH" obtain fs r where "rest = concat (map encode fs) @ r" "\<forall>f\<in>set fs. fits R f" "defect R e r \<noteq> None"
      by blast
    with f show ?thesis by (intro exI [of _ "f # fs"] exI [of _ r]) simp
  qed (intro exI [of _ "[]"] exI [of _ bs], simp)
qed

text \<open>A defect ends the loop with its error, and all that changes in the connection is the reader.\<close>

lemma user_defect:
  assumes "stream (rd c) = bs" and "defect (srv c) (stop (rd c)) (0 # bs) = Some res"
  shows "\<exists>r err. res = Inl err \<and> handle_user c = (Inl err, c\<lparr>rd := r\<rparr>)"
proof (cases "length bs < 12")
  case True
  obtain r where "read_exact_with_timeout 12 (rd c) = (Inl (stop (rd c)), r)"
    by (rule read_exact_short [of "rd c" 12]) (use assms(1) True in simp_all)
  with assms True show ?thesis by (auto simp: handle_user_def simp del: split_paired_Ex)
next
  case False
  let ?l = "from_be_bytes (take 4 (drop 8 bs)) :: u32"
  obtain r1 where r1: "read_exact_with_timeout 12 (rd c) = (Inr (take 12 bs), r1)" "stream r1 = drop 12 bs" "stop r1 = stop (rd c)"
    by (rule read_exact_ok [of "rd c" "take 12 bs" "drop 12 bs" 12]) (use assms(1) False in simp_all)
  have l: "drop 8 (take 12 bs) = take 4 (drop 8 bs)" by (simp add: drop_take)
  show ?thesis
  proof (cases "unat ?l > unat (network_max_payload (srv c))")
    case True
    with assms(2) False r1(1) l show ?thesis by (auto simp: handle_user_def Let_def length_limit simp del: split_paired_Ex)
  next
    case ok: False
    then have short: "length (stream r1) < unat ?l" "res = Inl (stop (rd c))"
      using assms(2) False r1(2) by (auto simp: Let_def split: if_splits)
    obtain r2 where "read_exact_with_timeout (unat ?l) r1 = (Inl (stop r1), r2)"
      by (rule read_exact_short [OF short(1)])
    with ok short(2) r1 l show ?thesis by (auto simp: handle_user_def Let_def length_limit simp del: split_paired_Ex)
  qed
qed

lemma resolve_defect:
  assumes "stream (rd c) = bs" and "defect (srv c) (stop (rd c)) (1 # bs) = Some res"
  shows "\<exists>r err. res = Inl err \<and> handle_resolve c = (Inl err, c\<lparr>rd := r\<rparr>)"
proof (cases "length bs < 4")
  case True
  obtain r where "read_exact_with_timeout 4 (rd c) = (Inl (stop (rd c)), r)"
    by (rule read_exact_short [of "rd c" 4]) (use assms(1) True in simp_all)
  with assms True show ?thesis by (auto simp: handle_resolve_def simp del: split_paired_Ex)
next
  case False
  let ?l = "from_be_bytes (take 4 bs) :: u32"
  obtain r1 where r1: "read_exact_with_timeout 4 (rd c) = (Inr (take 4 bs), r1)" "stream r1 = drop 4 bs" "stop r1 = stop (rd c)"
    by (rule read_exact_ok [of "rd c" "take 4 bs" "drop 4 bs" 4]) (use assms(1) False in simp_all)
  consider "unat ?l > unat (network_max_name_len (srv c))"
    | "\<not> unat ?l > unat (network_max_name_len (srv c))" "length bs < 4 + unat ?l"
    | "\<not> unat ?l > unat (network_max_name_len (srv c))" "\<not> length bs < 4 + unat ?l" "\<not> valid_utf8 (take (unat ?l) (drop 4 bs))"
    using assms(2) by (auto simp: Let_def split: if_splits)
  then show ?thesis
  proof cases
    case 1
    with assms(2) False r1(1) show ?thesis by (auto simp: handle_resolve_def Let_def length_limit simp del: split_paired_Ex)
  next
    case 2
    with r1(2) False have short: "length (stream r1) < unat ?l" by simp
    obtain r2 where "read_exact_with_timeout (unat ?l) r1 = (Inl (stop r1), r2)"
      by (rule read_exact_short [OF short])
    with 2 assms(2) False r1 show ?thesis by (auto simp: handle_resolve_def Let_def length_limit simp del: split_paired_Ex)
  next
    case 3
    have "stream r1 = take (unat ?l) (drop 4 bs) @ drop (unat ?l) (drop 4 bs)"
      unfolding r1(2) by (rule append_take_drop_id [symmetric])
    then obtain r2 where "read_exact_with_timeout (unat ?l) r1 = (Inr (take (unat ?l) (drop 4 bs)), r2)"
      by (rule read_exact_ok [of r1 _ _ "unat ?l"]) (use 3 in simp)
    with 3 assms(2) False r1 show ?thesis by (auto simp: handle_resolve_def Let_def length_limit from_utf8_def simp del: split_paired_Ex)
  qed
qed

lemma defect_ends_loop:
  assumes "defect (srv c) (stop (rd c)) (stream (rd c)) = Some res"
  shows "\<exists>r. handle_loop c = (res, c\<lparr>rd := r\<rparr>)"
proof (cases "stream (rd c)")
  case Nil
  with assms handle_loop_end [of c] show ?thesis by fastforce
next
  case (Cons t bs)
  obtain r1 where r1: "read_exact_with_timeout (Suc 0) (rd c) = (Inr [t], r1)" "stream r1 = bs" "stop r1 = stop (rd c)"
    by (rule handle_loop_header [OF Cons])
  let ?c = "c\<lparr>rd := r1\<rparr>"
  note loop = handle_loop.simps [of c] handle_frame_def MessageType_try_from_def
  consider "t = 0" | "t = 1" | "t \<noteq> 0" "t \<noteq> 1" "t \<noteq> 2" using assms Cons by fastforce
  then show ?thesis
  proof cases
    case 1
    with user_defect [of ?c bs res] assms Cons r1 obtain r err
      where "res = Inl err" "handle_user ?c = (Inl err, ?c\<lparr>rd := r\<rparr>)" by auto
    with 1 r1(1) show ?thesis by (intro exI [of _ r]) (simp add: loop)
  next
    case 2
    with resolve_defect [of ?c bs res] assms Cons r1 obtain r err
      where "res = Inl err" "handle_resolve ?c = (Inl err, ?c\<lparr>rd := r\<rparr>)" by auto
    with 2 r1(1) show ?thesis by (intro exI [of _ r]) (simp add: loop)
  next
    case 3
    with assms Cons r1(1) show ?thesis by (intro exI [of _ r1]) (simp add: loop)
  qed
qed

lemma defect_deliver: "defect (fold deliver fs R) = defect R"
proof (intro ext)
  fix e bs show "defect (fold deliver fs R) e bs = defect R e bs" by (cases bs) (simp_all add: deliver_limits Let_def)
qed

text \<open>
  C23: the server follows the protocol on every input. Take any connection whose writes succeed, whatever
  bytes it delivers and however they are cut and end. If there is no first byte, or it is not the
  protocol version, the connection ends with that error and nothing has been done. Otherwise the bytes
  behind it are a sequence of frames within the limits and a rest that does not begin with one, and the
  connection has delivered and answered exactly these frames, in order, and ends as the rest says: without
  error if it is empty, else with the error of the defect, which is an unknown type byte, a
  payload or a name above the limit, a name that is not UTF-8, or a header, payload or name that is cut off,
  which gives the error that ended the stream.
\<close>

theorem connection_follows_protocol:
  assumes "outcomes (wr c) = []"
  shows "case stream (rd c) of
      [] \<Rightarrow> \<exists>r. handle_connection c = (Inl (stop (rd c)), c\<lparr>rd := r\<rparr>)
    | v # bs \<Rightarrow>
        if v \<noteq> PROTOCOL_VERSION
        then \<exists>r. handle_connection c = (Inl (InvalidData ''protocol version mismatch''), c\<lparr>rd := r\<rparr>)
        else (\<exists>fs rest. bs = concat (map encode fs) @ rest \<and> (\<forall>f\<in>set fs. fits (srv c) f)
               \<and> defect (srv c) (stop (rd c)) rest \<noteq> None)
          \<and> (\<forall>fs rest res. bs = concat (map encode fs) @ rest \<and> (\<forall>f\<in>set fs. fits (srv c) f)
               \<and> defect (srv c) (stop (rd c)) rest = Some res
             \<longrightarrow> (\<exists>r. handle_connection c = (res, c\<lparr>rd := r, srv := fold deliver fs (srv c),
                    wr := (wr c)\<lparr>written := written (wr c) @ concat (map (answer (srv c)) fs)\<rparr>\<rparr>)))"
proof (cases "stream (rd c)")
  case Nil
  obtain r where "read_exact_with_timeout 1 (rd c) = (Inl (stop (rd c)), r)"
    by (rule read_exact_short [of "rd c" 1]) (use Nil in simp_all)
  with Nil show ?thesis by (auto simp: handle_connection_def simp del: split_paired_Ex)
next
  case (Cons v bs)
  show ?thesis
  proof (cases "v = PROTOCOL_VERSION")
    case False
    obtain r where "read_exact_with_timeout (Suc 0) (rd c) = (Inr [v], r)" by (rule handle_loop_header [OF Cons])
    with Cons False show ?thesis by (auto simp: handle_connection_def simp del: split_paired_Ex)
  next
    case True
    have "\<exists>r. handle_connection c = (res, c\<lparr>rd := r, srv := fold deliver fs (srv c),
        wr := (wr c)\<lparr>written := written (wr c) @ concat (map (answer (srv c)) fs)\<rparr>\<rparr>)"
      if bs: "bs = concat (map encode fs) @ rest" "\<forall>f\<in>set fs. fits (srv c) f" "defect (srv c) (stop (rd c)) rest = Some res"
      for fs rest res
    proof -
      obtain r where r: "stream r = rest" "stop r = stop (rd c)"
        "handle_connection c = handle_loop (c\<lparr>rd := r, srv := fold deliver fs (srv c),
           wr := (wr c)\<lparr>written := written (wr c) @ concat (map (answer (srv c)) fs)\<rparr>\<rparr>)"
        by (rule handle_connection_frames [OF _ bs(2) assms, of rest]) (use Cons True bs(1) in simp_all)
      let ?c = "c\<lparr>rd := r, srv := fold deliver fs (srv c), wr := (wr c)\<lparr>written := written (wr c) @ concat (map (answer (srv c)) fs)\<rparr>\<rparr>"
      have "\<exists>r'. handle_loop ?c = (res, ?c\<lparr>rd := r'\<rparr>)" by (rule defect_ends_loop) (use bs(3) r in \<open>simp add: defect_deliver\<close>)
      then obtain r' where "handle_loop ?c = (res, ?c\<lparr>rd := r'\<rparr>)" by blast
      with r(3) show ?thesis by (intro exI [of _ r']) (cases c, simp)
    qed
    with Cons True stream_decomposes [of bs "srv c" "stop (rd c)"] show ?thesis by simp
  qed
qed

theorem connection_follows_protocol_witness:
  "\<exists>c'. handle_connection \<lparr>rd = ([], [Chunk [1, 2], Chunk [1, 0], ReadTimeout]), wr = \<lparr>outcomes = [], written = []\<rparr>, srv = Runtime_new\<rparr>
     = (Inl TimedOut, c') \<and> srv c' = Runtime_new \<and> written (wr c') = [3]"
proof -
  define c where "c = \<lparr>rd = ([], [Chunk [1, 2], Chunk [1, 0], ReadTimeout]), wr = \<lparr>outcomes = [], written = []\<rparr>, srv = Runtime_new\<rparr>"
  have s: "stream (rd c) = PROTOCOL_VERSION # [2, 1, 0]" "stop (rd c) = TimedOut"
    and o: "outcomes (wr c) = []" "written (wr c) = []" "srv c = Runtime_new"
    by (simp_all add: c_def stream_def stop_def PROTOCOL_VERSION_def)
  have "[2, 1, 0] = concat (map encode [FPing]) @ [1, 0] \<and> (\<forall>f\<in>set [FPing]. fits (srv c) f)
      \<and> defect (srv c) TimedOut [1, 0] = Some (Inl TimedOut)" by (simp add: MessageType_code_def Let_def)
  with conjunct2 [OF connection_follows_protocol [OF o(1), simplified s list.case simp_thms if_False]]
  obtain r where "handle_connection c = (Inl TimedOut, c\<lparr>rd := r, srv := fold deliver [FPing] (srv c),
     wr := (wr c)\<lparr>written := written (wr c) @ concat (map (answer (srv c)) [FPing])\<rparr>\<rparr>)" by blast
  with o show ?thesis by (simp add: c_def [symmetric])
qed

text \<open>
  C30: remote resolution is the local registry of the other node. For a name within the limits of both
  nodes, the request \<^verbatim>\<open>resolve_remote\<close> writes makes a server with registry \<open>Rs\<close> answer eight bytes,
  and from these bytes, however cut, \<^verbatim>\<open>resolve_remote_async\<close> returns what \<^verbatim>\<open>resolve\<close> returns on the
  server, except that an entry for identifier 0 reads as no entry.
\<close>

theorem resolve_remote_round_trip:
  assumes "fits Rc (FResolve name)" and "fits Rs (FResolve name)"
    and "stream rs = written (snd (resolve_remote None name Rc \<lparr>outcomes = [], written = []\<rparr> rc))"
    and "handle_connection \<lparr>rd = rs, wr = \<lparr>outcomes = [], written = []\<rparr>, srv = Rs\<rparr> = (res, c')"
    and "stream rc = written (wr c')"
  shows "res = Inr () \<and> Runtime_resolve_remote_async None name Rc \<lparr>outcomes = [], written = []\<rparr> rc
     = (if Runtime_resolve Rs name = Some 0 then None else Runtime_resolve Rs name)"
proof -
  let ?w = "\<lparr>outcomes = [], written = []\<rparr>" and ?c = "\<lparr>rd = rs, wr = \<lparr>outcomes = [], written = []\<rparr>, srv = Rs\<rparr>"
  have len: "\<not> length name > unat (network_max_name_len Rc)" using assms(1) by simp
  have client: "resolve_remote None name Rc ?w rc =
      (case read_exact_with_timeout 8 rc of (Inl e, _) \<Rightarrow> Inl e | (Inr b, _) \<Rightarrow> Inr (from_be_bytes b),
       ?w\<lparr>written := PROTOCOL_VERSION # encode (FResolve name)\<rparr>)"
    using len by (simp add: resolve_remote_def after_write_def write_free split: prod.split sum.split)
  have "stream (rd ?c) = PROTOCOL_VERSION # concat (map encode [FResolve name])"
    using assms(3) by (simp add: client)
  moreover have "\<forall>f\<in>set [FResolve name]. fits (srv ?c) f" using assms(2) by simp
  ultimately obtain r where "handle_connection ?c = (Inr (), ?c\<lparr>rd := r, srv := fold deliver [FResolve name] (srv ?c),
      wr := (wr ?c)\<lparr>written := written (wr ?c) @ concat (map (answer (srv ?c)) [FResolve name])\<rparr>\<rparr>)"
    using serves_frames [of ?c "[FResolve name]"] by auto
  with assms(4) have res: "res = Inr ()" and out: "written (wr c') = answer Rs (FResolve name)" by auto
  obtain r' where "read_exact_with_timeout 8 rc = (Inr (answer Rs (FResolve name)), r')"
    by (rule read_exact_ok [of rc "answer Rs (FResolve name)" "[]" 8]) (use assms(5) out in simp_all)
  with res show ?thesis
    by (auto simp: Runtime_resolve_remote_async_def client split: option.splits)
qed

theorem resolve_remote_round_trip_witness:
  "Runtime_resolve_remote_async None ''a'' Runtime_new \<lparr>outcomes = [], written = []\<rparr> (to_be_bytes 8 (5 :: pid), [])
   = Some 5"
proof -
  let ?w = "\<lparr>outcomes = [], written = []\<rparr>"
  let ?Rs = "Runtime_register ''a'' 5 Runtime_new" and ?rs = "(PROTOCOL_VERSION # encode (FResolve ''a''), [])"
  let ?c = "\<lparr>rd = ?rs, wr = ?w, srv = ?Rs\<rparr>" and ?rc = "(to_be_bytes 8 (5 :: pid), [])"
  have f: "fits Runtime_new (FResolve ''a'')" "fits ?Rs (FResolve ''a'')"
    by (simp_all add: Runtime_register_def Runtime_new_def bytes_of_string_def)
  have name: "Runtime_resolve ?Rs ''a'' = Some 5"
    by (simp add: Runtime_resolve_def Runtime_register_def NameRegistry_resolve_def NameRegistry_register_def)
  have "stream (rd ?c) = PROTOCOL_VERSION # concat (map encode [FResolve ''a''])" by (simp add: stream_def)
  then obtain r where h: "handle_connection ?c = (Inr (), ?c\<lparr>rd := r, srv := fold deliver [FResolve ''a''] (srv ?c),
      wr := (wr ?c)\<lparr>written := written (wr ?c) @ concat (map (answer (srv ?c)) [FResolve ''a''])\<rparr>\<rparr>)"
    using serves_frames [of ?c "[FResolve ''a'']"] f by auto
  have "stream ?rs = written (snd (resolve_remote None ''a'' Runtime_new ?w ?rc))"
    using f(1) by (simp add: stream_def resolve_remote_def after_write_def write_free split: prod.split sum.split)
  from resolve_remote_round_trip [OF f this h] name show ?thesis by (simp add: stream_def)
qed

text \<open>
  \<^verbatim>\<open>send_remote\<close> queues a message once or reports an error. On success the frame is appended to the
  queue of exactly one open pooled connection to the address, at most one stale pool entry having
  been replaced; on an error (payload above the limit, or the connection cannot be made) no queue has
  changed.
\<close>

theorem send_remote_queues_once:
  assumes "send_remote try1 try2 R a p data P = (res, P')"
  shows "(res = Inr () \<longrightarrow> length data \<le> unat (network_max_payload R)
      \<and> (\<exists>i q. PEER_POOL P' a = Some i \<and> popen (peers P' i) \<and> pqueue (peers P' i) = q @ [encode_user p data]
          \<and> (q = pqueue (peers P i) \<or> i = next_peer P \<and> q = [])
          \<and> (\<forall>j. j \<noteq> i \<longrightarrow> peers P' j = peers P j)))
    \<and> (res \<noteq> Inr () \<longrightarrow> peers P' = peers P)
    \<and> (length data > unat (network_max_payload R) \<longrightarrow> res = Inl (InvalidInput ''payload too large'') \<and> P' = P)"
proof (cases "PEER_POOL P a")
  case None
  then show ?thesis using assms
    by (auto simp: send_remote_def get_or_connect_peer_def peer_send_def Let_def split: if_splits option.splits)
next
  case (Some i)
  then show ?thesis using assms
    by (auto simp: send_remote_def get_or_connect_peer_def peer_send_def Let_def split: if_splits option.splits)
qed

definition ex_pool :: pool where
  "ex_pool = \<lparr>PEER_POOL = [''b:1'' \<mapsto> 0], peers = (\<lambda>_. \<lparr>pqueue = [], popen = False, psent = [1]\<rparr>), next_peer = 1\<rparr>"

theorem send_remote_queues_once_witness:
  "\<exists>P' i q. send_remote (None, None) (None, None) Runtime_new ''b:1'' 7 [1] ex_pool = (Inr (), P')
     \<and> PEER_POOL P' ''b:1'' = Some i \<and> pqueue (peers P' i) = q @ [encode_user 7 [1]]"
proof -
  obtain res P' where s: "send_remote (None, None) (None, None) Runtime_new ''b:1'' 7 [1] ex_pool = (res, P')"
    by fastforce
  then have "res = Inr ()"
    by (simp add: send_remote_def get_or_connect_peer_def peer_send_def ex_pool_def Runtime_new_def Let_def)
  with send_remote_queues_once [OF s] s show ?thesis by blast
qed

text \<open>The queue of a fresh connection after a number of sends, and what its task then writes.\<close>

definition empty_pool :: pool where
  "empty_pool = \<lparr>PEER_POOL = Map.empty, peers = (\<lambda>_. \<lparr>pqueue = [], popen = False, psent = []\<rparr>), next_peer = 0\<rparr>"

definition send_each :: "Runtime \<Rightarrow> string \<Rightarrow> (pid \<times> bytes) list \<Rightarrow> pool \<Rightarrow> pool" where
  "send_each R a ms P = fold (\<lambda>(p, d) P. snd (send_remote (None, None) (None, None) R a p d P)) ms P"

lemma send_each_queue:
  assumes "\<forall>(p, d)\<in>set ms. length d \<le> unat (network_max_payload R)"
    and "PEER_POOL P a = Some i" and "popen (peers P i)"
  shows "peers (send_each R a ms P) i = (peers P i)\<lparr>pqueue := pqueue (peers P i) @ map (\<lambda>(p, d). encode_user p d) ms\<rparr>"
  using assms
proof (induction ms arbitrary: P)
  case Nil
  then show ?case by (simp add: send_each_def)
next
  case (Cons m ms)
  obtain p d where m: "m = (p, d)" by fastforce
  let ?P = "P\<lparr>peers := (peers P)(i := (peers P i)\<lparr>pqueue := pqueue (peers P i) @ [encode_user p d]\<rparr>)\<rparr>"
  have "snd (send_remote (None, None) (None, None) R a p d P) = ?P"
    using Cons.prems m by (auto simp: send_remote_def get_or_connect_peer_def peer_send_def Let_def)
  then have "send_each R a (m # ms) P = send_each R a ms ?P" by (simp add: send_each_def m)
  with Cons.IH [of ?P] Cons.prems m show ?case by simp
qed

lemma peer_rounds:
  "pqueue (peers P i) = qs \<Longrightarrow>
     psent (peers ((peer_round None a i ^^ length qs) P) i) = psent (peers P i) @ concat qs"
proof (induction qs arbitrary: P)
  case (Cons q qs)
  let ?P = "peer_round None a i P"
  from Cons.prems have "pqueue (peers ?P i) = qs" "psent (peers ?P i) = psent (peers P i) @ q"
    by (simp_all add: peer_round_def)
  with Cons.IH [of ?P] show ?case by (simp add: funpow_swap1)
qed simp

text \<open>
  Messages sent to a remote node one after another arrive there, in order. When calls of
  \<^verbatim>\<open>NetworkManager::send_remote\<close>, each awaited before the next, send any messages to an address without a
  connection yet, and the connection holds, the bytes its task has written, once the queue is empty,
  make the server at the other end, however the bytes are cut, deliver exactly these messages to
  exactly these identifiers in the order of the calls.
\<close>

theorem remote_messages_arrive_in_order:
  assumes "msgs \<noteq> []" and "\<forall>(p, d)\<in>set msgs. fits Rc (FUser p d) \<and> fits Rs (FUser p d)"
    and "stream rs = psent (peers ((peer_round None a 0 ^^ length msgs) (send_each Rc a msgs empty_pool)) 0)"
  shows "\<exists>c'. handle_connection \<lparr>rd = rs, wr = \<lparr>outcomes = [], written = []\<rparr>, srv = Rs\<rparr> = (Inr (), c')
    \<and> srv c' = fold (\<lambda>(p, d) R. snd (Runtime_send p (User d) R)) msgs Rs"
proof -
  let ?enc = "\<lambda>(p, d). encode_user p d"
  obtain p d ms where m: "msgs = (p, d) # ms" using assms(1) by (cases msgs) auto
  let ?P = "\<lparr>PEER_POOL = [a \<mapsto> 0], peers = (\<lambda>_. \<lparr>pqueue = [], popen = False, psent = []\<rparr>)
      (0 := \<lparr>pqueue = [encode_user p d], popen = True, psent = [PROTOCOL_VERSION]\<rparr>), next_peer = 1\<rparr>"
  have "snd (send_remote (None, None) (None, None) Rc a p d empty_pool) = ?P"
    using assms(2) m by (auto simp: send_remote_def get_or_connect_peer_def peer_send_def empty_pool_def Let_def)
  then have "send_each Rc a msgs empty_pool = send_each Rc a ms ?P" by (simp add: send_each_def m)
  moreover have "\<forall>(p, d)\<in>set ms. length d \<le> unat (network_max_payload Rc)" using assms(2) m by auto
  ultimately have q: "pqueue (peers (send_each Rc a msgs empty_pool) 0) = map ?enc msgs"
      "psent (peers (send_each Rc a msgs empty_pool) 0) = [PROTOCOL_VERSION]"
    using send_each_queue [of ms Rc ?P a 0] m by simp_all
  let ?fs = "map (\<lambda>(p, d). FUser p d) msgs"
  have enc: "map encode ?fs = map ?enc msgs" by (induction msgs) auto
  let ?c = "\<lparr>rd = rs, wr = \<lparr>outcomes = [], written = []\<rparr>, srv = Rs\<rparr>"
  have "stream (rd ?c) = PROTOCOL_VERSION # concat (map encode ?fs)"
    using assms(3) peer_rounds [OF q(1), of a] q(2) by (simp add: enc del: map_map)
  moreover have "\<forall>f\<in>set ?fs. fits (srv ?c) f" using assms(2) by auto
  ultimately obtain r where h: "handle_connection ?c = (Inr (), ?c\<lparr>rd := r, srv := fold deliver ?fs (srv ?c),
      wr := (wr ?c)\<lparr>written := written (wr ?c) @ concat (map (answer (srv ?c)) ?fs)\<rparr>\<rparr>)"
    using serves_frames [of ?c ?fs] by auto
  have "fold deliver (map (\<lambda>(p, d). FUser p d) xs) R = fold (\<lambda>(p, d) R. snd (Runtime_send p (User d) R)) xs R" for xs R
    by (induction xs arbitrary: R) auto
  with h show ?thesis by simp
qed

theorem remote_messages_arrive_in_order_witness:
  "\<exists>c'. handle_connection \<lparr>rd = (psent (peers ((peer_round None ''n:1'' 0 ^^ 2) (send_each Runtime_new ''n:1'' [(5, [1]), (6, [])] empty_pool)) 0), []),
       wr = \<lparr>outcomes = [], written = []\<rparr>, srv = Runtime_new\<rparr> = (Inr (), c')
     \<and> srv c' = snd (Runtime_send 6 (User []) (snd (Runtime_send 5 (User [1]) Runtime_new)))"
proof -
  let ?ms = "[(5, [1]), (6, [])] :: (pid \<times> bytes) list"
  let ?rs = "(psent (peers ((peer_round None ''n:1'' 0 ^^ 2) (send_each Runtime_new ''n:1'' ?ms empty_pool)) 0), [])"
  have st: "stream ?rs = psent (peers ((peer_round None ''n:1'' 0 ^^ length ?ms) (send_each Runtime_new ''n:1'' ?ms empty_pool)) 0)"
    by (simp add: stream_def numeral_2_eq_2 del: funpow.simps)
  have "?ms \<noteq> []" "\<forall>(p, d)\<in>set ?ms. fits Runtime_new (FUser p d) \<and> fits Runtime_new (FUser p d)"
    by (simp_all add: new_limits)
  from remote_messages_arrive_in_order [OF this st] show ?thesis by (simp del: funpow.simps)
qed

text \<open>
  A pooled connection does not survive an idle period. The server treats a header read that times
  out like the end of the stream: it ends the connection without an error, and a complete frame that
  arrives after the pause is not read.
\<close>

theorem idle_connection_drops_later_frames:
  "\<exists>c'. handle_connection \<lparr>rd = ([PROTOCOL_VERSION], ReadTimeout # Chunk (encode f) # es), wr = w, srv = R\<rparr> = (Inr (), c')
     \<and> srv c' = R \<and> wr c' = w \<and> rd c' = ([], Chunk (encode f) # es)"
  by (simp add: handle_connection_def read_exact_with_timeout_def read_loop.simps handle_loop.simps)

text \<open>
  C34: the monitor reports an outage exactly when it should, whatever else the node does meanwhile. Of the
  rounds to come it gets to the first ones, as long as the monitored identifier is alive when a round begins.
  If their answers contain as many failures in a row as the threshold says (at least one), the monitor ends
  in the round that completes them, not earlier and not later, and has stopped the identifier and told
  the supervisor. Otherwise it has done nothing to the node, runs through all of them, and ends only if the
  identifier has died; its delay is at most the larger of the probe interval and the configured
  maximum. The delays up to that bound must be ones that the factor can scale without the panic of
  \<^verbatim>\<open>Duration::from_secs_f64\<close>.
\<close>

theorem monitor_detects_outage:
  assumes "\<forall>d \<le> max (millis ms) (monitor_backoff_max R). scale (monitor_backoff_factor R) d \<noteq> None"
    and "monitor_remote scale ks p ms rounds R = (x, n, R')"
  shows "(let ups = map snd (lived p rounds R); k = max 1 (unat (monitor_failure_threshold R)) in
      if in_a_row k ups
      then x = None \<and> in_a_row k (take n ups) \<and> \<not> in_a_row k (take (n - 1) ups)
        \<and> R' = sup_notify ks 0 p (Runtime_stop p (fold fst (take n rounds) R))
      else n = length ups \<and> R' = fold fst (lived p rounds R) R \<and> (x = None \<longleftrightarrow> n < length rounds))
    \<and> (\<forall>m. x = Some m \<longrightarrow> curr m \<le> max (millis ms) (monitor_backoff_max R))"
proof -
  let ?m = "monitor_start ms R"
  have wf: "monitor_wf ?m" by (simp add: monitor_wf_def monitor_start_def)
  have "\<forall>d \<le> max (base ?m) (max_backoff ?m). scale (factor ?m) d \<noteq> None" using assms(1) by (simp add: monitor_start_def)
  note o = monitor_loop_outcome [OF wf this assms(2) [unfolded monitor_remote_def]]
  from o have "monitor_outcome (max 1 (unat (monitor_failure_threshold R))) 0 ks p rounds R (x = None) n R'"
    by (simp add: monitor_start_def)
  moreover from o have "\<forall>m. x = Some m \<longrightarrow> curr m \<le> max (millis ms) (monitor_backoff_max R)"
    by (simp add: monitor_start_def)
  ultimately show ?thesis unfolding monitor_outcome_def Let_def outage_in_a_row by presburger
qed

lemma ex_alive: "Runtime_is_alive (snd (the (Runtime_spawn_actor Runtime_new))) (fst (the (Runtime_spawn_actor Runtime_new)))"
proof -
  obtain p sl where al: "SlabAllocator_allocate SlabAllocator_new = Some (p, sl)"
    by (simp add: SlabAllocator_allocate_def SlabAllocator_new_def Let_def)
  have i: "slab_inv SlabAllocator_new" "slab_room SlabAllocator_new"
    by (simp_all add: slab_inv_def slab_room_def SlabAllocator_new_def)
  from al slab.alloc_valid [OF i al, of p] show ?thesis
    by (simp add: Runtime_is_alive_def Runtime_spawn_actor_def spawn_task_def Runtime_new_def Let_def remove_mailbox_def)
qed

text \<open>The default factor 2.0, with the panic above \<^verbatim>\<open>Duration::MAX\<close>.\<close>

definition double_delay :: "f64 \<Rightarrow> duration \<Rightarrow> duration option" where
  "double_delay f d = (if 2 * d < 2 ^ 64 * 10 ^ 9 then Some (2 * d) else None)"

theorem monitor_detects_outage_witness:
  "\<exists>R p R'. monitor_remote double_delay [] p 1000 [(\<lambda>R. R, True), (\<lambda>R. snd (Runtime_send p (User [1]) R), False), (\<lambda>R. R, True)] R
       = (None, 2, R')
     \<and> mailboxes R' p = None"
proof -
  define R p where "R = snd (the (Runtime_spawn_actor Runtime_new))" and "p = fst (the (Runtime_spawn_actor Runtime_new))"
  define send where "send = (\<lambda>R. snd (Runtime_send p (User [1]) R))"
  let ?rs = "[(\<lambda>R. R, True), (send, False), (\<lambda>R. R, True)]"
  obtain x n R' where m: "monitor_remote double_delay [] p 1000 ?rs R = (x, n, R')" by (metis prod_cases3)
  have conf: "monitor_failure_threshold R = 1" "monitor_backoff_max R = secs 60"
    by (simp_all add: R_def Runtime_spawn_actor_def spawn_task_def Runtime_new_def Let_def remove_mailbox_def
        SlabAllocator_allocate_def SlabAllocator_new_def)
  have alive: "Runtime_is_alive R p" "Runtime_is_alive (send R) p"
    using ex_alive by (simp_all add: R_def p_def send_def Runtime_is_alive_def Runtime_send_def split: option.split prod.split)
  have ok: "\<forall>d \<le> max (millis 1000) (monitor_backoff_max R). double_delay (monitor_backoff_factor R) d \<noteq> None"
    by (auto simp: double_delay_def conf millis_def secs_def)
  have ups: "map snd (lived p ?rs R) = [True, False, True]" by (simp add: alive)
  have row: "in_a_row 1 us \<longleftrightarrow> False \<in> set us" for us by (auto simp: in_a_row_def in_set_conv_decomp)
  have "if False \<in> set [True, False, True]
      then x = None \<and> False \<in> set (take n [True, False, True]) \<and> False \<notin> set (take (n - 1) [True, False, True])
        \<and> R' = sup_notify [] 0 p (Runtime_stop p (fold fst (take n ?rs) R))
      else n = length [True, False, True] \<and> R' = fold fst (lived p ?rs R) R \<and> (x = None \<longleftrightarrow> n < length ?rs)"
    using conjunct1 [OF monitor_detects_outage [OF ok m]] unfolding ups Let_def by (simp only: conf row unat_1 max.idem)
  then have "x = None" "False \<in> set (take n [True, False, True])"
    "False \<notin> set (take (n - 1) [True, False, True])" "R' = sup_notify [] 0 p (Runtime_stop p (fold fst (take n ?rs) R))"
    by simp_all
  moreover from this(2,3) have "n = 2" by (auto simp: take_Cons' split: if_splits)
  moreover from calculation have "mailboxes R' p = None"
    by (auto simp: sup_notify_def Runtime_stop_def remove_mailbox_def split: prod.split option.split)
  ultimately show ?thesis using m unfolding send_def by blast
qed

text \<open>
  The monitor of an identifier that is not alive on this node ends without a single probe and
  without notifying anybody. Identifiers of other nodes are looked up in the local slab, so this is
  what monitoring the identifier that \<^verbatim>\<open>resolve_remote\<close> returned comes to.
\<close>

theorem monitor_of_foreign_pid_never_probes:
  assumes "\<not> Runtime_is_alive R p"
  shows "monitor_remote scale ks p ms (round # rounds) R = (None, 0, R)"
  using assms by (cases round) (simp add: monitor_remote_def monitor_check_def)

theorem monitor_of_foreign_pid_never_probes_witness:
  "monitor_remote (\<lambda>f d. Some d) [] 7 1000 [(\<lambda>R. R, False)] Runtime_new = (None, 0, Runtime_new)"
  by (rule monitor_of_foreign_pid_never_probes)
    (simp add: Runtime_is_alive_def Runtime_new_def SlabAllocator_new_def SlabAllocator_is_valid_def split: prod.split)

end
