(* ===== verification/Host.thy ===== *)
theory Host
  imports Lifecycle
begin

text \<open>
  What a system that contains a runtime owes it and gets from it. The timers, the server and a Python
  node each put a runtime into a larger state and let more things happen to it than \<open>rt_step\<close> does. The
  locale \<open>runtime_host\<close> asks one thing of such a system: in the states it can reach the runtime has its
  invariant and its supervisors are reachable ones. The guarantees of the runtime's calls are then
  proved once, in the locale, and hold in every host. A host that moves by steps gets there through
  \<open>moving_host\<close>, which asks the law of its start and of every step; each host interprets it in its own
  theory.
\<close>

locale runtime_host =
  fixes ok :: "'s \<Rightarrow> bool"
    and runtime_of :: "'s \<Rightarrow> Runtime"
  assumes keeps_inv: "ok s \<Longrightarrow> rt_inv (runtime_of s)"
    and keeps_sups: "ok s \<Longrightarrow> sups_ok (runtime_of s)"
begin

lemma one_holder:
  "ok s \<Longrightarrow> Runtime_is_alive (runtime_of s) p \<longleftrightarrow>
     (\<exists>!t. t \<in> set (actors (runtime_of s)) \<and> apid t = p \<and> holds_pid t)"
  using alive_holder_inv [OF keeps_inv] by blast

lemmas send_outcome = send_outcome_inv [OF keeps_inv]

lemmas send_to_running = send_running [OF keeps_inv]

lemma peers_symmetric: "ok s \<Longrightarrow> links_sym (links (sup (sups (runtime_of s) a)))"
  using keeps_sups reachable_links_sym unfolding sups_ok_def by blast

end

text \<open>A locale for hosts that move: a start and steps that keep the two laws.\<close>

locale moving_host =
  fixes start :: "'s \<Rightarrow> bool"
    and move :: "'s \<Rightarrow> 's \<Rightarrow> bool"
    and host_rt :: "'s \<Rightarrow> Runtime"
  assumes start_laws: "start s \<Longrightarrow> rt_inv (host_rt s) \<and> sups_ok (host_rt s)"
    and move_laws: "move s s' \<Longrightarrow> rt_inv (host_rt s) \<and> sups_ok (host_rt s) \<Longrightarrow>
        rt_inv (host_rt s') \<and> sups_ok (host_rt s')"
begin

lemma reached_laws: "move\<^sup>*\<^sup>* s s' \<Longrightarrow> start s \<Longrightarrow> rt_inv (host_rt s') \<and> sups_ok (host_rt s')"
  by (induction rule: rtranclp_induct) (auto simp: start_laws dest: move_laws)

end

sublocale moving_host \<subseteq> runtime_host "\<lambda>s. \<exists>s0. start s0 \<and> move\<^sup>*\<^sup>* s0 s" host_rt
  by unfold_locales (use reached_laws in blast)+

text \<open>The runtime on its own.\<close>

lemma new_laws: "rt_inv Runtime_new \<and> sups_ok Runtime_new"
  by (simp add: new_room sups_ok_def rt_reachable_sups rt_reachable.start)

interpretation plain_host: moving_host "(=) Runtime_new" rt_step "\<lambda>R. R"
  by unfold_locales (auto simp: new_laws rt_step_inv rt_step_sups)

end
