(* ===== verification/Server.thy ===== *)
theory Server
  imports Network Host
begin

text \<open>
  The server of \<^verbatim>\<open>src/network.rs\<close> as a whole: \<^verbatim>\<open>start_server\<close> accepts connections and gives each a task that
  runs \<^verbatim>\<open>handle_connection\<close> on the shared runtime. A task advances one frame at a time
  (\<open>conn_round\<close>), and the rounds of all connections interleave with each other and with everything else
  the runtime does. Binding the socket and the bytes the peers send are the environment's choice.
\<close>

section \<open>One round of a connection's task\<close>

datatype phase = Hello | Serving | Closed "io_error + unit"

definition conn_round :: "phase \<Rightarrow> conn \<Rightarrow> phase \<times> conn" where
  "conn_round ph c =
     (case ph of
        Closed res \<Rightarrow> (Closed res, c)
      | Hello \<Rightarrow>
          (case read_exact_with_timeout 1 (rd c) of
             (Inl e, r) \<Rightarrow> (Closed (Inl e), c\<lparr>rd := r\<rparr>)
           | (Inr version, r) \<Rightarrow>
               if hd version \<noteq> PROTOCOL_VERSION
               then (Closed (Inl (InvalidData ''protocol version mismatch'')), c\<lparr>rd := r\<rparr>)
               else (Serving, c\<lparr>rd := r\<rparr>))
      | Serving \<Rightarrow>
          (case read_exact_with_timeout 1 (rd c) of
             (Inl _, r) \<Rightarrow> (Closed (Inr ()), c\<lparr>rd := r\<rparr>)
           | (Inr header, r) \<Rightarrow>
               (case MessageType_try_from (hd header) of
                  None \<Rightarrow> (Closed (Inl (InvalidData ''unknown message type'')), c\<lparr>rd := r\<rparr>)
                | Some mt \<Rightarrow>
                    (case handle_frame mt (c\<lparr>rd := r\<rparr>) of
                       (Inl e, c') \<Rightarrow> (Closed (Inl e), c')
                     | (Inr _, c') \<Rightarrow> (Serving, c')))))"

fun conn_rounds :: "nat \<Rightarrow> phase \<Rightarrow> conn \<Rightarrow> phase \<times> conn" where
  "conn_rounds 0 ph c = (ph, c)"
| "conn_rounds (Suc n) ph c = (case conn_round ph c of (ph', c') \<Rightarrow> conn_rounds n ph' c')"

section \<open>The server\<close>

record server =
  conns :: "(phase \<times> reader \<times> writer) list"
  host :: Runtime

text \<open>The accept loop: a connection gets a task; an error is logged and the loop goes on.\<close>

definition server_accept :: "(reader \<times> writer) option \<Rightarrow> server \<Rightarrow> server" where
  "server_accept socket S =
     (case socket of
        Some (r, w) \<Rightarrow> S\<lparr>conns := conns S @ [(Hello, r, w)]\<rparr>
      | None \<Rightarrow> S)"

text \<open>
  \<^verbatim>\<open>listen\<close>: \<open>bind\<close> is the error of binding the socket, if any; it is printed, and there is no server then.
\<close>

definition Runtime_listen :: "io_error option \<Rightarrow> Runtime \<Rightarrow> server option" where
  "Runtime_listen bind R =
     (case bind of None \<Rightarrow> Some \<lparr>conns = [], host = R\<rparr> | Some _ \<Rightarrow> None)"

inductive server_step :: "server \<Rightarrow> server \<Rightarrow> bool" where
  accept: "server_step S (server_accept socket S)"
| round: "conns S = us @ (ph, r, w) # vs \<Longrightarrow> conn_round ph \<lparr>rd = r, wr = w, srv = host S\<rparr> = (ph', c') \<Longrightarrow>
     server_step S (S\<lparr>conns := us @ (ph', rd c', wr c') # vs, host := srv c'\<rparr>)"
| other: "rt_step (host S) R \<Longrightarrow> server_step S (S\<lparr>host := R\<rparr>)"

inductive_cases server_stepE: "server_step S S'"

inductive server_reachable :: "server \<Rightarrow> bool" where
  start: "rt_reachable R \<Longrightarrow> Runtime_listen bind R = Some S \<Longrightarrow> server_reachable S"
| step: "server_reachable S \<Longrightarrow> server_step S S' \<Longrightarrow> server_reachable S'"

section \<open>Rounds and the loop\<close>

lemma closed_rounds: "conn_rounds n (Closed res) c = (Closed res, c)"
  by (induction n) (simp_all add: conn_round_def)

lemma serving_rounds:
  "handle_loop c = (res, c') \<Longrightarrow> \<exists>n. conn_rounds n Serving c = (Closed res, c')"
proof (induction c rule: handle_loop.induct)
  case (1 c)
  obtain x r where x: "read_exact_with_timeout (Suc 0) (rd c) = (x, r)" by (meson surj_pair)
  show ?case
  proof (cases "\<exists>mt header c1. x = Inr header \<and> MessageType_try_from (hd header) = Some mt
      \<and> handle_frame mt (c\<lparr>rd := r\<rparr>) = (Inr (), c1)")
    case True
    then obtain mt header c1 where h: "x = Inr header" "MessageType_try_from (hd header) = Some mt"
      "handle_frame mt (c\<lparr>rd := r\<rparr>) = (Inr (), c1)" by blast
    with "1.prems" x have "handle_loop c1 = (res, c')" by (simp add: handle_loop.simps [of c])
    with "1.IH" [OF x [symmetric, folded One_nat_def] h(1,2) h(3) [symmetric]] obtain n where
      "conn_rounds n Serving c1 = (Closed res, c')" by auto
    with x h show ?thesis by (intro exI [of _ "Suc n"]) (simp add: conn_round_def)
  next
    case False
    with "1.prems" x show ?thesis
      by (intro exI [of _ 1])
        (auto simp: handle_loop.simps [of c] conn_round_def split: sum.splits option.splits prod.splits)
  qed
qed

lemma rounds_handle_connection:
  assumes "handle_connection c = (res, c')"
  shows "\<exists>n. conn_rounds n Hello c = (Closed res, c')"
proof -
  obtain x r where x: "read_exact_with_timeout (Suc 0) (rd c) = (x, r)" by (meson surj_pair)
  show ?thesis
  proof (cases "\<exists>v. x = Inr v \<and> hd v = PROTOCOL_VERSION")
    case True
    with assms x have "handle_loop (c\<lparr>rd := r\<rparr>) = (res, c')" by (auto simp: handle_connection_def)
    from serving_rounds [OF this] obtain n where "conn_rounds n Serving (c\<lparr>rd := r\<rparr>) = (Closed res, c')" ..
    with True x show ?thesis by (intro exI [of _ "Suc n"]) (auto simp: conn_round_def)
  next
    case False
    with assms x show ?thesis
      by (intro exI [of _ 1]) (auto simp: handle_connection_def conn_round_def split: sum.splits if_splits)
  qed
qed

section \<open>What a round does to the runtime\<close>

text \<open>The user messages a list of remote sends stands for, applied in order.\<close>

definition remote_sends :: "(pid \<times> bytes) list \<Rightarrow> Runtime \<Rightarrow> Runtime" where
  "remote_sends ms R = fold (\<lambda>(p, d) R. snd (Runtime_send p (User d) R)) ms R"

lemma send_limits [simp]:
  "network_max_payload (snd (Runtime_send p m R)) = network_max_payload R"
  "slab (snd (Runtime_send p m R)) = slab R"
  by (simp_all add: Runtime_send_def split: option.split prod.split)

lemma remote_sends_limits [simp]:
  "network_max_payload (remote_sends ms R) = network_max_payload R" "slab (remote_sends ms R) = slab R"
  by (induction ms arbitrary: R) (auto simp: remote_sends_def)

lemma remote_sends_append: "remote_sends (xs @ ys) R = remote_sends ys (remote_sends xs R)"
  by (simp add: remote_sends_def)

definition within :: "Runtime \<Rightarrow> (pid \<times> bytes) list \<Rightarrow> bool" where
  "within R ms \<longleftrightarrow> (\<forall>(p, d)\<in>set ms. length d \<le> unat (network_max_payload R))"

lemma handle_user_sends:
  assumes "handle_user c = (x, c')"
  shows "\<exists>ms. srv c' = remote_sends ms (srv c) \<and> within (srv c) ms"
proof -
  have none: "srv c' = srv c \<Longrightarrow> ?thesis" by (intro exI [of _ "[]"]) (simp add: remote_sends_def within_def)
  obtain y r where y: "read_exact_with_timeout 12 (rd c) = (y, r)" by (meson surj_pair)
  show ?thesis
  proof (cases y)
    case (Inl e)
    with assms y none show ?thesis by (auto simp: handle_user_def)
  next
    case (Inr meta)
    let ?p = "from_be_bytes (take 8 meta) :: pid" and ?len = "ucast (from_be_bytes (drop 8 meta) :: u32) :: usize"
    obtain z r' where z: "read_exact_with_timeout (unat ?len) r = (z, r')" by (meson surj_pair)
    show ?thesis
    proof (cases "?len > network_max_payload (srv c) \<or> (\<exists>e. z = Inl e)")
      case True
      with assms y Inr z none show ?thesis by (auto simp: handle_user_def Let_def split: if_splits)
    next
      case False
      then obtain data where d: "z = Inr data" by (cases z) auto
      with read_exact_pending(1) z have "length data = unat ?len" by blast
      moreover have "unat ?len \<le> unat (network_max_payload (srv c))" using False by (simp add: word_le_nat_alt [symmetric] not_less)
      moreover have "srv c' = snd (Runtime_send ?p (User data) (srv c))"
        using assms y Inr z d False by (auto simp: handle_user_def Let_def)
      ultimately show ?thesis
        by (intro exI [of _ "[(?p, data)]"]) (simp add: remote_sends_def within_def)
    qed
  qed
qed

lemma handle_frame_sends:
  assumes "handle_frame mt c = (x, c')"
  shows "\<exists>ms. srv c' = remote_sends ms (srv c) \<and> within (srv c) ms"
proof (cases mt)
  case UserFrame
  with assms handle_user_sends show ?thesis by (simp add: handle_frame_def)
next
  case ResolveFrame
  with assms have "srv c' = srv c"
    by (auto simp: handle_frame_def handle_resolve_def Let_def split: prod.splits sum.splits if_splits option.splits)
  then show ?thesis by (intro exI [of _ "[]"]) (simp add: remote_sends_def within_def)
next
  case PingFrame
  with assms have "srv c' = srv c" by (auto simp: handle_frame_def handle_ping_def Let_def split: prod.splits)
  then show ?thesis by (intro exI [of _ "[]"]) (simp add: remote_sends_def within_def)
qed

lemma conn_round_sends:
  assumes "conn_round ph c = (ph', c')"
  shows "\<exists>ms. srv c' = remote_sends ms (srv c) \<and> within (srv c) ms"
proof (cases "srv c' = srv c")
  case True
  then show ?thesis by (intro exI [of _ "[]"]) (simp add: remote_sends_def within_def)
next
  case False
  with assms obtain mt r y where "handle_frame mt (c\<lparr>rd := r\<rparr>) = (y, c')"
    by (auto simp: conn_round_def split: phase.splits prod.splits sum.splits if_splits option.splits)
  from handle_frame_sends [OF this] show ?thesis by (simp add: within_def)
qed

lemma conn_rounds_sends:
  "conn_rounds n ph c = (ph', c') \<Longrightarrow> \<exists>ms. srv c' = remote_sends ms (srv c) \<and> within (srv c) ms"
proof (induction n arbitrary: ph c)
  case 0
  then show ?case by (intro exI [of _ "[]"]) (simp add: remote_sends_def within_def)
next
  case (Suc n)
  obtain ph1 c1 where r: "conn_round ph c = (ph1, c1)" by fastforce
  with Suc.prems have "conn_rounds n ph1 c1 = (ph', c')" by simp
  from Suc.IH [OF this] obtain ms where ms: "srv c' = remote_sends ms (srv c1)" "within (srv c1) ms" by blast
  from conn_round_sends [OF r] obtain ks where "srv c1 = remote_sends ks (srv c)" "within (srv c) ks" by blast
  with ms show ?case
    by (intro exI [of _ "ks @ ms"]) (auto simp: remote_sends_append within_def)
qed

lemma remote_sends_steps: "rt_step\<^sup>*\<^sup>* R (remote_sends ms R)"
proof (induction ms arbitrary: R)
  case (Cons m ms)
  obtain p d where m: "m = (p, d)" by fastforce
  have "rt_step R (snd (Runtime_send p (User d) R))" using rt_step_call [of R "SendTo p (User d)"] by simp
  with Cons [of "snd (Runtime_send p (User d) R)"] show ?case
    by (simp add: m remote_sends_def converse_rtranclp_into_rtranclp)
qed (simp add: remote_sends_def)

section \<open>One connection among many\<close>

text \<open>
  The rounds of one connection, with what the rest of the node does to the runtime before each of
  them, and what serving a list of frames means then: every answer is the one of its moment.
\<close>

fun interleaved :: "(Runtime \<Rightarrow> Runtime) list \<Rightarrow> phase \<Rightarrow> conn \<Rightarrow> phase \<times> conn" where
  "interleaved [] ph c = (ph, c)"
| "interleaved (e # es) ph c =
     (case conn_round ph (c\<lparr>srv := e (srv c)\<rparr>) of (ph', c') \<Rightarrow> interleaved es ph' c')"

fun serve_along :: "((Runtime \<Rightarrow> Runtime) \<times> frame) list \<Rightarrow> Runtime \<Rightarrow> bytes \<times> Runtime" where
  "serve_along [] R = ([], R)"
| "serve_along ((e, f) # xs) R =
     (case serve_along xs (deliver f (e R)) of (bs, R') \<Rightarrow> (answer (e R) f @ bs, R'))"

definition keeps_limits :: "(Runtime \<Rightarrow> Runtime) \<Rightarrow> bool" where
  "keeps_limits e \<longleftrightarrow> (\<forall>R. network_max_payload (e R) = network_max_payload R \<and> network_max_name_len (e R) = network_max_name_len R)"

lemma fits_cong:
  "network_max_payload R' = network_max_payload R \<Longrightarrow> network_max_name_len R' = network_max_name_len R \<Longrightarrow> fits R' f = fits R f"
  by (cases f) simp_all

lemma interleaved_frames:
  assumes "stream (rd c) = concat (map (\<lambda>x. encode (snd x)) xs) @ rest" and "\<forall>(e, f)\<in>set xs. keeps_limits e \<and> fits (srv c) f"
    and "outcomes (wr c) = []" and "serve_along xs (srv c) = (bs, R)"
  shows "\<exists>r. stream r = rest \<and> interleaved (map fst xs) Serving c
    = (Serving, c\<lparr>rd := r, srv := R, wr := (wr c)\<lparr>written := written (wr c) @ bs\<rparr>\<rparr>)"
  using assms
proof (induction xs arbitrary: c bs)
  case Nil
  then show ?case by (intro exI [of _ "rd c"]) simp
next
  case (Cons x xs)
  obtain e f where x: "x = (e, f)" by fastforce
  let ?c = "c\<lparr>srv := e (srv c)\<rparr>"
  have lim: "network_max_payload (e (srv c)) = network_max_payload (srv c)" "network_max_name_len (e (srv c)) = network_max_name_len (srv c)"
    using Cons.prems(2) by (auto simp: x keeps_limits_def)
  have s: "stream (rd ?c) = encode f @ (concat (map (\<lambda>x. encode (snd x)) xs) @ rest)" using Cons.prems(1) by (simp add: x)
  have f: "fits (srv ?c) f" using Cons.prems(2) fits_cong [OF lim] by (simp add: x)
  obtain b mt r1 r where r: "read_exact_with_timeout (Suc 0) (rd ?c) = (Inr [b], r1)" "MessageType_try_from b = Some mt"
    "handle_frame mt (?c\<lparr>rd := r1\<rparr>) = (Inr (), ?c\<lparr>rd := r, srv := deliver f (srv ?c),
       wr := (wr ?c)\<lparr>written := written (wr ?c) @ answer (srv ?c) f\<rparr>\<rparr>)" "stream r = concat (map (\<lambda>x. encode (snd x)) xs) @ rest"
    by (rule frame_handled [OF s f]) (use Cons.prems(3) in simp_all)
  let ?d = "c\<lparr>rd := r, srv := deliver f (e (srv c)), wr := (wr c)\<lparr>written := written (wr c) @ answer (e (srv c)) f\<rparr>\<rparr>"
  obtain bs' where bs: "serve_along xs (srv ?d) = (bs', R)" "bs = answer (e (srv c)) f @ bs'"
    using Cons.prems(4) by (auto simp: x split: prod.splits)
  have "\<forall>(e, g)\<in>set xs. keeps_limits e \<and> fits (srv ?d) g"
    using Cons.prems(2) fits_cong [OF lim] by (auto simp: x)
  with Cons.IH [of ?d bs'] r(4) bs(1) Cons.prems(3) obtain r' where "stream r' = rest"
    "interleaved (map fst xs) Serving ?d = (Serving, ?d\<lparr>rd := r', srv := R, wr := (wr ?d)\<lparr>written := written (wr ?d) @ bs'\<rparr>\<rparr>)"
    by auto
  with r bs(2) show ?case by (intro exI [of _ r']) (simp add: x conn_round_def)
qed

lemma interleaved_append:
  "interleaved (xs @ ys) ph c = (case interleaved xs ph c of (ph', c') \<Rightarrow> interleaved ys ph' c')"
  by (induction xs arbitrary: ph c) (auto split: prod.splits)

section \<open>Properties\<close>

text \<open>
  C24: a peer can only send. Whatever bytes arrive on a connection, in whatever pieces, with timeouts
  and errors anywhere, all that the connection does to the runtime is to send user messages to
  identifiers, each within the payload limit.
\<close>

theorem any_bytes_only_send:
  assumes "handle_connection c = (res, c')"
  shows "\<exists>ms. srv c' = remote_sends ms (srv c)
    \<and> (\<forall>(p, d)\<in>set ms. length d \<le> unat (network_max_payload (srv c)))"
  using rounds_handle_connection [OF assms] conn_rounds_sends unfolding within_def by blast

theorem any_bytes_only_send_witness:
  "\<exists>res c' ms. handle_connection \<lparr>rd = ([1, 0, 9], [ReadTimeout]), wr = \<lparr>outcomes = [], written = []\<rparr>, srv = Runtime_new\<rparr> = (res, c')
    \<and> srv c' = remote_sends ms Runtime_new"
  using any_bytes_only_send [of "\<lparr>rd = ([1, 0, 9], [ReadTimeout]), wr = \<lparr>outcomes = [], written = []\<rparr>, srv = Runtime_new\<rparr>"]
  by (metis (no_types, lifting) conn.select_convs(3) surj_pair)

lemma server_step_host:
  assumes "server_step S S'"
  shows "rt_step\<^sup>*\<^sup>* (host S) (host S')"
  using assms
proof (cases rule: server_step.cases)
  case (accept socket)
  then show ?thesis by (simp add: server_accept_def split: option.split)
next
  case (round us ph r w vs ph' c')
  from conn_round_sends [OF round(3)] obtain ms where "srv c' = remote_sends ms (host S)" by auto
  with round(1) remote_sends_steps show ?thesis by simp
qed auto

interpretation server_host: moving_host "\<lambda>S. \<exists>R bind. rt_reachable R \<and> Runtime_listen bind R = Some S" server_step host
proof
  fix S assume "\<exists>R bind. rt_reachable R \<and> Runtime_listen bind R = Some S"
  then show "rt_inv (host S) \<and> sups_ok (host S)"
    by (auto simp: Runtime_listen_def sups_ok_def rt_reachable_inv rt_reachable_sups split: option.splits)
next
  fix S S' assume "server_step S S'" and "rt_inv (host S) \<and> sups_ok (host S)"
  from server_step_host [OF this(1)] this(2) show "rt_inv (host S') \<and> sups_ok (host S')"
    by (induction rule: rtranclp_induct) (auto simp: rt_step_inv rt_step_sups)
qed

text \<open>
  A node that serves any number of connections stays a runtime: however the tasks of the
  connections interleave with each other and with the node's own actors, the state of the runtime is
  one that local calls alone could have reached, so its invariants hold on a server too.
\<close>

theorem server_keeps_runtime_invariants:
  assumes "server_reachable S"
  shows "rt_reachable (host S)"
  using assms
proof (induction rule: server_reachable.induct)
  case (step S S')
  from server_step_host [OF step(2)] step(3) show ?case
    by (induction rule: rtranclp_induct) (auto intro: rt_reachable.step)
qed (auto simp: Runtime_listen_def split: option.splits)

theorem server_keeps_runtime_invariants_witness:
  "rt_reachable (host (server_accept (Some (([1], []), \<lparr>outcomes = [], written = []\<rparr>)) (the (Runtime_listen None Runtime_new))))"
proof -
  have "server_reachable (the (Runtime_listen None Runtime_new))"
    by (rule server_reachable.start [OF rt_reachable.start, where bind = None]) (simp add: Runtime_listen_def)
  from server_keeps_runtime_invariants [OF server_reachable.step [OF this server_step.accept]] show ?thesis .
qed

text \<open>
  C25: a connection is served in order whatever else the node does. Let a peer send the version byte and
  frames within the limits, and let other connections, actors and callers change the runtime in any
  way that keeps the limits before the first round, before each frame and at the end. Then the
  connection delivers its messages one by one in the order of its frames, each to the runtime of that
  moment, answers each request from the registry of that moment, and ends without an error.
\<close>

theorem interleaved_connection_in_order:
  assumes "stream (rd c) = PROTOCOL_VERSION # concat (map (\<lambda>x. encode (snd x)) xs)" and "outcomes (wr c) = []"
    and "keeps_limits e0" and "\<forall>(e, f)\<in>set xs. keeps_limits e \<and> fits (srv c) f"
    and "serve_along xs (e0 (srv c)) = (bs, R)"
  shows "\<exists>r. interleaved (e0 # map fst xs @ [e1]) Hello c
    = (Closed (Inr ()), c\<lparr>rd := r, srv := e1 R, wr := (wr c)\<lparr>written := written (wr c) @ bs\<rparr>\<rparr>)"
proof -
  obtain r0 where r0: "read_exact_with_timeout (Suc 0) (rd c) = (Inr [PROTOCOL_VERSION], r0)"
    "stream r0 = concat (map (\<lambda>x. encode (snd x)) xs) @ []"
    by (rule handle_loop_header [OF assms(1)]) simp
  let ?c = "c\<lparr>rd := r0, srv := e0 (srv c)\<rparr>"
  have "\<forall>(e, f)\<in>set xs. keeps_limits e \<and> fits (srv ?c) f"
    using assms(3,4) fits_cong [of "e0 (srv c)" "srv c"] by (auto simp: keeps_limits_def)
  with interleaved_frames [of ?c xs "[]" bs R] r0(2) assms(2,5) obtain r where r: "stream r = []"
    "interleaved (map fst xs) Serving ?c = (Serving, ?c\<lparr>rd := r, srv := R, wr := (wr c)\<lparr>written := written (wr c) @ bs\<rparr>\<rparr>)"
    by auto
  obtain r' where r': "read_exact_with_timeout (Suc 0) r = (Inl (stop r), r')"
    by (rule read_exact_short [of r "Suc 0"]) (simp add: r)
  let ?w = "(wr c)\<lparr>written := written (wr c) @ bs\<rparr>"
  have "conn_round Hello (c\<lparr>srv := e0 (srv c)\<rparr>) = (Serving, ?c)" using r0(1) by (simp add: conn_round_def)
  moreover have "conn_round Serving (c\<lparr>rd := r, wr := ?w, srv := e1 R\<rparr>) = (Closed (Inr ()), c\<lparr>rd := r', srv := e1 R, wr := ?w\<rparr>)"
    using r' by (cases c) (simp add: conn_round_def)
  ultimately show ?thesis using r(2) by (intro exI [of _ r']) (simp add: interleaved_append)
qed

theorem interleaved_connection_in_order_witness:
  "\<exists>c'. interleaved [id, Runtime_register ''a'' 5, id] Hello
      \<lparr>rd = (PROTOCOL_VERSION # encode (FResolve ''a''), []), wr = \<lparr>outcomes = [], written = []\<rparr>, srv = Runtime_new\<rparr> = (Closed (Inr ()), c')
    \<and> written (wr c') = to_be_bytes 8 (5 :: pid)"
proof -
  let ?c = "\<lparr>rd = (PROTOCOL_VERSION # encode (FResolve ''a''), []), wr = \<lparr>outcomes = [], written = []\<rparr>, srv = Runtime_new\<rparr>"
  let ?xs = "[(Runtime_register ''a'' 5, FResolve ''a'')]"
  have "stream (rd ?c) = PROTOCOL_VERSION # concat (map (\<lambda>x. encode (snd x)) ?xs)" by (simp add: stream_def)
  moreover have "keeps_limits (id :: Runtime \<Rightarrow> Runtime)" "keeps_limits (Runtime_register ''a'' 5)"
    by (simp_all add: keeps_limits_def Runtime_register_def)
  moreover have "fits Runtime_new (FResolve ''a'')"
    by (simp add: new_limits bytes_of_string_def)
  moreover have "serve_along ?xs (id (srv ?c)) = (to_be_bytes 8 (5 :: pid), Runtime_register ''a'' 5 Runtime_new)"
    by (simp add: Runtime_resolve_def Runtime_register_def names.look_bind)
  ultimately show ?thesis
    using interleaved_connection_in_order [of ?c ?xs id "to_be_bytes 8 (5 :: pid)" "Runtime_register ''a'' 5 Runtime_new" id] by auto
qed

end
