(* ===== verification/Timers.thy ===== *)
theory Timers
  imports Host
begin

text \<open>
  The timers of \<^verbatim>\<open>src/lib.rs\<close>: \<^verbatim>\<open>send_after\<close>, \<^verbatim>\<open>send_interval\<close> and \<^verbatim>\<open>cancel_timer\<close>. A timer is an entry of
  the \<^verbatim>\<open>timers\<close> map (the sending half of a oneshot channel, an address into \<open>signals\<close>) and a spawned
  task that sleeps, sends and removes the entry. A oneshot receiver is ready once its sender has
  been used or dropped. When the sleep has elapsed and the signal is there, \<^verbatim>\<open>select!\<close> may take
  either branch. Time is a clock in milliseconds that any step may find further on; \<open>fired\<close> records
  when a task sent its message, for the statements only. A spawned task is taken to start at once, so
  its sleep or interval counts from the call. An interval of 0 ms makes
  \<^verbatim>\<open>tokio::time::interval\<close> panic, which ends the task where it stands.
\<close>

datatype timer_pc = TSleep | TCleanup | TEnd | TPanicked

record timer_task =
  tid :: u64
  tpid :: pid
  tmsg :: Message
  period :: "nat option"
  deadline :: nat
  cancel_rx :: addr
  tpc :: timer_pc
  armed_at :: nat
  fired :: "nat list"

record timer_sys =
  rt :: Runtime
  ttasks :: "timer_task list"
  signals :: "addr \<Rightarrow> bool"
  next_sig :: addr
  now :: nat

definition timers_new :: timer_sys where
  "timers_new = \<lparr>rt = Runtime_new, ttasks = [], signals = (\<lambda>_. False), next_sig = 0, now = 0\<rparr>"

section \<open>The operations\<close>

text \<open>\<^verbatim>\<open>timers.lock().unwrap().insert(id, tx)\<close>: a displaced sender is dropped.\<close>

definition insert_timer :: "u64 \<Rightarrow> addr \<Rightarrow> timer_sys \<Rightarrow> timer_sys" where
  "insert_timer i a T =
     T\<lparr>rt := (rt T)\<lparr>timers := (timers (rt T))(i \<mapsto> a)\<rparr>,
       signals := (case timers (rt T) i of None \<Rightarrow> signals T | Some b \<Rightarrow> (signals T)(b := True))\<rparr>"

definition remove_timer :: "u64 \<Rightarrow> timer_sys \<Rightarrow> timer_sys" where
  "remove_timer i T =
     T\<lparr>rt := (rt T)\<lparr>timers := (timers (rt T))(i := None)\<rparr>,
       signals := (case timers (rt T) i of None \<Rightarrow> signals T | Some b \<Rightarrow> (signals T)(b := True))\<rparr>"

text \<open>The common start of the two: the next identifier, a oneshot channel, the entry.\<close>

definition new_timer :: "timer_sys \<Rightarrow> u64 \<times> addr \<times> timer_sys" where
  "new_timer T =
     (let i = timer_counter (rt T) + 1;
          T = T\<lparr>rt := (rt T)\<lparr>timer_counter := timer_counter (rt T) + 1\<rparr>\<rparr>;
          a = next_sig T;
          T = T\<lparr>next_sig := next_sig T + 1, signals := (signals T)(a := False)\<rparr>
      in (i, a, insert_timer i a T))"

definition Runtime_send_after :: "pid \<Rightarrow> u64 \<Rightarrow> Message \<Rightarrow> timer_sys \<Rightarrow> u64 \<times> timer_sys" where
  "Runtime_send_after p delay_ms msg T =
     (let (i, a, T) = new_timer T;
          k = \<lparr>tid = i, tpid = p, tmsg = msg, period = None, deadline = now T + unat delay_ms,
               cancel_rx = a, tpc = TSleep, armed_at = now T, fired = []\<rparr>
      in (i, T\<lparr>ttasks := ttasks T @ [k]\<rparr>))"

definition Runtime_send_interval :: "pid \<Rightarrow> u64 \<Rightarrow> Message \<Rightarrow> timer_sys \<Rightarrow> u64 \<times> timer_sys" where
  "Runtime_send_interval p interval_ms msg T =
     (let (i, a, T) = new_timer T;
          k = \<lparr>tid = i, tpid = p, tmsg = msg, period = Some (unat interval_ms), deadline = now T,
               cancel_rx = a, tpc = (if interval_ms = 0 then TPanicked else TSleep),
               armed_at = now T, fired = []\<rparr>
      in (i, T\<lparr>ttasks := ttasks T @ [k]\<rparr>))"

definition Runtime_cancel_timer :: "u64 \<Rightarrow> timer_sys \<Rightarrow> bool \<times> timer_sys" where
  "Runtime_cancel_timer timer_id T =
     (case timers (rt T) timer_id of
        Some a \<Rightarrow> (True, remove_timer timer_id T)
      | None \<Rightarrow> (False, T))"

text \<open>The branches of the tasks' \<^verbatim>\<open>select!\<close> and what follows it.\<close>

definition timer_fire :: "timer_task \<Rightarrow> timer_sys \<Rightarrow> timer_task \<times> timer_sys" where
  "timer_fire k T =
     (let T' = T\<lparr>rt := snd (Runtime_send (tpid k) (tmsg k) (rt T))\<rparr>; k = k\<lparr>fired := fired k @ [now T]\<rparr> in
      case period k of
        None \<Rightarrow> (k\<lparr>tpc := TCleanup\<rparr>, T')
      | Some ms \<Rightarrow> (k\<lparr>deadline := deadline k + ms\<rparr>, T'))"

definition timer_cancelled :: "timer_task \<Rightarrow> timer_task" where
  "timer_cancelled k = k\<lparr>tpc := TCleanup\<rparr>"

definition timer_cleanup :: "timer_task \<Rightarrow> timer_sys \<Rightarrow> timer_task \<times> timer_sys" where
  "timer_cleanup k T = (k\<lparr>tpc := TEnd\<rparr>, remove_timer (tid k) T)"

section \<open>Interleavings\<close>

inductive timer_step :: "timer_sys \<Rightarrow> timer_sys \<Rightarrow> bool" where
  after: "timer_step T (snd (Runtime_send_after p ms m T))"
| interval: "timer_step T (snd (Runtime_send_interval p ms m T))"
| cancel: "timer_step T (snd (Runtime_cancel_timer i T))"
| fire: "ttasks T = us @ k # vs \<Longrightarrow> tpc k = TSleep \<Longrightarrow> deadline k \<le> now T \<Longrightarrow> timer_fire k T = (k', T') \<Longrightarrow>
     timer_step T (T'\<lparr>ttasks := us @ k' # vs\<rparr>)"
| signal: "ttasks T = us @ k # vs \<Longrightarrow> tpc k = TSleep \<Longrightarrow> signals T (cancel_rx k) \<Longrightarrow>
     timer_step T (T\<lparr>ttasks := us @ timer_cancelled k # vs\<rparr>)"
| cleanup: "ttasks T = us @ k # vs \<Longrightarrow> tpc k = TCleanup \<Longrightarrow> timer_cleanup k T = (k', T') \<Longrightarrow>
     timer_step T (T'\<lparr>ttasks := us @ k' # vs\<rparr>)"
| other: "rt_step (rt T) R \<Longrightarrow> timer_step T (T\<lparr>rt := R\<rparr>)"
| time: "n \<le> m \<Longrightarrow> now T = n \<Longrightarrow> timer_step T (T\<lparr>now := m\<rparr>)"

inductive timer_reachable :: "timer_sys \<Rightarrow> bool" where
  start: "timer_reachable timers_new"
| step: "timer_reachable T \<Longrightarrow> timer_step T T' \<Longrightarrow> timer_reachable T'"

section \<open>The rest of the runtime leaves the timers alone\<close>

definition same_timers :: "Runtime \<Rightarrow> Runtime \<Rightarrow> bool" where
  "same_timers R R' \<longleftrightarrow> timers R' = timers R \<and> timer_counter R' = timer_counter R"

lemma same_timers_refl [simp]: "same_timers R R"
  by (simp add: same_timers_def)

lemma same_timers_ops [simp]:
  "same_timers R (remove_mailbox p R)" "same_timers R (snd (Runtime_send p m R))"
  "same_timers R (sup_call a x R)" "same_timers R (sup_notify ks a p R)"
  "same_timers R (Runtime_hot_swap p h R)"
  "same_timers R (snd (Runtime_take_observed_message_matching p f R))"
  by (simp_all add: same_timers_def remove_mailbox_def Runtime_send_def sup_call_def sup_notify_def
      Runtime_hot_swap_def Runtime_take_observed_message_matching_def split: option.split prod.split)

lemma same_timers_slab [simp]: "same_timers R (R\<lparr>slab := sl\<rparr>)"
  by (simp add: same_timers_def)

lemma same_timers_spawn:
  "spawn_task b R = Some (p, R') \<Longrightarrow> same_timers R R'"
  "Runtime_spawn_observed_handler n R = Some (p, R') \<Longrightarrow> same_timers R R'"
  "Runtime_spawn_with_path_observed n path R = Some (p, R') \<Longrightarrow> same_timers R R'"
  by (auto simp: spawn_task_def Runtime_spawn_observed_handler_def Runtime_spawn_with_path_observed_def
      Runtime_register_path_def same_timers_def remove_mailbox_def Let_def split: option.splits)

lemma same_timers_frame [simp]:
  "same_timers R (Runtime_register name p R)" "same_timers R (Runtime_unregister name R)"
  "same_timers R (Runtime_register_path name p R)" "same_timers R (Runtime_unregister_path name R)"
  "same_timers R (Runtime_remove_path_supervisor name R)" "same_timers R (Runtime_set_release_gil_limits i j R)"
  "same_timers R (Runtime_set_release_gil_strict b R)" "same_timers R (Runtime_set_network_io_timeout d R)"
  "same_timers R (Runtime_set_network_max_payload i R)" "same_timers R (Runtime_set_network_max_name_len i R)"
  "same_timers R (Runtime_set_monitor_backoff f d i R)"
  by (simp_all add: same_timers_def frame_op_defs)

lemma same_timers_path: "path_entry path R = (a, R') \<Longrightarrow> same_timers R R'"
  by (auto simp: path_entry_def same_timers_def split: option.splits)

lemma same_timers_trans: "same_timers R R1 \<Longrightarrow> same_timers R1 R2 \<Longrightarrow> same_timers R R2"
  by (simp add: same_timers_def)

lemma same_timers_watch: "same_timers R (fold (\<lambda>(_, p). sup_call 0 (Watch p)) es R)"
  by (induction es arbitrary: R) (auto intro: same_timers_trans [OF same_timers_ops(3)])

lemma same_timers_exec:
  assumes "rt_exec x R = Some R'"
  shows "same_timers R R'"
proof (cases x)
  case (CreatePathSup path)
  with assms same_timers_path [of path R] show ?thesis
    by (cases "path_entry path R") (auto simp: Runtime_create_path_supervisor_def)
next
  case (PathSupervise path p f st)
  obtain a R1 where e: "path_entry path R = (a, R1)" by fastforce
  with assms PathSupervise same_timers_trans [OF same_timers_path [OF e]] show ?thesis
    by (auto simp: Runtime_path_supervise_with_factory_def Let_def)
next
  case (WatchPath ks pre)
  with assms same_timers_watch show ?thesis by (auto simp: Runtime_watch_path_def)
next
  case (SendNamed name m)
  with assms send_named_cases [of name m R] show ?thesis by auto
qed (use assms in \<open>auto simp: call_op_defs split: option.splits dest: same_timers_spawn\<close>)

lemma same_timers_step: "rt_step R R' \<Longrightarrow> same_timers R R'"
proof (induction rule: rt_step.induct)
  case (api R x R')
  then show ?case by (simp add: same_timers_exec)
next
  case (poll R us t vs t' R')
  from poll(4) show ?case
    by (cases rule: body_poll_cases) (auto simp: finish_body_def same_timers_def)
next
  case (exit R us t vs ps ord t' R')
  have p: "same_timers R (case path_supervisors R k of None \<Rightarrow> R | Some a \<Rightarrow>
      if Supervisor_contains_child (sup (sups R a)) q then sup_notify (ord a) a q R else R)" for k q
    by (simp split: option.split)
  have "same_timers R R'"
    using exit(5) p
    by (cases "pc t") (auto simp: exit_step_def split: list.splits)
  then show ?case by (simp add: same_timers_def)
next
  case (notify R ks p)
  show ?case by simp
qed (auto simp: finish_body_def same_timers_def)

section \<open>The invariant of the timers\<close>

text \<open>
  Task number \<open>a\<close> has the identifier \<open>a + 1\<close> and the signal at address \<open>a\<close>; its entry is in the map
  exactly as long as it has not been signalled; it is in the map until it has cleaned up.
\<close>

definition timing_ok :: "timer_task \<Rightarrow> bool" where
  "timing_ok k \<longleftrightarrow>
     (case period k of
        None \<Rightarrow> length (fired k) \<le> 1 \<and> (tpc k = TSleep \<longrightarrow> fired k = []) \<and> (\<forall>x\<in>set (fired k). deadline k \<le> x)
      | Some ms \<Rightarrow> deadline k = armed_at k + length (fired k) * ms
          \<and> (\<forall>i<length (fired k). armed_at k + i * ms \<le> fired k ! i))"

definition timer_inv :: "timer_sys \<Rightarrow> bool" where
  "timer_inv T \<longleftrightarrow>
     (let n = length (ttasks T) in
      timer_counter (rt T) = of_nat n \<and> next_sig T = n
      \<and> (\<forall>a<n. tid (ttasks T ! a) = of_nat (Suc a) \<and> cancel_rx (ttasks T ! a) = a
           \<and> timing_ok (ttasks T ! a)
           \<and> (signals T a \<longleftrightarrow> timers (rt T) (of_nat (Suc a)) \<noteq> Some a)
           \<and> (tpc (ttasks T ! a) = TEnd \<longrightarrow> signals T a))
      \<and> (\<forall>i a. timers (rt T) i = Some a \<longrightarrow> a < n \<and> i = of_nat (Suc a)))"

lemma timer_inv_task:
  assumes "timer_inv T" and "a < length (ttasks T)"
  shows "tid (ttasks T ! a) = of_nat (Suc a)" and "cancel_rx (ttasks T ! a) = a"
    and "timing_ok (ttasks T ! a)" and "signals T a \<longleftrightarrow> timers (rt T) (of_nat (Suc a)) \<noteq> Some a"
    and "tpc (ttasks T ! a) = TEnd \<Longrightarrow> signals T a"
  using assms by (auto simp: timer_inv_def Let_def simp del: of_nat_Suc)

lemma timer_inv_entry:
  "timer_inv T \<Longrightarrow> timers (rt T) i = Some a \<Longrightarrow> a < length (ttasks T) \<and> i = of_nat (Suc a)"
  by (auto simp: timer_inv_def Let_def simp del: of_nat_Suc)

lemma of_nat_inj_small:
  assumes "(of_nat (Suc a) :: u64) = of_nat (Suc b)" and "Suc a < 2 ^ 64" and "Suc b < 2 ^ 64"
  shows "a = b"
proof -
  from assms(1) have "unat (of_nat (Suc a) :: u64) = unat (of_nat (Suc b) :: u64)" by simp
  with assms(2,3) show ?thesis by (simp add: unat_of_nat take_bit_nat_eq_self del: of_nat_Suc)
qed

lemma fresh_timer:
  assumes "timer_inv T" and "Suc (length (ttasks T)) < 2 ^ 64"
  shows "timers (rt T) (timer_counter (rt T) + 1) = None"
proof (rule ccontr)
  assume "timers (rt T) (timer_counter (rt T) + 1) \<noteq> None"
  then obtain a where a: "timers (rt T) (timer_counter (rt T) + 1) = Some a" by blast
  have "timer_counter (rt T) + 1 = of_nat (Suc (length (ttasks T)))"
    using assms(1) by (simp add: timer_inv_def Let_def)
  with timer_inv_entry [OF assms(1) a] have "a < length (ttasks T)"
    "(of_nat (Suc (length (ttasks T))) :: u64) = of_nat (Suc a)" by simp_all
  with of_nat_inj_small [OF this(2)] assms(2) show False by simp
qed

lemma new_timer_spec:
  assumes "timer_inv T" and "Suc (length (ttasks T)) < 2 ^ 64"
  shows "new_timer T = (of_nat (Suc (length (ttasks T))), length (ttasks T),
     T\<lparr>rt := (rt T)\<lparr>timer_counter := of_nat (Suc (length (ttasks T))),
         timers := (timers (rt T))(of_nat (Suc (length (ttasks T))) \<mapsto> length (ttasks T))\<rparr>,
       next_sig := Suc (length (ttasks T)), signals := (signals T)(length (ttasks T) := False)\<rparr>)"
proof -
  have c: "timer_counter (rt T) = of_nat (length (ttasks T))" "next_sig T = length (ttasks T)"
    using assms(1) by (simp_all add: timer_inv_def Let_def)
  have i: "timer_counter (rt T) + 1 = of_nat (Suc (length (ttasks T)))" by (simp add: c)
  show ?thesis
    using fresh_timer [OF assms] unfolding new_timer_def insert_timer_def Let_def i
    by (simp add: c del: of_nat_Suc)
qed

text \<open>A timer added: what both creating functions do.\<close>

lemma timer_inv_add:
  assumes inv: "timer_inv T" and n: "Suc (length (ttasks T)) < 2 ^ 64" and new: "new_timer T = (i, a, T1)"
    and k: "tid k = i" "cancel_rx k = a" "timing_ok k" "tpc k \<noteq> TEnd"
  shows "timer_inv (T1\<lparr>ttasks := ttasks T @ [k]\<rparr>)"
proof -
  let ?n = "length (ttasks T)"
  note sp = new_timer_spec [OF inv n, unfolded new]
  have T1: "ttasks T1 = ttasks T" "timers (rt T1) = (timers (rt T))(of_nat (Suc ?n) \<mapsto> ?n)"
    "timer_counter (rt T1) = of_nat (Suc ?n)" "next_sig T1 = Suc ?n" "signals T1 = (signals T)(?n := False)"
    and i: "i = of_nat (Suc ?n)" "a = ?n"
    using sp by (simp_all del: of_nat_Suc)
  have old: "(of_nat (Suc b) :: u64) \<noteq> of_nat (Suc ?n)" if "b < ?n" for b
    using of_nat_inj_small [of b ?n] that n by linarith
  show ?thesis
    unfolding timer_inv_def Let_def
  proof (intro conjI allI impI)
    fix b assume b: "b < length (ttasks (T1\<lparr>ttasks := ttasks T @ [k]\<rparr>))"
    show "tid (ttasks (T1\<lparr>ttasks := ttasks T @ [k]\<rparr>) ! b) = of_nat (Suc b)"
      "cancel_rx (ttasks (T1\<lparr>ttasks := ttasks T @ [k]\<rparr>) ! b) = b"
      "timing_ok (ttasks (T1\<lparr>ttasks := ttasks T @ [k]\<rparr>) ! b)"
      "signals (T1\<lparr>ttasks := ttasks T @ [k]\<rparr>) b
         \<longleftrightarrow> timers (rt (T1\<lparr>ttasks := ttasks T @ [k]\<rparr>)) (of_nat (Suc b)) \<noteq> Some b"
      using b timer_inv_task [OF inv, of b] old [of b] k i
      by (cases "b = ?n"; simp add: T1 nth_append del: of_nat_Suc)+
    assume "tpc (ttasks (T1\<lparr>ttasks := ttasks T @ [k]\<rparr>) ! b) = TEnd"
    then show "signals (T1\<lparr>ttasks := ttasks T @ [k]\<rparr>) b"
      using b timer_inv_task(5) [OF inv, of b] k
      by (cases "b = ?n") (simp_all add: T1 nth_append)
  next
    fix j b assume "timers (rt (T1\<lparr>ttasks := ttasks T @ [k]\<rparr>)) j = Some b"
    then show "b < length (ttasks (T1\<lparr>ttasks := ttasks T @ [k]\<rparr>))" "j = of_nat (Suc b)"
      using timer_inv_entry [OF inv, of j b] by (auto simp: T1 split: if_splits simp del: of_nat_Suc)
  qed (simp_all add: T1)
qed

lemma timer_inv_remove:
  assumes inv: "timer_inv T" and n: "length (ttasks T) < 2 ^ 64"
  shows "timer_inv (remove_timer i T)"
proof (cases "timers (rt T) i")
  case None
  then have "(timers (rt T))(i := None) = timers (rt T)" by auto
  with None show ?thesis using inv by (simp add: remove_timer_def)
next
  case (Some b)
  from timer_inv_entry [OF inv Some] have b: "b < length (ttasks T)" and i: "i = of_nat (Suc b)" by auto
  have neq: "(of_nat (Suc a) :: u64) \<noteq> of_nat (Suc b)" if "a < length (ttasks T)" "a \<noteq> b" for a
    using of_nat_inj_small [of a b] that b n by linarith
  show ?thesis
    unfolding timer_inv_def Let_def
  proof (intro conjI allI impI)
    fix a assume "a < length (ttasks (remove_timer i T))"
    then have a: "a < length (ttasks T)" by (simp add: remove_timer_def)
    note f = timer_inv_task [OF inv a]
    show "tid (ttasks (remove_timer i T) ! a) = of_nat (Suc a)" "cancel_rx (ttasks (remove_timer i T) ! a) = a"
      "timing_ok (ttasks (remove_timer i T) ! a)"
      using f(1-3) by (simp_all add: remove_timer_def)
    show "signals (remove_timer i T) a \<longleftrightarrow> timers (rt (remove_timer i T)) (of_nat (Suc a)) \<noteq> Some a"
      using f(4) neq [OF a] by (cases "a = b") (simp_all add: remove_timer_def Some [unfolded i] i del: of_nat_Suc)
    assume "tpc (ttasks (remove_timer i T) ! a) = TEnd"
    then show "signals (remove_timer i T) a" using f(5) by (simp add: remove_timer_def Some)
  next
    fix j a assume "timers (rt (remove_timer i T)) j = Some a"
    then show "a < length (ttasks (remove_timer i T))" "j = of_nat (Suc a)"
      using timer_inv_entry [OF inv, of j a] by (auto simp: remove_timer_def split: if_splits simp del: of_nat_Suc)
  qed (use inv in \<open>simp_all add: remove_timer_def timer_inv_def Let_def\<close>)
qed

text \<open>A task replaced by a later state of itself.\<close>

lemma timer_inv_replace:
  assumes inv: "timer_inv T" and ts: "ttasks T = us @ k # vs" and k: "tid k' = tid k" "cancel_rx k' = cancel_rx k"
    and ok: "timing_ok k'" and e: "tpc k' = TEnd \<Longrightarrow> signals T (cancel_rx k)"
  shows "timer_inv (T\<lparr>ttasks := us @ k' # vs\<rparr>)"
proof -
  let ?m = "length us"
  have k0: "ttasks T ! ?m = k" "?m < length (ttasks T)" using ts by simp_all
  have nth: "(us @ k' # vs) ! a = (if a = ?m then k' else ttasks T ! a)" for a
    using ts by (auto simp: nth_append nth_Cons' )
  show ?thesis
    unfolding timer_inv_def Let_def
  proof (intro conjI allI impI)
    fix a assume "a < length (ttasks (T\<lparr>ttasks := us @ k' # vs\<rparr>))"
    then have a: "a < length (ttasks T)" by (simp add: ts)
    note f = timer_inv_task [OF inv a]
    show "tid (ttasks (T\<lparr>ttasks := us @ k' # vs\<rparr>) ! a) = of_nat (Suc a)"
      "cancel_rx (ttasks (T\<lparr>ttasks := us @ k' # vs\<rparr>) ! a) = a"
      "timing_ok (ttasks (T\<lparr>ttasks := us @ k' # vs\<rparr>) ! a)"
      "signals (T\<lparr>ttasks := us @ k' # vs\<rparr>) a
        \<longleftrightarrow> timers (rt (T\<lparr>ttasks := us @ k' # vs\<rparr>)) (of_nat (Suc a)) \<noteq> Some a"
      using f(1-4) k ok k0 by (auto simp: nth simp del: of_nat_Suc)
    assume "tpc (ttasks (T\<lparr>ttasks := us @ k' # vs\<rparr>) ! a) = TEnd"
    then show "signals (T\<lparr>ttasks := us @ k' # vs\<rparr>) a"
      using f(2,5) e k0 by (auto simp: nth split: if_splits)
  next
    fix j a assume "timers (rt (T\<lparr>ttasks := us @ k' # vs\<rparr>)) j = Some a"
    then show "a < length (ttasks (T\<lparr>ttasks := us @ k' # vs\<rparr>))" "j = of_nat (Suc a)"
      using timer_inv_entry [OF inv, of j a] by (simp_all add: ts del: of_nat_Suc)
  qed (use inv ts in \<open>simp_all add: timer_inv_def Let_def\<close>)
qed

lemma timer_inv_rt:
  assumes "timer_inv T" and "same_timers (rt T) R"
  shows "timer_inv (T\<lparr>rt := R\<rparr>)" and "timer_inv (T\<lparr>now := m\<rparr>)"
proof -
  from assms(2) have eq: "timers R = timers (rt T)" "timer_counter R = timer_counter (rt T)"
    by (simp_all add: same_timers_def)
  have f: "rt (T\<lparr>rt := R\<rparr>) = R" "ttasks (T\<lparr>rt := R\<rparr>) = ttasks T" "signals (T\<lparr>rt := R\<rparr>) = signals T"
    "next_sig (T\<lparr>rt := R\<rparr>) = next_sig T" "rt (T\<lparr>now := m\<rparr>) = rt T" "ttasks (T\<lparr>now := m\<rparr>) = ttasks T"
    "signals (T\<lparr>now := m\<rparr>) = signals T" "next_sig (T\<lparr>now := m\<rparr>) = next_sig T" by simp_all
  show "timer_inv (T\<lparr>rt := R\<rparr>)" "timer_inv (T\<lparr>now := m\<rparr>)"
    using assms(1) unfolding timer_inv_def f eq by assumption+
qed

text \<open>What a task never changes of itself, and that tasks are only ever added.\<close>

definition same_timer :: "timer_task \<Rightarrow> timer_task \<Rightarrow> bool" where
  "same_timer k k' \<longleftrightarrow> tid k' = tid k \<and> tpid k' = tpid k \<and> tmsg k' = tmsg k \<and> period k' = period k
     \<and> cancel_rx k' = cancel_rx k \<and> armed_at k' = armed_at k
     \<and> (period k = None \<longrightarrow> deadline k' = deadline k)"

definition extends :: "timer_task list \<Rightarrow> timer_task list \<Rightarrow> bool" where
  "extends ks ks' \<longleftrightarrow> length ks \<le> length ks' \<and> (\<forall>a<length ks. same_timer (ks ! a) (ks' ! a))"

lemma same_timer_refl [simp]: "same_timer k k"
  by (simp add: same_timer_def)

lemma extends_refl [simp]: "extends ks ks"
  by (simp add: extends_def)

lemma extends_append [simp]: "extends ks (ks @ ls)"
  by (simp add: extends_def nth_append)

lemma extends_replace: "same_timer k k' \<Longrightarrow> extends (us @ k # vs) (us @ k' # vs)"
  by (auto simp: extends_def nth_append nth_Cons' )

lemma extends_trans:
  assumes "extends ks ls" and "extends ls ms"
  shows "extends ks ms"
  unfolding extends_def
proof (intro conjI allI impI)
  show "length ks \<le> length ms" using assms by (simp add: extends_def)
  fix a assume "a < length ks"
  with assms have "same_timer (ks ! a) (ls ! a)" "same_timer (ls ! a) (ms ! a)" by (auto simp: extends_def)
  then show "same_timer (ks ! a) (ms ! a)" by (auto simp: same_timer_def)
qed

lemma remove_timer_simps [simp]: "ttasks (remove_timer i T) = ttasks T" "now (remove_timer i T) = now T"
  by (simp_all add: remove_timer_def)

lemma new_timer_tasks: "new_timer T = (i, a, T1) \<Longrightarrow> ttasks T1 = ttasks T \<and> now T1 = now T"
  by (auto simp: new_timer_def insert_timer_def Let_def)

lemma timer_fire_same: "timer_fire k T = (k', T') \<Longrightarrow> same_timer k k'"
  by (auto simp: timer_fire_def same_timer_def Let_def split: option.splits)

lemma timer_step_extends: "timer_step T T' \<Longrightarrow> extends (ttasks T) (ttasks T')"
proof (induction rule: timer_step.induct)
  case (after T p ms m)
  obtain i a T1 where "new_timer T = (i, a, T1)" by (metis prod_cases3)
  with new_timer_tasks [OF this] show ?case by (simp add: Runtime_send_after_def Let_def)
next
  case (interval T p ms m)
  obtain i a T1 where "new_timer T = (i, a, T1)" by (metis prod_cases3)
  with new_timer_tasks [OF this] show ?case by (simp add: Runtime_send_interval_def Let_def)
next
  case (cancel T i)
  show ?case by (simp add: Runtime_cancel_timer_def split: option.split)
next
  case (fire T us k vs k' T')
  then show ?case by (simp add: extends_replace timer_fire_same)
next
  case (signal T us k vs)
  then show ?case by (simp add: extends_replace timer_cancelled_def same_timer_def)
next
  case (cleanup T us k vs k' T')
  then show ?case by (auto simp: timer_cleanup_def same_timer_def intro!: extends_replace)
qed simp_all

lemma timing_ok_fire:
  assumes "timing_ok k" and "tpc k = TSleep" and "deadline k \<le> now T" and "timer_fire k T = (k', T')"
  shows "timing_ok k'" and "tpc k' \<noteq> TEnd"
  using assms
  by (auto simp: timing_ok_def timer_fire_def Let_def nth_append less_Suc_eq split: option.splits)

lemma timer_inv_fire:
  assumes inv: "timer_inv T" and ts: "ttasks T = us @ k # vs"
    and f: "tpc k = TSleep" "deadline k \<le> now T" "timer_fire k T = (k', T')"
  shows "timer_inv (T'\<lparr>ttasks := us @ k' # vs\<rparr>)"
proof -
  have ok: "timing_ok k" using timer_inv_task(3) [OF inv, of "length us"] ts by simp
  have T': "T' = T\<lparr>rt := rt T'\<rparr>" "same_timers (rt T) (rt T')"
    using f(3) by (auto simp: timer_fire_def Let_def split: option.splits)
  have "timer_inv T'" using timer_inv_rt(1) [OF inv T'(2)] T'(1) by simp
  moreover have "ttasks T' = us @ k # vs"
    using T'(1) ts by (metis timer_sys.select_convs(2) timer_sys.surjective timer_sys.update_convs(1))
  ultimately show ?thesis
    using timing_ok_fire [OF ok f] timer_fire_same [OF f(3)]
    by (intro timer_inv_replace) (auto simp: same_timer_def)
qed

lemma timer_inv_cleanup:
  assumes inv: "timer_inv T" and ts: "ttasks T = us @ k # vs" and n: "length (ttasks T) < 2 ^ 64"
    and c: "tpc k = TCleanup" "timer_cleanup k T = (k', T')"
  shows "timer_inv (T'\<lparr>ttasks := us @ k' # vs\<rparr>)"
proof -
  have k: "tid k = of_nat (Suc (length us))" "cancel_rx k = length us" "timing_ok k"
    using timer_inv_task(1-3) [OF inv, of "length us"] ts by simp_all
  have T': "T' = remove_timer (tid k) T" "k' = k\<lparr>tpc := TEnd\<rparr>" using c(2) by (auto simp: timer_cleanup_def)
  have inv': "timer_inv T'" unfolding T' by (rule timer_inv_remove [OF inv n])
  have "timers (rt T') (of_nat (Suc (length us))) = None" unfolding T' k(1) by (simp add: remove_timer_def)
  then have "signals T' (length us)"
    using timer_inv_task(4) [OF inv', of "length us"] ts T'(1) by simp
  then show ?thesis
    by (intro timer_inv_replace [OF inv', of us k vs])
      (use ts c(1) k T' in \<open>auto simp: timing_ok_def split: option.splits\<close>)
qed

lemma timer_step_inv:
  assumes "timer_step T T'" and "timer_inv T" and "length (ttasks T') < 2 ^ 64"
  shows "timer_inv T'"
  using assms
proof (induction rule: timer_step.induct)
  case (after T p ms m)
  obtain i a T1 where new: "new_timer T = (i, a, T1)" by (metis prod_cases3)
  with after new_timer_tasks [OF new] show ?case
    by (auto simp: Runtime_send_after_def Let_def timing_ok_def intro!: timer_inv_add [OF _ _ new])
next
  case (interval T p ms m)
  obtain i a T1 where new: "new_timer T = (i, a, T1)" by (metis prod_cases3)
  with interval new_timer_tasks [OF new] show ?case
    by (auto simp: Runtime_send_interval_def Let_def timing_ok_def intro!: timer_inv_add [OF _ _ new])
next
  case (cancel T i)
  have "length (ttasks T) < 2 ^ 64"
    using cancel(2) by (simp add: Runtime_cancel_timer_def split: option.splits)
  with cancel(1) show ?case by (simp add: Runtime_cancel_timer_def timer_inv_remove split: option.split)
next
  case (fire T us k vs k' T')
  then show ?case by (intro timer_inv_fire)
next
  case (signal T us k vs)
  have ok: "timing_ok k" using timer_inv_task(3) [OF signal(4), of "length us"] signal(1) by simp
  show ?case
    by (rule timer_inv_replace [OF signal(4,1)])
      (use ok signal(2) in \<open>auto simp: timer_cancelled_def timing_ok_def split: option.splits\<close>)
next
  case (cleanup T us k vs k' T')
  then show ?case by (intro timer_inv_cleanup) simp_all
next
  case (other T R)
  then show ?case by (simp add: timer_inv_rt same_timers_step)
next
  case (time n m T)
  then show ?case by (simp add: timer_inv_rt(2) [of T "rt T"])
qed

lemma timer_reachable_inv: "timer_reachable T \<Longrightarrow> length (ttasks T) < 2 ^ 64 \<Longrightarrow> timer_inv T"
proof (induction rule: timer_reachable.induct)
  case start
  show ?case by (simp add: timer_inv_def timers_new_def Runtime_new_def)
next
  case (step T T')
  from timer_step_extends [OF step.hyps(2)] step.prems have "length (ttasks T) < 2 ^ 64"
    by (simp add: extends_def)
  with step show ?case by (simp add: timer_step_inv)
qed

lemma timer_run:
  "timer_step\<^sup>*\<^sup>* T T' \<Longrightarrow> timer_reachable T \<Longrightarrow> timer_reachable T' \<and> extends (ttasks T) (ttasks T')"
proof (induction rule: rtranclp_induct)
  case (step U V)
  then show ?case using timer_step_extends [of U V] extends_trans timer_reachable.step by blast
qed simp

section \<open>A runtime with timers is a host of a runtime\<close>

lemma timer_step_rt:
  assumes "timer_step T T'" and "rt_inv (rt T)" and "sups_ok (rt T)"
  shows "rt_inv (rt T') \<and> sups_ok (rt T')"
  using assms
proof (induction rule: timer_step.induct)
  case (other T R)
  then show ?case by (simp add: rt_step_inv rt_step_sups)
next
  case (fire T us k vs k' T')
  then have "rt T' = snd (Runtime_send (tpid k) (tmsg k) (rt T))"
    by (auto simp: timer_fire_def Let_def split: option.splits)
  with fire(5,6) show ?case by (simp add: rt_inv_send sups_ok_frame)
qed (auto simp: Runtime_send_after_def Runtime_send_interval_def Runtime_cancel_timer_def new_timer_def
    insert_timer_def remove_timer_def timer_cleanup_def Let_def sups_ok_def
    split: option.splits intro: rt_inv_core)

interpretation timer_host: moving_host "(=) timers_new" timer_step rt
  by unfold_locales (auto simp: timers_new_def new_laws dest: timer_step_rt)

lemma timer_reachable_run: "timer_reachable T \<Longrightarrow> \<exists>T0. timers_new = T0 \<and> timer_step\<^sup>*\<^sup>* T0 T"
  by (induction rule: timer_reachable.induct) auto

section \<open>Properties\<close>

text \<open>
  C18: a one-shot timer sends at most once and never early. After \<^verbatim>\<open>send_after(p, d, m)\<close> at time \<open>s\<close>,
  whatever happens later, the task of the returned identifier is still addressed to \<open>p\<close> with the
  message \<open>m\<close>, has sent it at most once, and if so not before \<open>s + d\<close>.
\<close>

theorem one_shot_timer_sends_once:
  assumes "timer_reachable T" and "Runtime_send_after p ms m T = (i, T1)" and "timer_step\<^sup>*\<^sup>* T1 T2"
    and "length (ttasks T2) < 2 ^ 64" and "k = ttasks T2 ! length (ttasks T)"
  shows "tid k = i \<and> tpid k = p \<and> tmsg k = m \<and> length (fired k) \<le> 1
    \<and> (\<forall>x\<in>set (fired k). now T + unat ms \<le> x)"
proof -
  obtain j a T0 where new: "new_timer T = (j, a, T0)" by (metis prod_cases3)
  note T0 = new_timer_tasks [OF new]
  define k1 where "k1 = \<lparr>tid = i, tpid = p, tmsg = m, period = None, deadline = now T + unat ms,
    cancel_rx = a, tpc = TSleep, armed_at = now T, fired = []\<rparr>"
  have "i = j" "T1 = T0\<lparr>ttasks := ttasks T @ [k1]\<rparr>"
    using assms(2) new T0 by (auto simp: Runtime_send_after_def Let_def k1_def)
  then have t1: "ttasks T1 = ttasks T @ [k1]" by simp
  have "timer_reachable T1"
    using timer_reachable.step [OF assms(1) timer_step.after [of T p ms m]] assms(2) by simp
  from timer_run [OF assms(3) this] have r: "timer_reachable T2" and e: "extends (ttasks T1) (ttasks T2)" by auto
  then have lt: "length (ttasks T) < length (ttasks T2)" and s: "same_timer k1 k"
    by (auto simp: extends_def t1 assms(5) nth_append)
  from timer_inv_task(3) [OF timer_reachable_inv [OF r assms(4)] lt] have "timing_ok k" by (simp add: assms(5))
  with s show ?thesis by (auto simp: same_timer_def k1_def timing_ok_def)
qed

theorem one_shot_timer_sends_once_witness:
  "\<exists>i T1. Runtime_send_after 5 100 (User [1]) timers_new = (i, T1) \<and> tid (ttasks T1 ! 0) = i
     \<and> length (fired (ttasks T1 ! 0)) \<le> 1"
proof -
  obtain i T1 where s: "Runtime_send_after 5 100 (User [1]) timers_new = (i, T1)" by fastforce
  then have "length (ttasks T1) = 1"
    by (auto simp: Runtime_send_after_def new_timer_def insert_timer_def timers_new_def Let_def)
  with one_shot_timer_sends_once [OF timer_reachable.start s rtranclp.rtrancl_refl _ refl] s
  show ?thesis by (simp add: timers_new_def)
qed

text \<open>
  C19: a timer that is due delivers. In every reachable state, the task of a timer that still sleeps and
  whose time has come can fire; then its message stands at the end of the queue of the running actor
  that holds the identifier, no other mailbox has changed, and a one-shot timer has only its clean-up
  left while an interval timer waits for the next period.
\<close>

theorem due_timer_delivers:
  assumes "timer_reachable T" and "ttasks T = us @ k # vs" and "tpc k = TSleep" and "deadline k \<le> now T"
    and "t \<in> set (actors (rt T))" and "apid t = tpid k" and "pc t = Running" and "mailboxes (rt T) (tpid k) = Some (abox t)"
  shows "\<exists>k' T'. timer_step T T' \<and> ttasks T' = us @ k' # vs
    \<and> mail_abs (boxes (rt T') (abox t)) = spec_send (tmsg k) (mail_abs (boxes (rt T) (abox t)))
    \<and> (\<forall>b. b \<noteq> abox t \<longrightarrow> boxes (rt T') b = boxes (rt T) b)
    \<and> fired k' = fired k @ [now T]
    \<and> (case period k of None \<Rightarrow> tpc k' = TCleanup | Some ms \<Rightarrow> tpc k' = TSleep \<and> deadline k' = deadline k + ms)"
proof -
  have m: "mailboxes (rt T) (apid t) = Some (abox t)" using assms(6,8) by simp
  obtain mb where s: "Runtime_send (apid t) (tmsg k) (rt T) = (Inr (), (rt T)\<lparr>boxes := (boxes (rt T))(abox t := mb)\<rparr>)"
    "mail_abs mb = spec_send (tmsg k) (mail_abs (boxes (rt T) (abox t)))"
    by (rule timer_host.send_to_running [OF timer_reachable_run [OF assms(1)] assms(5) m assms(7)])
  obtain k' T1 where f: "timer_fire k T = (k', T1)" by fastforce
  from timer_step.fire [OF assms(2-4) f] f s assms(3,6) show ?thesis
    by (intro exI [of _ k'] exI [of _ "T1\<lparr>ttasks := us @ k' # vs\<rparr>"])
      (auto simp: timer_fire_def Let_def split: option.splits)
qed

lemma ex_armed:
  obtains T k t where "timer_reachable T" and "ttasks T = [k]" and "tpc k = TSleep" and "deadline k \<le> now T"
    and "actors (rt T) = [t]" and "apid t = tpid k" and "pc t = Running" and "mailboxes (rt T) (tpid k) = Some (abox t)"
    and "tmsg k = User [1]"
proof -
  obtain p R where s: "Runtime_spawn_actor Runtime_new = Some (p, R)" and "rt_reachable R" by (rule spawn_from_new)
  have st: "rt_step Runtime_new R" using rt_step_call [OF disjI1 [OF new_room(2)], of SpawnActor R] s by simp
  have t: "\<exists>t. actors R = [t] \<and> apid t = p \<and> pc t = Running \<and> mailboxes R p = Some (abox t)"
    using s by (auto simp: Runtime_spawn_actor_def spawn_task_def Runtime_new_def SlabAllocator_allocate_def
        SlabAllocator_new_def Let_def remove_mailbox_def)
  have "timer_reachable (timers_new\<lparr>rt := R\<rparr>)"
    using timer_reachable.step [OF timer_reachable.start timer_step.other, of R] st by (simp add: timers_new_def)
  from timer_reachable.step [OF this timer_step.after [of _ p 0 "User [1]"]] t that show thesis
    by (auto simp: Runtime_send_after_def new_timer_def insert_timer_def timers_new_def Let_def)
qed

theorem due_timer_delivers_witness:
  "\<exists>T T'. \<exists>t\<in>set (actors (rt T)). timer_reachable T \<and> timer_step T T'
    \<and> mail_abs (boxes (rt T') (abox t)) = spec_send (User [1]) (mail_abs (boxes (rt T) (abox t)))"
proof -
  obtain T k t where T: "timer_reachable T" "ttasks T = [k]" "tpc k = TSleep" "deadline k \<le> now T" "actors (rt T) = [t]"
    "apid t = tpid k" "pc t = Running" "mailboxes (rt T) (tpid k) = Some (abox t)" "tmsg k = User [1]" by (rule ex_armed)
  have "ttasks T = [] @ k # []" "t \<in> set (actors (rt T))" using T by simp_all
  from due_timer_delivers [OF T(1) this(1) T(3,4) this(2) T(6-8)] T(9) obtain T' where "timer_step T T'"
    "mail_abs (boxes (rt T') (abox t)) = spec_send (User [1]) (mail_abs (boxes (rt T) (abox t)))" by auto
  with T(1) \<open>t \<in> set (actors (rt T))\<close> show ?thesis by blast
qed

text \<open>
  An interval timer keeps its rhythm. After \<^verbatim>\<open>send_interval(p, d, m)\<close> at time \<open>s\<close>, the \<open>j\<close>-th
  message of its task (from 0) is never sent before \<open>s + j * d\<close>; so it cannot run ahead, though a
  late tick may be followed by the next at once.
\<close>

theorem interval_timer_keeps_rhythm:
  assumes "timer_reachable T" and "Runtime_send_interval p ms m T = (i, T1)" and "timer_step\<^sup>*\<^sup>* T1 T2"
    and "length (ttasks T2) < 2 ^ 64" and "k = ttasks T2 ! length (ttasks T)" and "j < length (fired k)"
  shows "tid k = i \<and> tpid k = p \<and> tmsg k = m \<and> now T + j * unat ms \<le> fired k ! j"
proof -
  obtain i' a T0 where new: "new_timer T = (i', a, T0)" by (metis prod_cases3)
  note T0 = new_timer_tasks [OF new]
  define k1 where "k1 = \<lparr>tid = i, tpid = p, tmsg = m, period = Some (unat ms), deadline = now T,
    cancel_rx = a, tpc = (if ms = 0 then TPanicked else TSleep), armed_at = now T, fired = []\<rparr>"
  have "i = i'" "T1 = T0\<lparr>ttasks := ttasks T @ [k1]\<rparr>"
    using assms(2) new T0 by (auto simp: Runtime_send_interval_def Let_def k1_def)
  then have t1: "ttasks T1 = ttasks T @ [k1]" by simp
  have "timer_reachable T1"
    using timer_reachable.step [OF assms(1) timer_step.interval [of T p ms m]] assms(2) by simp
  from timer_run [OF assms(3) this] have r: "timer_reachable T2" and e: "extends (ttasks T1) (ttasks T2)" by auto
  then have lt: "length (ttasks T) < length (ttasks T2)" and s: "same_timer k1 k"
    by (auto simp: extends_def t1 assms(5) nth_append)
  from timer_inv_task(3) [OF timer_reachable_inv [OF r assms(4)] lt] have "timing_ok k" by (simp add: assms(5))
  with s assms(6) show ?thesis by (auto simp: same_timer_def k1_def timing_ok_def)
qed

theorem interval_timer_keeps_rhythm_witness:
  "\<exists>i T1 T2. Runtime_send_interval 5 100 (User [1]) timers_new = (i, T1) \<and> timer_step T1 T2
     \<and> tid (ttasks T2 ! 0) = i \<and> fired (ttasks T2 ! 0) = [0]"
proof -
  obtain i T1 where s: "Runtime_send_interval 5 100 (User [1]) timers_new = (i, T1)" by fastforce
  then obtain k where t1: "ttasks T1 = [k]" "tpc k = TSleep" "deadline k = 0" "now T1 = 0" "fired k = []" "period k = Some 100"
    by (auto simp: Runtime_send_interval_def new_timer_def insert_timer_def timers_new_def Let_def)
  obtain k' T' where f: "timer_fire k T1 = (k', T')" by fastforce
  let ?T2 = "T'\<lparr>ttasks := [k']\<rparr>"
  have step: "timer_step T1 ?T2"
    using timer_step.fire [of T1 "[]" k "[]" k' T'] t1 f by simp
  have k': "fired k' = [0]" using f t1 by (auto simp: timer_fire_def Let_def)
  have "tid k' = i"
    using interval_timer_keeps_rhythm [OF timer_reachable.start s r_into_rtranclp [of timer_step, OF step] _ refl, of 0] k'
    by (simp add: timers_new_def)
  with s step k' show ?thesis by auto
qed

text \<open>
  \<^verbatim>\<open>cancel_timer\<close> is exact about the timers it knows. In a reachable state it returns true exactly
  for the identifiers whose task has neither been signalled nor cleaned up; then the task is
  signalled (its receiver is ready), a second call returns false, and no other timer is touched.
\<close>

theorem cancel_timer_exact:
  assumes "timer_reachable T" and "length (ttasks T) < 2 ^ 64" and "a < length (ttasks T)"
    and "Runtime_cancel_timer (tid (ttasks T ! a)) T = (b, T')"
  shows "(b \<longleftrightarrow> \<not> signals T (cancel_rx (ttasks T ! a))) \<and> signals T' (cancel_rx (ttasks T ! a))
    \<and> (tpc (ttasks T ! a) = TEnd \<longrightarrow> \<not> b)
    \<and> fst (Runtime_cancel_timer (tid (ttasks T ! a)) T') = False
    \<and> (\<forall>c<length (ttasks T). c \<noteq> a \<longrightarrow> signals T' c = signals T c)"
proof -
  note inv = timer_reachable_inv [OF assms(1,2)]
  note f = timer_inv_task [OF inv assms(3)]
  let ?i = "tid (ttasks T ! a)"
  have only: "timers (rt T) ?i = Some c \<Longrightarrow> c = a" for c
    using timer_inv_entry [OF inv, of ?i c] f(1) of_nat_inj_small [of c a] assms(2,3) by (metis le_less_trans less_eq_Suc_le)
  show ?thesis
  proof (cases "timers (rt T) ?i")
    case None
    with assms(4) f show ?thesis by (auto simp: Runtime_cancel_timer_def simp del: of_nat_Suc)
  next
    case (Some c)
    with only have c: "timers (rt T) ?i = Some a" by blast
    then have "\<not> signals T a" "tpc (ttasks T ! a) \<noteq> TEnd" using f(1,4,5) by auto
    with c assms(4) f(2) show ?thesis by (auto simp: Runtime_cancel_timer_def remove_timer_def)
  qed
qed

text \<open>A one-shot timer of no delay that has sent its message and not yet removed its entry.\<close>

lemma fired_example:
  obtains T k where "timer_reachable T" and "ttasks T = [k]" and "fired k = [0]"
    and "tpc k = TCleanup" and "signals T (cancel_rx k) = False" and "cancel_rx k = 0" and "period k = None"
proof -
  define T1 where "T1 = snd (Runtime_send_after 5 0 (User [1]) timers_new)"
  have r1: "timer_reachable T1"
    unfolding T1_def by (rule timer_reachable.step [OF timer_reachable.start timer_step.after])
  obtain k where k: "ttasks T1 = [k]" "tpc k = TSleep" "deadline k = 0" "now T1 = 0" "fired k = []" "period k = None"
      "cancel_rx k = 0" "signals T1 0 = False"
    by (auto simp: T1_def Runtime_send_after_def new_timer_def insert_timer_def timers_new_def Runtime_new_def Let_def)
  obtain k' T' where f: "timer_fire k T1 = (k', T')" by fastforce
  have "timer_reachable (T'\<lparr>ttasks := [k']\<rparr>)"
    using timer_reachable.step [OF r1 timer_step.fire [of T1 "[]" k "[]" k' T']] k f by simp
  then show thesis
    by (rule that [of _ k']) (use f k in \<open>auto simp: timer_fire_def Let_def\<close>)
qed

theorem cancel_timer_exact_witness:
  "\<exists>T b T'. timer_reachable T \<and> Runtime_cancel_timer (tid (ttasks T ! 0)) T = (b, T') \<and> b
     \<and> fst (Runtime_cancel_timer (tid (ttasks T ! 0)) T') = False"
proof -
  obtain T k where T: "timer_reachable T" "ttasks T = [k]" "signals T (cancel_rx k) = False"
    by (rule fired_example)
  obtain b T' where c: "Runtime_cancel_timer (tid (ttasks T ! 0)) T = (b, T')" by fastforce
  have "b \<and> fst (Runtime_cancel_timer (tid (ttasks T ! 0)) T') = False"
    using cancel_timer_exact [OF T(1) _ _ c] T(2,3) by simp
  with T(1) c show ?thesis by blast
qed

text \<open>
  A true result of \<^verbatim>\<open>cancel_timer\<close> does not mean that the message was held back. There is a
  reachable state in which a one-shot timer has already sent its message and \<^verbatim>\<open>cancel_timer\<close> on it
  returns true: the task sends first and removes its entry afterwards.
\<close>

theorem cancel_true_after_send:
  "\<exists>T k. timer_reachable T \<and> ttasks T = [k] \<and> period k = None \<and> fired k = [0]
     \<and> fst (Runtime_cancel_timer (tid k) T) = True"
proof -
  obtain T k where T: "timer_reachable T" "ttasks T = [k]" "fired k = [0]" "tpc k = TCleanup"
      "signals T (cancel_rx k) = False" "cancel_rx k = 0" "period k = None" by (rule fired_example)
  have inv: "timer_inv T" by (rule timer_reachable_inv [OF T(1)]) (simp add: T)
  from timer_inv_task [OF inv, of 0] T have "timers (rt T) (tid k) = Some 0" by simp
  with T show ?thesis by (auto simp: Runtime_cancel_timer_def)
qed

end
