(* ===== verification/Pool.thy ===== *)
theory Pool
  imports Network
begin

text \<open>
  The connection pool of \<^verbatim>\<open>src/network.rs\<close> with all its tasks interleaved. \<open>Network\<close> has \<^verbatim>\<open>send_remote\<close> as
  one call that nothing interrupts; here every access to \<^verbatim>\<open>PEER_POOL\<close> and every \<^verbatim>\<open>await\<close> is a step of its
  own, because \<^verbatim>\<open>Runtime::send_remote\<close> runs each call in a task.

  \<^item> \<open>stasks\<close> are the tasks of \<^verbatim>\<open>Runtime::send_remote\<close>, \<open>stage\<close> how far each has come. \<open>Lookup True\<close> to
    \<open>Queue True\<close> are the first attempt, the same with \<open>False\<close> the second.
  \<^item> \<open>pconns\<close> are the connections that were ever opened, with the task that drains each channel. When
    its loop ends the task still removes the pool's entry for its address (\<open>PBroken\<close>), and the receiver
    is dropped only at the end of the block (\<open>PRemoved\<close>), so until then the channel accepts messages.
  \<^item> The channel holds 1024 messages; a send to a full channel waits.
  \<^item> \<open>caccepted\<close> is a history: the tasks whose message the channel accepted, in order.
\<close>

datatype stage = Start | Lookup bool | Connect bool | Queue bool nat | Remove | Finished "io_error + unit"

record send_task =
  dest :: string
  to_pid :: pid
  payload :: bytes
  stage :: stage

datatype conn_task = PRunning | PBroken | PRemoved | PDropped

record pconn =
  caddr :: string
  cqueue :: "bytes list"
  ctask :: conn_task
  csent :: bytes
  caccepted :: "nat list"

record pool_sys =
  POOL :: "string \<rightharpoonup> nat"
  pconns :: "pconn list"
  stasks :: "send_task list"

definition pool_start :: pool_sys where
  "pool_start = \<lparr>POOL = Map.empty, pconns = [], stasks = []\<rparr>"

definition channel_capacity :: nat where
  "channel_capacity = 1024"

section \<open>The steps\<close>

definition Runtime_send_remote :: "string \<Rightarrow> pid \<Rightarrow> bytes \<Rightarrow> pool_sys \<Rightarrow> pool_sys" where
  "Runtime_send_remote a p data S =
     S\<lparr>stasks := stasks S @ [\<lparr>dest = a, to_pid = p, payload = data, stage = Start\<rparr>]\<rparr>"

definition set_stage :: "nat \<Rightarrow> stage \<Rightarrow> pool_sys \<Rightarrow> pool_sys" where
  "set_stage j st S = S\<lparr>stasks := (stasks S)[j := (stasks S ! j)\<lparr>stage := st\<rparr>]\<rparr>"

definition task_frame :: "send_task \<Rightarrow> bytes" where
  "task_frame t = encode_user (to_pid t) (payload t)"

text \<open>
  The body of \<^verbatim>\<open>send_remote\<close> with \<^verbatim>\<open>get_or_connect_peer\<close> inside. \<open>limit\<close> is the payload limit the task reads,
  \<open>dial\<close> and \<open>hello\<close> are the errors of connecting and of writing the version byte. \<open>None\<close> says that the
  task has ended or waits for the channel.
\<close>

definition open_peer :: "bool \<Rightarrow> nat \<Rightarrow> pool_sys \<Rightarrow> pool_sys" where
  "open_peer first j S =
     (let a = dest (stasks S ! j); i = length (pconns S) in
      set_stage j (Queue first i)
        (S\<lparr>POOL := (POOL S)(a \<mapsto> i),
           pconns := pconns S @ [\<lparr>caddr = a, cqueue = [], ctask = PRunning, csent = [PROTOCOL_VERSION], caccepted = []\<rparr>]\<rparr>))"

definition enqueue :: "nat \<Rightarrow> nat \<Rightarrow> pool_sys \<Rightarrow> pool_sys" where
  "enqueue j i S =
     (let c = pconns S ! i in
      set_stage j (Finished (Inr ()))
        (S\<lparr>pconns := (pconns S)[i := c\<lparr>cqueue := cqueue c @ [task_frame (stasks S ! j)],
                                        caccepted := caccepted c @ [j]\<rparr>]\<rparr>))"

definition send_step ::
    "usize \<Rightarrow> io_error option \<Rightarrow> io_error option \<Rightarrow> nat \<Rightarrow> pool_sys \<Rightarrow> pool_sys option" where
  "send_step limit dial hello j S =
     (let t = stasks S ! j in
      case stage t of
        Start \<Rightarrow>
          Some (set_stage j (if length (payload t) > unat limit
                             then Finished (Inl (InvalidInput ''payload too large'')) else Lookup True) S)
      | Lookup first \<Rightarrow>
          Some (set_stage j (case POOL S (dest t) of Some i \<Rightarrow> Queue first i | None \<Rightarrow> Connect first) S)
      | Connect first \<Rightarrow>
          (case dial of
             Some e \<Rightarrow> Some (set_stage j (Finished (Inl e)) S)
           | None \<Rightarrow>
               (case hello of
                  Some e \<Rightarrow> Some (set_stage j (Finished (Inl e)) S)
                | None \<Rightarrow> Some (open_peer first j S)))
      | Queue first i \<Rightarrow>
          if ctask (pconns S ! i) = PDropped
          then Some (set_stage j (if first then Remove else Finished (Inl ConnectionAborted)) S)
          else if length (cqueue (pconns S ! i)) < channel_capacity then Some (enqueue j i S)
          else None
      | Remove \<Rightarrow> Some (set_stage j (Lookup False) (S\<lparr>POOL := (POOL S)(dest t := None)\<rparr>))
      | Finished _ \<Rightarrow> None)"

text \<open>
  The task of a connection: it receives and writes until a write fails (\<open>out\<close>, with the number of bytes
  that had gone out), or until the channel is empty and nobody can send any more.
\<close>

definition has_sender :: "nat \<Rightarrow> pool_sys \<Rightarrow> bool" where
  "has_sender i S \<longleftrightarrow> POOL S (caddr (pconns S ! i)) = Some i
     \<or> list_ex (\<lambda>t. case stage t of Queue _ k \<Rightarrow> k = i | _ \<Rightarrow> False) (stasks S)"

definition upd_conn :: "nat \<Rightarrow> (pconn \<Rightarrow> pconn) \<Rightarrow> pool_sys \<Rightarrow> pool_sys" where
  "upd_conn i f S = S\<lparr>pconns := (pconns S)[i := f (pconns S ! i)]\<rparr>"

definition conn_step :: "(io_error \<times> nat) option \<Rightarrow> nat \<Rightarrow> pool_sys \<Rightarrow> pool_sys option" where
  "conn_step out i S =
     (let c = pconns S ! i in
      case ctask c of
        PRunning \<Rightarrow>
          (case cqueue c of
             msg # rest \<Rightarrow>
               (case out of
                  None \<Rightarrow> Some (upd_conn i (\<lambda>c. c\<lparr>cqueue := rest, csent := csent c @ msg\<rparr>) S)
                | Some (_, k) \<Rightarrow>
                    Some (upd_conn i (\<lambda>c. c\<lparr>cqueue := rest, csent := csent c @ take k msg, ctask := PBroken\<rparr>) S))
           | [] \<Rightarrow> if has_sender i S then None else Some (upd_conn i (\<lambda>c. c\<lparr>ctask := PBroken\<rparr>) S))
      | PBroken \<Rightarrow> Some (upd_conn i (\<lambda>c. c\<lparr>ctask := PRemoved\<rparr>) (S\<lparr>POOL := (POOL S)(caddr c := None)\<rparr>))
      | PRemoved \<Rightarrow> Some (upd_conn i (\<lambda>c. c\<lparr>cqueue := [], ctask := PDropped\<rparr>) S)
      | PDropped \<Rightarrow> None)"

text \<open>Runs: a call of \<^verbatim>\<open>Runtime::send_remote\<close>, a step of the task of a call, a step of a connection.\<close>

datatype pool_event =
    ECall string pid bytes
  | ESend nat usize "io_error option" "io_error option"
  | EConn nat "(io_error \<times> nat) option"

fun pool_exec :: "pool_event \<Rightarrow> pool_sys \<Rightarrow> pool_sys option" where
  "pool_exec (ECall a p data) S = Some (Runtime_send_remote a p data S)"
| "pool_exec (ESend j limit dial hello) S =
     (if j < length (stasks S) then send_step limit dial hello j S else None)"
| "pool_exec (EConn i out) S = (if i < length (pconns S) then conn_step out i S else None)"

inductive pool_reachable :: "pool_sys \<Rightarrow> bool" where
  start: "pool_reachable pool_start"
| step: "pool_reachable S \<Longrightarrow> pool_exec e S = Some S' \<Longrightarrow> pool_reachable S'"

fun pool_run :: "pool_event list \<Rightarrow> pool_sys \<Rightarrow> pool_sys option" where
  "pool_run [] S = Some S"
| "pool_run (e # es) S = (case pool_exec e S of None \<Rightarrow> None | Some S' \<Rightarrow> pool_run es S')"

lemma pool_run_reachable: "pool_run es S = Some S' \<Longrightarrow> pool_reachable S \<Longrightarrow> pool_reachable S'"
  by (induction es arbitrary: S) (auto split: option.splits intro: pool_reachable.step)

section \<open>Frames of the operations\<close>

lemma set_stage_simps [simp]:
  "POOL (set_stage j st S) = POOL S" "pconns (set_stage j st S) = pconns S"
  "length (stasks (set_stage j st S)) = length (stasks S)"
  by (simp_all add: set_stage_def)

lemma set_stage_nth:
  "k < length (stasks S) \<Longrightarrow>
     stasks (set_stage j st S) ! k = (if k = j then (stasks S ! j)\<lparr>stage := st\<rparr> else stasks S ! k)"
  by (simp add: set_stage_def)

lemma upd_conn_simps [simp]:
  "POOL (upd_conn i f S) = POOL S" "stasks (upd_conn i f S) = stasks S"
  "length (pconns (upd_conn i f S)) = length (pconns S)"
  by (simp_all add: upd_conn_def)

lemma upd_conn_nth:
  "k < length (pconns S) \<Longrightarrow> pconns (upd_conn i f S) ! k = (if k = i then f (pconns S ! i) else pconns S ! k)"
  by (simp add: upd_conn_def)

lemma task_frame_stage [simp]: "task_frame (t\<lparr>stage := st\<rparr>) = task_frame t"
  by (simp add: task_frame_def)

section \<open>The invariant\<close>

text \<open>
  Every entry of the pool and every sender a task holds belongs to a connection to the right address.
\<close>

definition entries_wf :: "pool_sys \<Rightarrow> bool" where
  "entries_wf S \<longleftrightarrow>
     (\<forall>a i. POOL S a = Some i \<longrightarrow> i < length (pconns S) \<and> caddr (pconns S ! i) = a)
   \<and> (\<forall>t\<in>set (stasks S). \<forall>f i. stage t = Queue f i \<longrightarrow> i < length (pconns S) \<and> caddr (pconns S ! i) = dest t)"

text \<open>
  What a connection has written is a prefix of the version byte and the frames its channel accepted;
  while its task runs it is exactly that without the frames that still wait.
\<close>

definition accepted_frames :: "send_task list \<Rightarrow> pconn \<Rightarrow> bytes list" where
  "accepted_frames ts c = map (\<lambda>j. task_frame (ts ! j)) (caccepted c)"

definition conn_wf :: "send_task list \<Rightarrow> pconn \<Rightarrow> bool" where
  "conn_wf ts c \<longleftrightarrow> length (cqueue c) \<le> channel_capacity
     \<and> prefix (csent c) (PROTOCOL_VERSION # concat (accepted_frames ts c))
     \<and> (ctask c = PRunning \<longrightarrow>
         (\<exists>ws. accepted_frames ts c = ws @ cqueue c \<and> csent c = PROTOCOL_VERSION # concat ws))"

text \<open>The tasks that ended well are exactly those whose message was accepted, each once, by a connection to its address.\<close>

definition history_wf :: "pool_sys \<Rightarrow> bool" where
  "history_wf S \<longleftrightarrow> distinct (concat (map caccepted (pconns S)))
     \<and> (\<forall>j. (\<exists>c\<in>set (pconns S). j \<in> set (caccepted c))
            \<longleftrightarrow> j < length (stasks S) \<and> stage (stasks S ! j) = Finished (Inr ()))
     \<and> (\<forall>c\<in>set (pconns S). \<forall>j\<in>set (caccepted c). dest (stasks S ! j) = caddr c)"

definition pool_inv :: "pool_sys \<Rightarrow> bool" where
  "pool_inv S \<longleftrightarrow> entries_wf S \<and> (\<forall>c\<in>set (pconns S). conn_wf (stasks S) c) \<and> history_wf S"

lemma accepted_bound:
  "history_wf S \<Longrightarrow> c \<in> set (pconns S) \<Longrightarrow> j \<in> set (caccepted c) \<Longrightarrow> j < length (stasks S)"
  by (auto simp: history_wf_def)

lemma accepted_finished:
  "history_wf S \<Longrightarrow> c \<in> set (pconns S) \<Longrightarrow> j \<in> set (caccepted c) \<Longrightarrow> stage (stasks S ! j) = Finished (Inr ())"
  unfolding history_wf_def by blast

lemma conn_wf_cong:
  assumes "\<forall>j\<in>set (caccepted c). task_frame (ts' ! j) = task_frame (ts ! j)"
  shows "conn_wf ts' c = conn_wf ts c"
proof -
  have "accepted_frames ts' c = accepted_frames ts c" using assms by (simp add: accepted_frames_def)
  then show ?thesis by (simp add: conn_wf_def)
qed

lemma pool_inv_call:
  assumes "pool_inv S"
  shows "pool_inv (Runtime_send_remote a p data S)"
proof -
  let ?S = "Runtime_send_remote a p data S"
  have h: "history_wf S" using assms by (simp add: pool_inv_def)
  have nth: "stasks ?S ! j = stasks S ! j" if "j < length (stasks S)" for j
    using that by (simp add: Runtime_send_remote_def nth_append)
  have "conn_wf (stasks ?S) c = conn_wf (stasks S) c" if "c \<in> set (pconns S)" for c
    using accepted_bound [OF h that] by (intro conn_wf_cong) (simp add: nth)
  moreover have "entries_wf ?S" using assms by (auto simp: pool_inv_def entries_wf_def Runtime_send_remote_def)
  moreover have "history_wf ?S"
    using h by (auto simp: history_wf_def Runtime_send_remote_def nth_append less_Suc_eq)
  ultimately show ?thesis using assms by (simp add: pool_inv_def) (simp add: Runtime_send_remote_def)
qed

lemma pool_inv_stage:
  assumes inv: "pool_inv S" and j: "j < length (stasks S)"
    and st: "stage (stasks S ! j) \<noteq> Finished (Inr ())" "st \<noteq> Finished (Inr ())"
    and q: "\<And>f i. st = Queue f i \<Longrightarrow> i < length (pconns S) \<and> caddr (pconns S ! i) = dest (stasks S ! j)"
  shows "pool_inv (set_stage j st S)"
proof -
  let ?S = "set_stage j st S"
  have nth: "stasks ?S ! k = (if k = j then (stasks S ! j)\<lparr>stage := st\<rparr> else stasks S ! k)" if "k < length (stasks S)" for k
    using that by (rule set_stage_nth)
  have h: "history_wf S" using inv by (simp add: pool_inv_def)
  have "conn_wf (stasks ?S) c = conn_wf (stasks S) c" if "c \<in> set (pconns S)" for c
    using accepted_bound [OF h that] by (intro conn_wf_cong) (auto simp: nth)
  moreover have "entries_wf ?S"
    using inv q j by (auto simp: pool_inv_def entries_wf_def set_stage_def set_conv_nth nth_list_update
        all_set_conv_all_nth split: if_splits)
  moreover have "history_wf ?S"
  proof -
    have "j \<notin> set (caccepted c)" if "c \<in> set (pconns S)" for c using h that st(1) by (auto simp: history_wf_def)
    moreover have "stage (stasks ?S ! k) = Finished (Inr ()) \<longleftrightarrow> stage (stasks S ! k) = Finished (Inr ())"
      if "k < length (stasks S)" for k using st by (simp add: nth [OF that])
    moreover have "dest (stasks ?S ! k) = dest (stasks S ! k)" if "k < length (stasks S)" for k by (simp add: nth [OF that])
    ultimately show ?thesis using h accepted_bound [OF h] by (auto simp: history_wf_def)
  qed
  ultimately show ?thesis using inv by (simp add: pool_inv_def)
qed

lemma pool_inv_remove: "pool_inv S \<Longrightarrow> pool_inv (S\<lparr>POOL := (POOL S)(a := None)\<rparr>)"
  by (auto simp: pool_inv_def entries_wf_def history_wf_def)

lemma pool_inv_open:
  assumes "pool_inv S"
  shows "pool_inv (S\<lparr>POOL := (POOL S)(a \<mapsto> length (pconns S)), pconns := pconns S
      @ [\<lparr>caddr = a, cqueue = [], ctask = PRunning, csent = [PROTOCOL_VERSION], caccepted = []\<rparr>]\<rparr>)"
  using assms
  by (fastforce simp: pool_inv_def entries_wf_def history_wf_def conn_wf_def accepted_frames_def nth_append
      channel_capacity_def less_Suc_eq)

lemma pool_inv_conn:
  assumes inv: "pool_inv S" and i: "i < length (pconns S)"
    and f: "caddr (f (pconns S ! i)) = caddr (pconns S ! i)" "caccepted (f (pconns S ! i)) = caccepted (pconns S ! i)"
    and wf: "conn_wf (stasks S) (f (pconns S ! i))"
  shows "pool_inv (upd_conn i f S)"
proof -
  let ?S = "upd_conn i f S"
  have addr: "map caddr (pconns ?S) = map caddr (pconns S)" and acc: "map caccepted (pconns ?S) = map caccepted (pconns S)"
    using i f by (simp_all add: upd_conn_def map_update list_update_same_conv)
  have nth: "caddr (pconns ?S ! k) = caddr (pconns S ! k)" "caccepted (pconns ?S ! k) = caccepted (pconns S ! k)"
    if "k < length (pconns S)" for k using f by (simp_all add: upd_conn_nth [OF that])
  have "entries_wf ?S" using inv nth(1) by (auto simp: pool_inv_def entries_wf_def)
  moreover have "history_wf ?S"
    using inv acc nth by (auto simp: pool_inv_def history_wf_def Bex_set Ball_set set_conv_nth) (metis nth)+
  moreover have "\<forall>c\<in>set (pconns ?S). conn_wf (stasks S) c"
    using inv wf set_update_subset_insert [of "pconns S" i "f (pconns S ! i)"]
    by (auto simp: pool_inv_def upd_conn_def)
  ultimately show ?thesis by (simp add: pool_inv_def)
qed

lemma mset_concat_snoc:
  assumes "i < length xss"
  shows "mset (concat (xss[i := xss ! i @ [x]])) = mset (x # concat xss)"
proof -
  have "mset (concat xss) = mset (concat (take i xss @ xss ! i # drop (Suc i) xss))"
    using id_take_nth_drop [OF assms] by simp
  then show ?thesis by (simp add: upd_conv_take_nth_drop [OF assms])
qed

lemma conn_wf_enqueue:
  assumes "conn_wf ts c" and "length (cqueue c) < channel_capacity"
  shows "conn_wf ts (c\<lparr>cqueue := cqueue c @ [task_frame (ts ! j)], caccepted := caccepted c @ [j]\<rparr>)"
proof -
  have "prefix (csent c) ((PROTOCOL_VERSION # concat (accepted_frames ts c)) @ task_frame (ts ! j))"
    using assms(1) by (intro prefix_prefix) (simp add: conn_wf_def)
  with assms show ?thesis by (auto simp: conn_wf_def accepted_frames_def)
qed

lemma enqueue_simps [simp]:
  "POOL (enqueue j i S) = POOL S" "length (pconns (enqueue j i S)) = length (pconns S)"
  "length (stasks (enqueue j i S)) = length (stasks S)"
  by (simp_all add: enqueue_def Let_def)

lemma enqueue_task:
  "k < length (stasks S) \<Longrightarrow> stasks (enqueue j i S) ! k
     = (if k = j then (stasks S ! j)\<lparr>stage := Finished (Inr ())\<rparr> else stasks S ! k)"
  by (simp add: enqueue_def Let_def set_stage_def)

lemma enqueue_conn:
  assumes "c \<in> set (pconns (enqueue j i S))"
  obtains "c \<in> set (pconns S)"
  | "c = (pconns S ! i)\<lparr>cqueue := cqueue (pconns S ! i) @ [task_frame (stasks S ! j)],
       caccepted := caccepted (pconns S ! i) @ [j]\<rparr>"
  using assms set_update_subset_insert by (fastforce simp: enqueue_def Let_def)

lemma entries_wf_enqueue:
  assumes "entries_wf S" and "i < length (pconns S)"
  shows "entries_wf (enqueue j i S)"
proof -
  have addr: "caddr (pconns (enqueue j i S) ! k) = caddr (pconns S ! k)" for k
    using assms(2) by (cases "k = i") (simp_all add: enqueue_def Let_def)
  have "t \<in> set (stasks S)" if "t \<in> set (stasks (enqueue j i S))" "stage t = Queue f k" for t f k
    using that set_update_subset_insert [of "stasks S" j "(stasks S ! j)\<lparr>stage := Finished (Inr ())\<rparr>"]
    by (auto simp: enqueue_def Let_def set_stage_def)
  with assms(1) show ?thesis unfolding entries_wf_def addr enqueue_simps by metis
qed

lemma history_wf_enqueue:
  assumes h: "history_wf S" and j: "j < length (stasks S)" "stage (stasks S ! j) \<noteq> Finished (Inr ())"
    and i: "i < length (pconns S)" "caddr (pconns S ! i) = dest (stasks S ! j)"
  shows "history_wf (enqueue j i S)"
proof -
  let ?S = "enqueue j i S"
  have m: "mset (concat (map caccepted (pconns ?S))) = mset (j # concat (map caccepted (pconns S)))"
    using mset_concat_snoc [of i "map caccepted (pconns S)" j] i(1) by (simp add: enqueue_def Let_def map_update)
  moreover have "distinct (j # concat (map caccepted (pconns S)))"
    using h j(2) accepted_finished [OF h] by (auto simp: history_wf_def)
  ultimately have "distinct (concat (map caccepted (pconns ?S)))" using mset_eq_imp_distinct_iff by blast
  moreover have "(\<exists>c\<in>set (pconns ?S). k \<in> set (caccepted c)) \<longleftrightarrow> k = j \<or> (\<exists>c\<in>set (pconns S). k \<in> set (caccepted c))" for k
  proof -
    from m have "set (concat (map caccepted (pconns ?S))) = set (j # concat (map caccepted (pconns S)))"
      by (metis set_mset_mset)
    then show ?thesis by (simp add: set_eq_iff)
  qed
  moreover have "\<forall>c\<in>set (pconns ?S). \<forall>k\<in>set (caccepted c). dest (stasks ?S ! k) = caddr c"
  proof (intro ballI)
    fix c k assume c: "c \<in> set (pconns ?S)" and k: "k \<in> set (caccepted c)"
    have d: "dest (stasks ?S ! k) = caddr d" if "d \<in> set (pconns S)" "k \<in> set (caccepted d)" for d
      using h that accepted_bound [OF h that] by (auto simp: enqueue_task history_wf_def)
    from c k show "dest (stasks ?S ! k) = caddr c"
    proof (cases rule: enqueue_conn)
      case 2
      with k j(1) i d [OF nth_mem [OF i(1)]] show ?thesis by (auto simp: enqueue_task)
    qed (rule d)
  qed
  ultimately show ?thesis using h j by (auto simp: history_wf_def enqueue_task)
qed

lemma pool_inv_enqueue:
  assumes inv: "pool_inv S" and j: "j < length (stasks S)" and st: "stage (stasks S ! j) = Queue f i"
    and room: "length (cqueue (pconns S ! i)) < channel_capacity"
  shows "pool_inv (enqueue j i S)"
proof -
  have i: "i < length (pconns S)" "caddr (pconns S ! i) = dest (stasks S ! j)"
    using inv st nth_mem [OF j] unfolding pool_inv_def entries_wf_def by blast+
  have h: "history_wf S" and e: "entries_wf S" and w: "\<forall>c\<in>set (pconns S). conn_wf (stasks S) c"
    using inv by (simp_all add: pool_inv_def)
  have "conn_wf (stasks (enqueue j i S)) c" if "c \<in> set (pconns (enqueue j i S))" for c
  proof -
    from that have "\<forall>k\<in>set (caccepted c). k < length (stasks S)" and "conn_wf (stasks S) c"
      using accepted_bound [OF h] accepted_bound [OF h nth_mem [OF i(1)]] w i(1) conn_wf_enqueue [OF _ room] j
      by (cases rule: enqueue_conn; auto)+
    then show ?thesis using conn_wf_cong [of c "stasks (enqueue j i S)" "stasks S"] by (auto simp: enqueue_task)
  qed
  moreover have "history_wf (enqueue j i S)" by (rule history_wf_enqueue [OF h j _ i]) (simp add: st)
  ultimately show ?thesis using entries_wf_enqueue [OF e i(1)] by (simp add: pool_inv_def)
qed

lemma send_step_inv:
  assumes inv: "pool_inv S" and j: "j < length (stasks S)" and s: "send_step limit dial hello j S = Some S'"
  shows "pool_inv S'"
proof (cases "stage (stasks S ! j)")
  case Start
  with s have "S' = set_stage j (if length (payload (stasks S ! j)) > unat limit
      then Finished (Inl (InvalidInput ''payload too large'')) else Lookup True) S" by (simp add: send_step_def)
  with Start show ?thesis by (auto intro!: pool_inv_stage [OF inv j])
next
  case (Lookup first)
  have "i < length (pconns S) \<and> caddr (pconns S ! i) = dest (stasks S ! j)" if "POOL S (dest (stasks S ! j)) = Some i" for i
    using inv that by (auto simp: pool_inv_def entries_wf_def)
  with Lookup s show ?thesis
    by (auto simp: send_step_def split: option.splits intro!: pool_inv_stage [OF inv j])
next
  case (Connect first)
  show ?thesis
  proof (cases "dial = None \<and> hello = None")
    case True
    let ?S = "S\<lparr>POOL := (POOL S)(dest (stasks S ! j) \<mapsto> length (pconns S)), pconns := pconns S
      @ [\<lparr>caddr = dest (stasks S ! j), cqueue = [], ctask = PRunning, csent = [PROTOCOL_VERSION], caccepted = []\<rparr>]\<rparr>"
    have "pool_inv (set_stage j (Queue first (length (pconns S))) ?S)"
      by (rule pool_inv_stage [OF pool_inv_open [OF inv]]) (use j Connect in auto)
    with True Connect s show ?thesis by (simp add: send_step_def open_peer_def Let_def)
  next
    case False
    with Connect s show ?thesis
      by (auto simp: send_step_def Let_def split: option.splits intro!: pool_inv_stage [OF inv j])
  qed
next
  case (Queue first i)
  with s pool_inv_enqueue [OF inv j Queue] show ?thesis
    by (auto simp: send_step_def Let_def split: if_splits intro!: pool_inv_stage [OF inv j])
next
  case Remove
  with s j pool_inv_stage [OF pool_inv_remove [OF inv, of "dest (stasks S ! j)"], of j "Lookup False"] show ?thesis
    by (simp add: send_step_def Let_def)
next
  case (Finished r)
  with s show ?thesis by (simp add: send_step_def)
qed

lemma conn_wf_break:
  assumes "conn_wf ts c" and "ctask c = PRunning" and "cqueue c = msg # rest"
  shows "conn_wf ts (c\<lparr>cqueue := rest, csent := csent c @ msg\<rparr>)"
    and "conn_wf ts (c\<lparr>cqueue := rest, csent := csent c @ take k msg, ctask := PBroken\<rparr>)"
proof -
  obtain ws where ws: "accepted_frames ts c = ws @ msg # rest" "csent c = PROTOCOL_VERSION # concat ws"
    using assms by (auto simp: conn_wf_def)
  have "accepted_frames ts (c\<lparr>cqueue := rest, csent := csent c @ msg\<rparr>) = (ws @ [msg]) @ rest"
    using ws(1) by (simp add: accepted_frames_def)
  then show "conn_wf ts (c\<lparr>cqueue := rest, csent := csent c @ msg\<rparr>)"
    using assms ws(2) by (auto simp: conn_wf_def intro!: exI [of _ "ws @ [msg]"])
  have "prefix (take k msg) (msg @ concat rest)" by (meson prefix_prefix take_is_prefix)
  then show "conn_wf ts (c\<lparr>cqueue := rest, csent := csent c @ take k msg, ctask := PBroken\<rparr>)"
    using assms(1,3) ws by (simp add: conn_wf_def accepted_frames_def)
qed

lemma conn_wf_end:
  "conn_wf ts c \<Longrightarrow> ct \<noteq> PRunning \<Longrightarrow> conn_wf ts (c\<lparr>ctask := ct\<rparr>) \<and> conn_wf ts (c\<lparr>cqueue := [], ctask := ct\<rparr>)"
  by (simp add: conn_wf_def accepted_frames_def)

lemma conn_step_inv:
  assumes inv: "pool_inv S" and i: "i < length (pconns S)" and s: "conn_step out i S = Some S'"
  shows "pool_inv S'"
proof -
  have wf: "conn_wf (stasks S) (pconns S ! i)" using inv i by (simp add: pool_inv_def)
  note end' = conn_wf_end [OF wf]
  show ?thesis
  proof (cases "ctask (pconns S ! i)")
    case PRunning
    with s conn_wf_break [OF wf PRunning] end' show ?thesis
      by (auto simp: conn_step_def Let_def split: list.splits option.splits if_splits intro!: pool_inv_conn [OF inv i])
  next
    case PBroken
    with s end' i pool_inv_conn [OF pool_inv_remove [OF inv, of "caddr (pconns S ! i)"], of i "\<lambda>c. c\<lparr>ctask := PRemoved\<rparr>"] show ?thesis
      by (auto simp: conn_step_def Let_def)
  next
    case PRemoved
    with s end' show ?thesis by (auto simp: conn_step_def Let_def intro!: pool_inv_conn [OF inv i])
  next
    case PDropped
    with s show ?thesis by (simp add: conn_step_def)
  qed
qed

lemma pool_reachable_inv: "pool_reachable S \<Longrightarrow> pool_inv S"
proof (induction rule: pool_reachable.induct)
  case start
  show ?case by (simp add: pool_inv_def entries_wf_def history_wf_def pool_start_def)
next
  case (step S e S')
  show ?case
  proof (cases e)
    case (ECall a p data)
    with step pool_inv_call show ?thesis by auto
  next
    case (ESend j limit dial hello)
    with step(2) send_step_inv [OF step(3)] show ?thesis by (simp split: if_splits)
  next
    case (EConn i out)
    with step(2) conn_step_inv [OF step(3)] show ?thesis by (simp split: if_splits)
  qed
qed

section \<open>What reaches the other node\<close>

lemma prefix_concat_cut:
  assumes "prefix xs (concat yss)"
  obtains n where "xs = concat (take n yss)" "n \<le> length yss"
  | n k where "xs = concat (take n yss) @ take k (yss ! n)" "n < length yss" "k < length (yss ! n)"
  using assms
proof (induction yss arbitrary: xs thesis)
  case Nil
  then show ?case by simp
next
  case (Cons ys yss)
  show ?case
  proof (cases "length xs < length ys")
    case True
    with Cons.prems(3) have "xs = take (length xs) ys" by (auto simp: prefix_def append_eq_append_conv2)
    with True Cons.prems(2) [of 0 "length xs"] show thesis by simp
  next
    case False
    with Cons.prems(3) obtain zs where xs: "xs = ys @ zs" and "prefix zs (concat yss)"
      by (auto simp: prefix_def append_eq_append_conv2)
    note pre = this(2)
    show thesis
    proof (rule Cons.IH [OF _ _ pre])
      fix n assume "zs = concat (take n yss)" "n \<le> length yss"
      then show thesis using Cons.prems(1) [of "Suc n"] by (simp add: xs)
    next
      fix n k assume "zs = concat (take n yss) @ take k (yss ! n)" "n < length yss" "k < length (yss ! n)"
      then show thesis using Cons.prems(2) [of "Suc n" k] by (simp add: xs)
    qed
  qed
qed

text \<open>How many of some frames, given their lengths, are complete in a number of bytes.\<close>

fun complete :: "nat list \<Rightarrow> nat \<Rightarrow> nat" where
  "complete [] b = 0"
| "complete (l # ls) b = (if l \<le> b then Suc (complete ls (b - l)) else 0)"

lemma complete_cut:
  "n \<le> length yss \<Longrightarrow> (n < length yss \<Longrightarrow> k < length (yss ! n)) \<Longrightarrow>
     complete (map length yss) (length (concat (take n yss)) + k) = n"
proof (induction yss arbitrary: n)
  case (Cons ys yss)
  then show ?case by (cases n) auto
qed simp

lemma encode_user_length: "length (encode_user p d) = 13 + length d"
  by (simp add: encode_user_def)

lemma deliver_users:
  "fold deliver (map (\<lambda>(p, d). FUser p d) ms) R = fold (\<lambda>(p, d) R. snd (Runtime_send p (User d) R)) ms R"
  by (induction ms arbitrary: R) auto

lemma encode_users: "map encode (map (\<lambda>(p, d). FUser p d) ms) = map (\<lambda>(p, d). encode_user p d) ms"
  by (induction ms) auto

lemma end_or_cut:
  assumes "stream (rd c) = [] \<or> (\<exists>p d k. stream (rd c) = take k (encode_user p d) \<and> k < length (encode_user p d)
    \<and> fits (srv c) (FUser p d))"
  shows "\<exists>res r. handle_loop c = (res, c\<lparr>rd := r\<rparr>)"
  using assms cut_frame_ignored [of c] handle_loop_end [of c] by metis

text \<open>A server that is sent any first part of a sequence of user frames has delivered the first so many of them.\<close>

lemma serves_whole_frames:
  assumes st: "stream (rd c) = PROTOCOL_VERSION # concat (map (\<lambda>(p, d). encode_user p d) ms) @ rest"
    and fits: "\<forall>(p, d)\<in>set ms. fits (srv c) (FUser p d)" and w: "outcomes (wr c) = []"
    and rest: "rest = [] \<or> (\<exists>p d k. rest = take k (encode_user p d) \<and> k < length (encode_user p d) \<and> fits (srv c) (FUser p d))"
  shows "\<exists>res c'. handle_connection c = (res, c') \<and> srv c' = fold (\<lambda>(p, d) R. snd (Runtime_send p (User d) R)) ms (srv c)"
proof -
  have "stream (rd c) = PROTOCOL_VERSION # concat (map encode (map (\<lambda>(p, d). FUser p d) ms)) @ rest"
    unfolding encode_users by (rule st)
  moreover have "\<forall>f\<in>set (map (\<lambda>(p, d). FUser p d) ms). fits (srv c) f" using fits by auto
  ultimately obtain r w' where r: "stream r = rest"
    and h: "handle_connection c = handle_loop (c\<lparr>rd := r, srv := fold deliver (map (\<lambda>(p, d). FUser p d) ms) (srv c), wr := w'\<rparr>)"
    using handle_connection_frames [OF _ _ w] by metis
  let ?c = "c\<lparr>rd := r, srv := fold deliver (map (\<lambda>(p, d). FUser p d) ms) (srv c), wr := w'\<rparr>"
  have "fits (srv ?c) (FUser p d) = fits (srv c) (FUser p d)" for p d by (simp add: deliver_limits)
  with rest r have "stream (rd ?c) = [] \<or> (\<exists>p d k. stream (rd ?c) = take k (encode_user p d)
      \<and> k < length (encode_user p d) \<and> fits (srv ?c) (FUser p d))" by auto
  from end_or_cut [OF this] obtain res r' where "handle_loop ?c = (res, ?c\<lparr>rd := r'\<rparr>)" by blast
  with h show ?thesis by (simp add: deliver_users)
qed

lemma serves_prefix:
  assumes "prefix (stream (rd c)) (PROTOCOL_VERSION # concat (map (\<lambda>(p, d). encode_user p d) ms))"
    and fits: "\<forall>(p, d)\<in>set ms. fits (srv c) (FUser p d)" and w: "outcomes (wr c) = []"
  shows "\<exists>res c'. handle_connection c = (res, c') \<and> srv c' = fold (\<lambda>(p, d) R. snd (Runtime_send p (User d) R))
    (take (complete (map (\<lambda>(p, d). 13 + length d) ms) (length (stream (rd c)) - 1)) ms) (srv c)"
proof (cases "stream (rd c)")
  case Nil
  obtain r where "read_exact_with_timeout 1 (rd c) = (Inl (stop (rd c)), r)"
    by (rule read_exact_short [of "rd c" 1]) (simp add: Nil)
  moreover have "complete (map (\<lambda>(p, d). 13 + length d) ms) 0 = 0" by (cases ms) (auto split: prod.split)
  ultimately show ?thesis by (auto simp: handle_connection_def Nil)
next
  case (Cons b bs)
  let ?enc = "\<lambda>(p, d). encode_user p d"
  have fit: "\<forall>(p, d)\<in>set (take n ms). fits (srv c) (FUser p d)" for n using fits set_take_subset by fast
  from assms(1) Cons have b: "b = PROTOCOL_VERSION" and pre: "prefix bs (concat (map ?enc ms))" by simp_all
  have lens: "map (\<lambda>(p, d). 13 + length d) ms = map length (map ?enc ms)" by (auto simp: encode_user_length)
  have pos: "0 < length (map ?enc ms ! n)" if "n < length ms" for n
    using that by (cases "ms ! n") (simp add: encode_user_def)
  from pre show ?thesis
  proof (rule prefix_concat_cut)
    fix n assume n: "bs = concat (take n (map ?enc ms))" "n \<le> length (map ?enc ms)"
    have "complete (map length (map ?enc ms)) (length (stream (rd c)) - 1) = n"
      using complete_cut [OF n(2), of 0] pos n by (simp add: Cons)
    moreover have "stream (rd c) = PROTOCOL_VERSION # concat (map ?enc (take n ms)) @ []" by (simp add: Cons b take_map n(1))
    ultimately show ?thesis unfolding lens using serves_whole_frames [OF _ fit w] by simp
  next
    fix n k
    assume k: "bs = concat (take n (map ?enc ms)) @ take k (map ?enc ms ! n)" "n < length (map ?enc ms)" "k < length (map ?enc ms ! n)"
    obtain p d where pd: "ms ! n = (p, d)" by fastforce
    from k(2) have "ms ! n \<in> set ms" by simp
    with fits pd have "fits (srv c) (FUser p d)" by auto
    moreover from k pd have "stream (rd c) = PROTOCOL_VERSION # concat (map ?enc (take n ms)) @ take k (encode_user p d)"
      by (simp add: Cons b take_map)
    moreover have "k < length (encode_user p d)" using k pd by simp
    moreover have "complete (map length (map ?enc ms)) (length (stream (rd c)) - 1) = n"
      using complete_cut [of n "map ?enc ms" k] k by (simp add: Cons)
    ultimately show ?thesis unfolding lens using serves_whole_frames [OF _ fit w] by (metis (no_types, lifting))
  qed
qed

section \<open>Progress\<close>

text \<open>How many steps a task has left at most.\<close>

fun stage_rank :: "stage \<Rightarrow> nat" where
  "stage_rank Start = 8"
| "stage_rank (Lookup first) = (if first then 7 else 3)"
| "stage_rank (Connect first) = (if first then 6 else 2)"
| "stage_rank (Queue first _) = (if first then 5 else 1)"
| "stage_rank Remove = 4"
| "stage_rank (Finished _) = 0"

lemma send_step_task:
  assumes "send_step limit dial hello j S = Some S'" and "j < length (stasks S)"
  shows "stage_rank (stage (stasks S' ! j)) < stage_rank (stage (stasks S ! j))"
    and "length (stasks S') = length (stasks S)" and "k \<noteq> j \<Longrightarrow> stasks S' ! k = stasks S ! k"
  using assms
  by (auto simp: send_step_def open_peer_def enqueue_def set_stage_def Let_def split: stage.splits option.splits if_splits)

definition own_step :: "nat \<Rightarrow> pool_event \<Rightarrow> bool" where
  "own_step j e = (case e of ESend k _ _ _ \<Rightarrow> k = j | _ \<Rightarrow> False)"

lemma conn_step_tasks: "conn_step out i S = Some S' \<Longrightarrow> stasks S' = stasks S"
  by (auto simp: conn_step_def Let_def split: conn_task.splits list.splits option.splits if_splits)

lemma pool_exec_rank:
  assumes "pool_exec e S = Some S'" and "j < length (stasks S)"
  shows "j < length (stasks S')"
    and "(if own_step j e then 1 else 0) + stage_rank (stage (stasks S' ! j)) \<le> stage_rank (stage (stasks S ! j))"
proof (atomize (full), cases e)
  case (ECall a p data)
  with assms show "j < length (stasks S') \<and> (if own_step j e then 1 else 0)
      + stage_rank (stage (stasks S' ! j)) \<le> stage_rank (stage (stasks S ! j))"
    by (auto simp: Runtime_send_remote_def own_step_def nth_append)
next
  case (ESend k limit dial hello)
  with assms send_step_task [of limit dial hello k S S'] show "j < length (stasks S') \<and> (if own_step j e then 1 else 0)
      + stage_rank (stage (stasks S' ! j)) \<le> stage_rank (stage (stasks S ! j))"
    by (cases "k = j") (auto simp: own_step_def split: if_splits)
next
  case (EConn i out)
  with assms conn_step_tasks show "j < length (stasks S') \<and> (if own_step j e then 1 else 0)
      + stage_rank (stage (stasks S' ! j)) \<le> stage_rank (stage (stasks S ! j))"
    by (auto simp: own_step_def split: if_splits)
qed

lemma pool_run_rank:
  "pool_run es S = Some S' \<Longrightarrow> j < length (stasks S) \<Longrightarrow>
     length (filter (own_step j) es) + stage_rank (stage (stasks S' ! j)) \<le> stage_rank (stage (stasks S ! j))"
proof (induction es arbitrary: S)
  case (Cons e es)
  then obtain S1 where S1: "pool_exec e S = Some S1" "pool_run es S1 = Some S'" by (auto split: option.splits)
  from Cons.IH [OF S1(2) pool_exec_rank(1) [OF S1(1) Cons.prems(2)]] pool_exec_rank(2) [OF S1(1) Cons.prems(2)]
  show ?case by (auto split: if_splits)
qed simp

lemma stage_rank_le: "stage_rank st \<le> 8"
  by (cases st) auto

section \<open>A task that nothing interrupts\<close>

text \<open>
  The pool as \<open>Network\<close> sees it, and a task that runs alone to its end, with the outcomes of the first
  and of the second attempt to connect.
\<close>

definition abs_peer :: "pconn \<Rightarrow> peer" where
  "abs_peer c = \<lparr>pqueue = cqueue c, popen = (ctask c \<noteq> PDropped), psent = csent c\<rparr>"

definition abs_pool :: "pool_sys \<Rightarrow> pool" where
  "abs_pool S = \<lparr>PEER_POOL = POOL S,
     peers = (\<lambda>i. if i < length (pconns S) then abs_peer (pconns S ! i) else \<lparr>pqueue = [], popen = False, psent = []\<rparr>),
     next_peer = length (pconns S)\<rparr>"

function run_alone ::
    "usize \<Rightarrow> io_error option \<times> io_error option \<Rightarrow> io_error option \<times> io_error option \<Rightarrow> nat \<Rightarrow> pool_sys \<Rightarrow> pool_sys" where
  "run_alone limit try1 try2 j S =
     (let try = (if stage (stasks S ! j) = Connect True then try1 else try2) in
      if j < length (stasks S) then
        (case send_step limit (fst try) (snd try) j S of
           None \<Rightarrow> S
         | Some S' \<Rightarrow> run_alone limit try1 try2 j S')
      else S)"
  by auto

termination
  by (relation "measure (\<lambda>(limit, try1, try2, j, S). stage_rank (stage (stasks S ! j)))")
    (use send_step_task(1) in \<open>auto split: if_splits\<close>)

declare run_alone.simps [simp del]

lemma run_alone_stages:
  assumes "j < length (stasks S)"
  shows "stage (stasks S ! j) = Start \<Longrightarrow> run_alone limit try1 try2 j S = run_alone limit try1 try2 j
      (set_stage j (if length (payload (stasks S ! j)) > unat limit
         then Finished (Inl (InvalidInput ''payload too large'')) else Lookup True) S)"
    and "stage (stasks S ! j) = Lookup first \<Longrightarrow> run_alone limit try1 try2 j S = run_alone limit try1 try2 j
      (set_stage j (case POOL S (dest (stasks S ! j)) of Some i \<Rightarrow> Queue first i | None \<Rightarrow> Connect first) S)"
    and "stage (stasks S ! j) = Connect first \<Longrightarrow> (if first then try1 else try2) = (dial, hello) \<Longrightarrow>
      run_alone limit try1 try2 j S = run_alone limit try1 try2 j
        (case dial of Some e \<Rightarrow> set_stage j (Finished (Inl e)) S
         | None \<Rightarrow> (case hello of Some e \<Rightarrow> set_stage j (Finished (Inl e)) S | None \<Rightarrow> open_peer first j S))"
    and "stage (stasks S ! j) = Queue first i \<Longrightarrow> length (cqueue (pconns S ! i)) < channel_capacity \<Longrightarrow>
      run_alone limit try1 try2 j S = run_alone limit try1 try2 j
        (if ctask (pconns S ! i) = PDropped
         then set_stage j (if first then Remove else Finished (Inl ConnectionAborted)) S else enqueue j i S)"
    and "stage (stasks S ! j) = Remove \<Longrightarrow> run_alone limit try1 try2 j S = run_alone limit try1 try2 j
      (set_stage j (Lookup False) (S\<lparr>POOL := (POOL S)(dest (stasks S ! j) := None)\<rparr>))"
    and "stage (stasks S ! j) = Finished r \<Longrightarrow> run_alone limit try1 try2 j S = S"
  using assms
  by (simp_all add: run_alone.simps [of limit try1 try2 j S] send_step_def Let_def split: option.split)

lemma abs_pool_simps [simp]:
  "PEER_POOL (abs_pool S) = POOL S" "next_peer (abs_pool S) = length (pconns S)"
  "i < length (pconns S) \<Longrightarrow> peers (abs_pool S) i = abs_peer (pconns S ! i)"
  "abs_pool (set_stage j st S) = abs_pool S"
  "abs_pool (S\<lparr>POOL := m\<rparr>) = (abs_pool S)\<lparr>PEER_POOL := m\<rparr>"
  by (simp_all add: abs_pool_def cong: if_cong)

lemma abs_pool_open:
  "abs_pool (open_peer first j S) = (abs_pool S)\<lparr>PEER_POOL := (POOL S)(dest (stasks S ! j) \<mapsto> length (pconns S)),
     next_peer := length (pconns S) + 1,
     peers := (peers (abs_pool S))(length (pconns S) := \<lparr>pqueue = [], popen = True, psent = [PROTOCOL_VERSION]\<rparr>)\<rparr>"
  by (auto simp: open_peer_def Let_def abs_pool_def abs_peer_def nth_append less_Suc_eq)

lemma abs_pool_enqueue:
  assumes "i < length (pconns S)"
  shows "abs_pool (enqueue j i S) = (abs_pool S)\<lparr>peers := (peers (abs_pool S))(i := (peers (abs_pool S) i)
     \<lparr>pqueue := pqueue (peers (abs_pool S) i) @ [task_frame (stasks S ! j)]\<rparr>)\<rparr>"
  using assms by (auto simp: enqueue_def Let_def abs_pool_def abs_peer_def)

text \<open>What a task has before it looks a connection up, and the outcome of an attempt.\<close>

definition ready :: "nat \<Rightarrow> send_task \<Rightarrow> pool_sys \<Rightarrow> bool" where
  "ready j t S \<longleftrightarrow> j < length (stasks S) \<and> (\<exists>st. stasks S ! j = t\<lparr>stage := st\<rparr>)
     \<and> (\<forall>a i. POOL S a = Some i \<longrightarrow> i < length (pconns S))
     \<and> (\<forall>c\<in>set (pconns S). length (cqueue c) < channel_capacity)"

lemma readyD:
  assumes "ready j t S"
  shows "j < length (stasks S)" and "dest (stasks S ! j) = dest t" and "payload (stasks S ! j) = payload t"
    and "task_frame (stasks S ! j) = encode_user (to_pid t) (payload t)"
  using assms by (auto simp: ready_def task_frame_def)

lemma ready_stage:
  "ready j t S \<Longrightarrow> ready j t (set_stage j st S)" "ready j t S \<Longrightarrow> stage (stasks (set_stage j st S) ! j) = st"
  by (auto simp: ready_def set_stage_nth intro: exI [of _ st])

lemma ready_remove: "ready j t S \<Longrightarrow> ready j t (S\<lparr>POOL := (POOL S)(a := None)\<rparr>)"
  by (auto simp: ready_def)

lemma ready_open:
  assumes "ready j t S"
  shows "ready j t (open_peer first j S)"
    and "stage (stasks (open_peer first j S) ! j) = Queue first (length (pconns S))"
proof -
  have "ready j t (S\<lparr>POOL := (POOL S)(dest t \<mapsto> length (pconns S)), pconns := pconns S
      @ [\<lparr>caddr = dest t, cqueue = [], ctask = PRunning, csent = [PROTOCOL_VERSION], caccepted = []\<rparr>]\<rparr>)"
    using assms by (auto simp: ready_def channel_capacity_def less_Suc_eq)
  from ready_stage [OF this] show "ready j t (open_peer first j S)"
    "stage (stasks (open_peer first j S) ! j) = Queue first (length (pconns S))"
    by (simp_all add: open_peer_def Let_def readyD [OF assms])
qed

lemma connect_alone:
  assumes r: "ready j t S" and st: "stage (stasks S ! j) = Lookup first"
    and tr: "(if first then try1 else try2) = (dial, hello)"
    and g: "get_or_connect_peer dial hello (dest t) (abs_pool S) = (x, P)"
  shows "\<exists>S1. run_alone limit try1 try2 j S = run_alone limit try1 try2 j S1 \<and> ready j t S1 \<and> abs_pool S1 = P
    \<and> stage (stasks S1 ! j) = (case x of Inl e \<Rightarrow> Finished (Inl e) | Inr i \<Rightarrow> Queue first i)
    \<and> (\<forall>i. x = Inr i \<longrightarrow> i < length (pconns S1))"
proof (cases "POOL S (dest t)")
  case (Some i)
  with r g have "x = Inr i" "P = abs_pool S" "i < length (pconns S)" by (auto simp: get_or_connect_peer_def ready_def)
  with r Some run_alone_stages(2) [OF readyD(1) [OF r] st] ready_stage [OF r] readyD(2) [OF r] show ?thesis
    by (intro exI [of _ "set_stage j (Queue first i) S"]) simp
next
  case None
  let ?S = "set_stage j (Connect first) S"
  note r' = ready_stage [OF r, of "Connect first"]
  let ?T = "case dial of Some e \<Rightarrow> set_stage j (Finished (Inl e)) ?S
     | None \<Rightarrow> (case hello of Some e \<Rightarrow> set_stage j (Finished (Inl e)) ?S | None \<Rightarrow> open_peer first j ?S)"
  have "run_alone limit try1 try2 j S = run_alone limit try1 try2 j ?T"
    using run_alone_stages(2) [OF readyD(1) [OF r] st] run_alone_stages(3) [OF readyD(1) [OF r'(1)] r'(2) tr]
      None readyD(2) [OF r] by simp
  moreover have "ready j t ?T" using ready_stage(1) [OF r'(1)] ready_open(1) [OF r'(1)] by (simp split: option.split)
  moreover have "abs_pool ?T = P \<and> (\<forall>i. x = Inr i \<longrightarrow> i < length (pconns ?T))
      \<and> stage (stasks ?T ! j) = (case x of Inl e \<Rightarrow> Finished (Inl e) | Inr i \<Rightarrow> Queue first i)"
    using g None ready_stage(2) [OF r'(1)] ready_open(2) [OF r'(1)] abs_pool_open [of first j ?S] readyD(2) [OF r'(1)]
    by (auto simp: get_or_connect_peer_def Let_def open_peer_def split: option.splits)
  ultimately show ?thesis by blast
qed

lemma queue_alone:
  assumes r: "ready j t S" and st: "stage (stasks S ! j) = Queue first i" and i: "i < length (pconns S)"
    and p: "peer_send i (encode_user (to_pid t) (payload t)) (abs_pool S) = (ok, P)"
  shows "if ok then run_alone limit try1 try2 j S = enqueue j i S \<and> abs_pool (enqueue j i S) = P
      \<and> stage (stasks (enqueue j i S) ! j) = Finished (Inr ())
    else P = abs_pool S \<and> run_alone limit try1 try2 j S = run_alone limit try1 try2 j
      (set_stage j (if first then Remove else Finished (Inl ConnectionAborted)) S)"
proof -
  have room: "length (cqueue (pconns S ! i)) < channel_capacity" using r i by (simp add: ready_def)
  note run = run_alone_stages(4) [OF readyD(1) [OF r] st room, of limit try1 try2]
  show ?thesis
  proof (cases "ctask (pconns S ! i) = PDropped")
    case True
    with p i run show ?thesis by (auto simp: peer_send_def abs_peer_def)
  next
    case False
    have e: "stage (stasks (enqueue j i S) ! j) = Finished (Inr ())" "j < length (stasks (enqueue j i S))"
      using readyD(1) [OF r] by (simp_all add: enqueue_task)
    from False p i run run_alone_stages(6) [OF e(2,1)] e(1) abs_pool_enqueue [OF i, of j] readyD(4) [OF r] show ?thesis
      by (auto simp: peer_send_def abs_peer_def)
  qed
qed

text \<open>An attempt: the result of the task if it ends here, and otherwise the retry.\<close>

lemma attempt_alone:
  assumes r: "ready j t S" and st: "stage (stasks S ! j) = Lookup first"
    and tr: "(if first then try1 else try2) = (dial, hello)"
    and g: "get_or_connect_peer dial hello (dest t) (abs_pool S) = (x, P)"
  shows "case x of
      Inl e \<Rightarrow> \<exists>S'. run_alone limit try1 try2 j S = S' \<and> stage (stasks S' ! j) = Finished (Inl e) \<and> abs_pool S' = P
    | Inr i \<Rightarrow> (case peer_send i (encode_user (to_pid t) (payload t)) P of
        (True, P') \<Rightarrow> \<exists>S'. run_alone limit try1 try2 j S = S' \<and> stage (stasks S' ! j) = Finished (Inr ()) \<and> abs_pool S' = P'
      | (False, P') \<Rightarrow> \<exists>S1. ready j t S1 \<and> abs_pool S1 = P \<and> P' = P
          \<and> stage (stasks S1 ! j) = (if first then Remove else Finished (Inl ConnectionAborted))
          \<and> run_alone limit try1 try2 j S = run_alone limit try1 try2 j S1)"
proof -
  obtain S1 where S1: "run_alone limit try1 try2 j S = run_alone limit try1 try2 j S1" "ready j t S1" "abs_pool S1 = P"
    "stage (stasks S1 ! j) = (case x of Inl e \<Rightarrow> Finished (Inl e) | Inr i \<Rightarrow> Queue first i)"
    "\<forall>i. x = Inr i \<longrightarrow> i < length (pconns S1)"
    using connect_alone [OF r st tr g] by blast
  show ?thesis
  proof (cases x)
    case (Inl e)
    with S1 run_alone_stages(6) [OF readyD(1) [OF S1(2)]] show ?thesis by auto
  next
    case (Inr i)
    obtain ok P' where p: "peer_send i (encode_user (to_pid t) (payload t)) P = (ok, P')" by fastforce
    from queue_alone [OF S1(2), of first i ok P' limit try1 try2] S1 p Inr
      ready_stage [OF S1(2), of "if first then Remove else Finished (Inl ConnectionAborted)"]
    show ?thesis
      by (cases ok) (auto intro!: exI [of _ "set_stage j (if first then Remove else Finished (Inl ConnectionAborted)) S1"])
  qed
qed

lemma send_remote_alone:
  assumes r: "ready j t S" and st: "stage (stasks S ! j) = Start"
  shows "\<exists>S' res. run_alone (network_max_payload R) try1 try2 j S = S' \<and> stage (stasks S' ! j) = Finished res
    \<and> send_remote try1 try2 R (dest t) (to_pid t) (payload t) (abs_pool S) = (res, abs_pool S')"
proof -
  let ?run = "run_alone (network_max_payload R) try1 try2 j" and ?msg = "encode_user (to_pid t) (payload t)"
  note start = run_alone_stages(1) [OF readyD(1) [OF r] st, of "network_max_payload R" try1 try2]
  have fin: "?run T = T" if "ready j t T" "stage (stasks T ! j) = Finished res" for T res
    using run_alone_stages(6) [OF readyD(1) [OF that(1)] that(2)] .
  show ?thesis
  proof (cases "length (payload t) > unat (network_max_payload R)")
    case True
    let ?S = "set_stage j (Finished (Inl (InvalidInput ''payload too large''))) S"
    from True start readyD [OF r] fin [OF ready_stage [OF r]] have "?run S = ?S" by simp
    with True ready_stage(2) [OF r] show ?thesis by (simp add: send_remote_def)
  next
    case False
    let ?S = "set_stage j (Lookup True) S"
    note r1 = ready_stage [OF r, of "Lookup True"]
    from False start readyD [OF r] have run: "?run S = ?run ?S" by simp
    obtain x P where g: "get_or_connect_peer (fst try1) (snd try1) (dest t) (abs_pool ?S) = (x, P)" by fastforce
    note a1 = attempt_alone [OF r1 _ g, of try1 try2 "network_max_payload R"]
    show ?thesis
    proof (cases "\<exists>i P'. x = Inr i \<and> peer_send i ?msg P = (False, P')")
      case False
      with a1 g run \<open>\<not> unat (network_max_payload R) < length (payload t)\<close> show ?thesis
        by (auto simp: send_remote_def Let_def split: sum.splits prod.splits bool.splits)
    next
      case True
      then obtain i where x: "x = Inr i" "peer_send i ?msg P = (False, P)" by (auto simp: peer_send_def split: if_splits)
      with a1 obtain S1 where S1: "ready j t S1" "abs_pool S1 = P" "stage (stasks S1 ! j) = Remove" "?run ?S = ?run S1"
        by auto
      let ?S2 = "set_stage j (Lookup False) (S1\<lparr>POOL := (POOL S1)(dest t := None)\<rparr>)"
      note r2 = ready_stage [OF ready_remove [OF S1(1)], of "Lookup False"]
      have run2: "?run S1 = ?run ?S2" using run_alone_stages(5) [OF readyD(1) [OF S1(1)] S1(3)] readyD(2) [OF S1(1)] by simp
      have abs2: "abs_pool ?S2 = P\<lparr>PEER_POOL := (PEER_POOL P)(dest t := None)\<rparr>" using S1(2) by auto
      obtain y P2 where g2: "get_or_connect_peer (fst try2) (snd try2) (dest t) (abs_pool ?S2) = (y, P2)" by fastforce
      note a2 = attempt_alone [OF r2 _ g2, of try1 try2 "network_max_payload R"]
      from a2 g g2 run run2 S1(4) x abs2 False fin show ?thesis
        by (auto simp: send_remote_def Let_def split: sum.splits prod.splits bool.splits)
    qed
  qed
qed

section \<open>Connections that keep up\<close>

lemma drain_connection:
  assumes "i < length (pconns S)" and "ctask (pconns S ! i) = PRunning"
  shows "pool_run (replicate (length (cqueue (pconns S ! i))) (EConn i None)) S
    = Some (upd_conn i (\<lambda>c. c\<lparr>cqueue := [], csent := csent c @ concat (cqueue c)\<rparr>) S)"
  using assms
proof (induction "cqueue (pconns S ! i)" arbitrary: S)
  case Nil
  then have q: "cqueue (pconns S ! i) = []" by simp
  then have e: "(pconns S ! i)\<lparr>cqueue := [], csent := csent (pconns S ! i) @ concat (cqueue (pconns S ! i))\<rparr> = pconns S ! i"
    by (cases "pconns S ! i") simp
  have "upd_conn i (\<lambda>c. c\<lparr>cqueue := [], csent := csent c @ concat (cqueue c)\<rparr>) S = S"
    unfolding upd_conn_def e list_update_id by (cases S) simp
  with q show ?case by simp
next
  case (Cons msg rest)
  let ?S = "upd_conn i (\<lambda>c. c\<lparr>cqueue := rest, csent := csent c @ msg\<rparr>) S"
  have q: "cqueue (pconns S ! i) = msg # rest" using Cons.hyps(2) by simp
  have step: "conn_step None i S = Some ?S" using Cons.prems by (simp add: conn_step_def Let_def q)
  have c: "pconns ?S ! i = (pconns S ! i)\<lparr>cqueue := rest, csent := csent (pconns S ! i) @ msg\<rparr>"
    using Cons.prems(1) by (simp add: upd_conn_nth)
  from Cons.hyps(1) [of ?S] Cons.prems c show ?case by (simp add: step q) (simp add: upd_conn_def q)
qed

section \<open>Three runs\<close>

text \<open>Two calls to one address. The second task finds the connection the first has opened and is faster.\<close>

definition ex_calls :: "pool_event list" where
  "ex_calls = [ECall ''n:1'' 5 [1], ECall ''n:1'' 6 []]"

abbreviation task :: "nat \<Rightarrow> pool_event" where
  "task j \<equiv> ESend j 100 None None"

definition ex_overtaken :: "pool_event list" where
  "ex_overtaken = ex_calls @ [task 0, task 0, task 0, task 1, task 1, task 1, task 0, EConn 0 None, EConn 0 None]"

text \<open>Both tasks connect; the first connection fails and its task removes the entry of the second.\<close>

definition ex_unpooled :: "pool_event list" where
  "ex_unpooled = ex_calls @ [task 0, task 0, task 1, task 1, task 0, task 1, task 0, task 1,
     EConn 0 (Some (TimedOut, 3)), EConn 0 None]"

text \<open>The second message is accepted after the write of the first has failed.\<close>

definition ex_lost :: "pool_event list" where
  "ex_lost = ex_calls @ [task 0, task 0, task 0, task 0, task 1, task 1, EConn 0 (Some (TimedOut, 3)), task 1,
     EConn 0 None, EConn 0 None]"

lemmas pool_run_defs = ex_calls_def pool_start_def Runtime_send_remote_def send_step_def open_peer_def enqueue_def
  set_stage_def upd_conn_def conn_step_def has_sender_def channel_capacity_def task_frame_def Let_def

definition ex_tasks :: "send_task list" where
  "ex_tasks = [\<lparr>dest = ''n:1'', to_pid = 5, payload = [1], stage = Finished (Inr ())\<rparr>,
     \<lparr>dest = ''n:1'', to_pid = 6, payload = [], stage = Finished (Inr ())\<rparr>]"

definition ex_lost_conn :: pconn where
  "ex_lost_conn = \<lparr>caddr = ''n:1'', cqueue = [], ctask = PDropped,
     csent = PROTOCOL_VERSION # take 3 (encode_user 5 [1]), caccepted = [0, 1]\<rparr>"

lemma ex_overtaken_run: "pool_run ex_overtaken pool_start = Some \<lparr>POOL = [''n:1'' \<mapsto> 0],
    pconns = [\<lparr>caddr = ''n:1'', cqueue = [], ctask = PRunning,
      csent = PROTOCOL_VERSION # encode_user 6 [] @ encode_user 5 [1], caccepted = [1, 0]\<rparr>], stasks = ex_tasks\<rparr>"
  by (simp add: ex_overtaken_def ex_tasks_def pool_run_defs)

lemma ex_unpooled_run: "pool_run ex_unpooled pool_start = Some \<lparr>POOL = Map.empty,
    pconns = [\<lparr>caddr = ''n:1'', cqueue = [], ctask = PRemoved,
        csent = PROTOCOL_VERSION # take 3 (encode_user 5 [1]), caccepted = [0]\<rparr>,
      \<lparr>caddr = ''n:1'', cqueue = [encode_user 6 []], ctask = PRunning, csent = [PROTOCOL_VERSION], caccepted = [1]\<rparr>],
    stasks = ex_tasks\<rparr>"
  by (simp add: ex_unpooled_def ex_tasks_def pool_run_defs)

lemma ex_lost_run:
  "pool_run ex_lost pool_start = Some \<lparr>POOL = Map.empty, pconns = [ex_lost_conn], stasks = ex_tasks\<rparr>"
  by (simp add: ex_lost_def ex_tasks_def ex_lost_conn_def pool_run_defs)

lemmas ex_pool_reachable =
  pool_run_reachable [OF ex_overtaken_run pool_reachable.start]
  pool_run_reachable [OF ex_unpooled_run pool_reachable.start]
  pool_run_reachable [OF ex_lost_run pool_reachable.start]

section \<open>Properties\<close>

text \<open>
  The pool multiplexes without mixing frames up. Whatever the interleaving of callers and
  connection tasks, what a connection has written is a prefix of the version byte followed by whole
  frames, those its channel accepted, in the order in which it accepted them; while its task runs
  only the frames still in the channel are missing, and these are never more than 1024.
\<close>

theorem pool_connection_carries_frames:
  assumes "pool_reachable S" and "c \<in> set (pconns S)"
  shows "prefix (csent c) (PROTOCOL_VERSION # concat (map (\<lambda>j. task_frame (stasks S ! j)) (caccepted c)))
    \<and> (ctask c = PRunning \<longrightarrow>
        csent c @ concat (cqueue c) = PROTOCOL_VERSION # concat (map (\<lambda>j. task_frame (stasks S ! j)) (caccepted c)))
    \<and> length (cqueue c) \<le> 1024"
proof -
  have "conn_wf (stasks S) c" using pool_reachable_inv [OF assms(1)] assms(2) by (simp add: pool_inv_def)
  then show ?thesis by (auto simp: conn_wf_def accepted_frames_def channel_capacity_def)
qed

theorem pool_connection_carries_frames_witness:
  "prefix (PROTOCOL_VERSION # take 3 (encode_user 5 [1])) (PROTOCOL_VERSION # encode_user 5 [1] @ encode_user 6 [])"
  using pool_connection_carries_frames [OF ex_pool_reachable(3), of ex_lost_conn]
  by (simp add: task_frame_def ex_lost_conn_def ex_tasks_def)

text \<open>
  C13: a call of \<^verbatim>\<open>send_remote\<close> queues its message once or not at all. Over all connections ever opened,
  the message of a task has been accepted once if the task has ended with \<^verbatim>\<open>Ok\<close> and never otherwise,
  and only by a connection to the address the call names; so the retry never duplicates a message.
\<close>

theorem send_remote_task_queues_once:
  assumes "pool_reachable S" and "j < length (stasks S)"
  shows "count_list (concat (map caccepted (pconns S))) j = (if stage (stasks S ! j) = Finished (Inr ()) then 1 else 0)
    \<and> (\<forall>c\<in>set (pconns S). j \<in> set (caccepted c) \<longrightarrow> caddr c = dest (stasks S ! j))"
proof -
  have h: "history_wf S" using pool_reachable_inv [OF assms(1)] by (simp add: pool_inv_def)
  then have "j \<in> set (concat (map caccepted (pconns S))) \<longleftrightarrow> stage (stasks S ! j) = Finished (Inr ())"
    using assms(2) by (auto simp: history_wf_def)
  moreover have "count_list (concat (map caccepted (pconns S))) j = (if j \<in> set (concat (map caccepted (pconns S))) then 1 else 0)"
    using h distinct_count_atmost_1 [of "concat (map caccepted (pconns S))"] by (simp add: history_wf_def count_mset)
  ultimately show ?thesis using h by (auto simp: history_wf_def)
qed

theorem send_remote_task_queues_once_witness:
  "\<exists>S. pool_run ex_overtaken pool_start = Some S \<and> count_list (concat (map caccepted (pconns S))) 1 = 1"
  using send_remote_task_queues_once [OF ex_pool_reachable(1), of 1] ex_overtaken_run by simp

text \<open>
  C14: what arrives at a remote node was sent, in the order in which the connection took it. Let a
  server read any first part of what a connection has written, cut into pieces in any way. Then it
  has delivered exactly the messages whose frames (13 bytes and the payload each) are complete in
  that part: the first so many that the connection accepted, to the identifiers the calls named, each
  once and in that order. A frame that is cut off does nothing.
\<close>

theorem remote_delivery_is_prefix:
  assumes "pool_reachable S" and "c \<in> set (pconns S)" and "prefix (stream rs) (csent c)"
    and "\<forall>j\<in>set (caccepted c). fits Rs (FUser (to_pid (stasks S ! j)) (payload (stasks S ! j)))"
  shows "\<exists>res c'. handle_connection \<lparr>rd = rs, wr = \<lparr>outcomes = [], written = []\<rparr>, srv = Rs\<rparr> = (res, c')
    \<and> srv c' = fold (\<lambda>j R. snd (Runtime_send (to_pid (stasks S ! j)) (User (payload (stasks S ! j))) R))
        (take (complete (map (\<lambda>j. 13 + length (payload (stasks S ! j))) (caccepted c)) (length (stream rs) - 1))
          (caccepted c)) Rs"
proof -
  let ?msg = "\<lambda>j. (to_pid (stasks S ! j), payload (stasks S ! j))"
  let ?c = "\<lparr>rd = rs, wr = \<lparr>outcomes = [], written = []\<rparr>, srv = Rs\<rparr>"
  have "conn_wf (stasks S) c" using pool_reachable_inv [OF assms(1)] assms(2) by (simp add: pool_inv_def)
  with assms(3) have "prefix (stream (rd ?c)) (PROTOCOL_VERSION # concat (map (\<lambda>(p, d). encode_user p d) (map ?msg (caccepted c))))"
    by (auto simp: conn_wf_def accepted_frames_def task_frame_def comp_def intro: prefix_order.trans)
  moreover have "\<forall>(p, d)\<in>set (map ?msg (caccepted c)). fits (srv ?c) (FUser p d)" using assms(4) by auto
  ultimately obtain res c' where "handle_connection ?c = (res, c')"
    "srv c' = fold (\<lambda>(p, d) R. snd (Runtime_send p (User d) R))
       (take (complete (map (\<lambda>(p, d). 13 + length d) (map ?msg (caccepted c))) (length (stream rs) - 1)) (map ?msg (caccepted c))) Rs"
    using serves_prefix [of ?c "map ?msg (caccepted c)"] by auto
  then show ?thesis by (intro exI conjI) (auto simp: take_map fold_map comp_def)
qed

theorem remote_delivery_is_prefix_witness:
  "\<exists>res c'. handle_connection \<lparr>rd = (csent ex_lost_conn, []), wr = \<lparr>outcomes = [], written = []\<rparr>, srv = Runtime_new\<rparr> = (res, c')
    \<and> srv c' = fold (\<lambda>j R. snd (Runtime_send (to_pid (ex_tasks ! j)) (User (payload (ex_tasks ! j))) R))
        (take (complete (map (\<lambda>j. 13 + length (payload (ex_tasks ! j))) (caccepted ex_lost_conn)) (length (csent ex_lost_conn) - 1))
          (caccepted ex_lost_conn)) Runtime_new"
proof -
  have "stream (csent ex_lost_conn, []) = csent ex_lost_conn" by (simp add: stream_def)
  moreover have "\<forall>j\<in>set (caccepted ex_lost_conn). fits Runtime_new (FUser (to_pid (ex_tasks ! j)) (payload (ex_tasks ! j)))"
    by (simp add: ex_lost_conn_def new_limits ex_tasks_def)
  ultimately show ?thesis
    using remote_delivery_is_prefix [OF ex_pool_reachable(3), of ex_lost_conn "(csent ex_lost_conn, [])" Runtime_new] by simp
qed

text \<open>
  C17: every remote send comes to an end. In any run the task of a call takes at most eight steps, so
  it retries at most once; and a task that cannot step has ended, or waits for a full channel whose
  connection can step.
\<close>

theorem send_remote_task_ends:
  assumes "j < length (stasks S)"
  shows "(pool_run es S = Some S' \<longrightarrow> length (filter (own_step j) es) \<le> 8)
    \<and> (send_step limit dial hello j S = None \<longrightarrow>
        (\<exists>r. stage (stasks S ! j) = Finished r)
      \<or> (\<exists>f i. stage (stasks S ! j) = Queue f i \<and> 1024 \<le> length (cqueue (pconns S ! i)) \<and> conn_step out i S \<noteq> None))"
proof -
  have "pool_run es S = Some S' \<longrightarrow> length (filter (own_step j) es) \<le> 8"
    using pool_run_rank [OF _ assms] stage_rank_le [of "stage (stasks S ! j)"] by (meson add_leE le_trans)
  moreover have "conn_step out i S \<noteq> None"
    if "ctask (pconns S ! i) \<noteq> PDropped" "1024 \<le> length (cqueue (pconns S ! i))" for i
    using that by (auto simp: conn_step_def Let_def split: conn_task.splits list.splits option.splits)
  ultimately show ?thesis
    by (auto simp: send_step_def Let_def channel_capacity_def split: stage.splits option.splits if_splits)
qed

theorem send_remote_task_ends_witness:
  "\<exists>S S'. pool_run ex_calls pool_start = Some S
    \<and> pool_run (drop 2 ex_lost) S = Some S' \<and> length (filter (own_step 1) (drop 2 ex_lost)) \<le> 8"
proof -
  obtain S where S: "pool_run ex_calls pool_start = Some S" "1 < length (stasks S)" by (simp add: pool_run_defs)
  then obtain S' where "pool_run (drop 2 ex_lost) S = Some S'"
    using ex_lost_run by (auto simp: ex_lost_def ex_calls_def)
  with S send_remote_task_ends [OF S(2), of "drop 2 ex_lost"] show ?thesis by blast
qed

text \<open>
  The sequential model of \<^verbatim>\<open>send_remote\<close> is what its task does when nothing comes between. From any
  reachable state of the pool in which no channel is full, the task of a call that runs alone ends,
  with the result and the pool that \<open>send_remote\<close> computes from the abstraction of the state.
\<close>

theorem send_remote_task_refines:
  assumes "pool_reachable S" and "j < length (stasks S)" and "stage (stasks S ! j) = Start"
    and "\<forall>c\<in>set (pconns S). length (cqueue c) < 1024"
  shows "\<exists>S' res. run_alone (network_max_payload R) try1 try2 j S = S' \<and> stage (stasks S' ! j) = Finished res
    \<and> send_remote try1 try2 R (dest (stasks S ! j)) (to_pid (stasks S ! j)) (payload (stasks S ! j)) (abs_pool S) = (res, abs_pool S')"
proof (rule send_remote_alone [OF _ assms(3)])
  have "\<exists>st. stasks S ! j = (stasks S ! j)\<lparr>stage := st\<rparr>" by (rule exI [of _ "stage (stasks S ! j)"]) simp
  with assms pool_reachable_inv [OF assms(1)] show "ready j (stasks S ! j) S"
    unfolding ready_def pool_inv_def entries_wf_def channel_capacity_def by blast
qed

theorem send_remote_task_refines_witness:
  "\<exists>S res. pool_run ex_calls pool_start = Some S \<and> stage (stasks (run_alone 1048576 (None, None) (None, None) 0 S) ! 0) = Finished res"
proof -
  obtain S where S: "pool_run ex_calls pool_start = Some S" "stage (stasks S ! 0) = Start" "0 < length (stasks S)" "pconns S = []"
    by (simp add: pool_run_defs)
  have "network_max_payload Runtime_new = 1048576" by (simp add: Runtime_new_def)
  with send_remote_task_refines [OF pool_run_reachable [OF S(1) pool_reachable.start] S(3,2), of Runtime_new "(None, None)" "(None, None)"]
  show ?thesis using S(1,4) by auto
qed

text \<open>
  A connection whose writes succeed delivers everything it accepted. From any reachable state of the
  pool, as many steps of a running connection as its channel holds messages, without a write error,
  leave the channel empty; what it has written is then the version byte and the frame of every
  message it ever accepted, in order, and nothing else of the pool has changed.
\<close>

theorem connection_writes_accepted:
  assumes "pool_reachable S" and "i < length (pconns S)" and "ctask (pconns S ! i) = PRunning"
  shows "\<exists>S'. pool_run (replicate (length (cqueue (pconns S ! i))) (EConn i None)) S = Some S'
    \<and> csent (pconns S' ! i) = PROTOCOL_VERSION # concat (map (\<lambda>j. task_frame (stasks S ! j)) (caccepted (pconns S ! i)))
    \<and> cqueue (pconns S' ! i) = [] \<and> ctask (pconns S' ! i) = PRunning \<and> caccepted (pconns S' ! i) = caccepted (pconns S ! i)
    \<and> POOL S' = POOL S \<and> stasks S' = stasks S \<and> (\<forall>k < length (pconns S). k \<noteq> i \<longrightarrow> pconns S' ! k = pconns S ! k)"
proof -
  have "conn_wf (stasks S) (pconns S ! i)" using pool_reachable_inv [OF assms(1)] assms(2) by (simp add: pool_inv_def)
  with drain_connection [OF assms(2,3)] assms(2,3) show ?thesis
    by (auto simp: upd_conn_nth conn_wf_def accepted_frames_def)
qed

theorem connection_writes_accepted_witness:
  "\<exists>S S'. pool_run ex_unpooled pool_start = Some S \<and> pool_run [EConn 1 None] S = Some S'
    \<and> csent (pconns S' ! 1) = PROTOCOL_VERSION # encode_user 6 []"
  using ex_unpooled_run connection_writes_accepted [OF ex_pool_reachable(2), of 1] by (auto simp: ex_tasks_def task_frame_def)

text \<open>
  Two calls of \<^verbatim>\<open>Runtime::send_remote\<close> for one node, one after the other and without any error, can
  arrive in the other order: each runs in a task of its own.
\<close>

theorem remote_sends_can_overtake:
  "\<exists>S. pool_run ex_overtaken pool_start = Some S \<and> take 2 ex_overtaken = [ECall ''n:1'' 5 [1], ECall ''n:1'' 6 []]
    \<and> map csent (pconns S) = [PROTOCOL_VERSION # encode_user 6 [] @ encode_user 5 [1]]"
  using ex_overtaken_run by (simp add: ex_overtaken_def ex_calls_def)

text \<open>
  The task of a failed connection removes whatever entry its address has by then: a connection that
  works can be thrown out of the pool.
\<close>

theorem live_connection_can_lose_entry:
  "\<exists>S c. pool_reachable S \<and> c \<in> set (pconns S) \<and> ctask c = PRunning \<and> cqueue c \<noteq> [] \<and> POOL S (caddr c) = None"
  using ex_pool_reachable(2) by fastforce

text \<open>
  Between a failed write and the end of the task the channel still accepts messages: \<^verbatim>\<open>send_remote\<close>
  returns \<^verbatim>\<open>Ok\<close> for a message that is dropped and never written.
\<close>

theorem accepted_message_can_be_lost:
  "\<exists>S. pool_reachable S \<and> stage (stasks S ! 1) = Finished (Inr ()) \<and> map ctask (pconns S) = [PDropped]
    \<and> map csent (pconns S) = [PROTOCOL_VERSION # take 3 (task_frame (stasks S ! 0))]"
  using ex_pool_reachable(3) by (intro exI conjI) (assumption, simp_all add: ex_tasks_def ex_lost_conn_def task_frame_def)

end
