(* ===== verification/Buffer.thy ===== *)
theory Buffer
  imports Prelude
begin

text \<open>
  \<^verbatim>\<open>src/buffer.rs\<close>: the registry of byte buffers the foreign-function layer shares with its
  callers. A \<^verbatim>\<open>Vec<u8>\<close> is an address into a store of byte arrays, because \<^verbatim>\<open>ptr_len\<close> gives that
  address away: whoever holds it reads and writes the same bytes as the registry, and, after
  \<^verbatim>\<open>take\<close>, as the message built from the buffer. The address of a fresh vector is the argument
  \<open>a\<close> of \<open>BufferRegistry_allocate\<close> (the allocator's choice); that it is not in use is the
  hypothesis \<open>a \<notin> live\<close>. Identifiers come from an atomic counter that wraps.
\<close>

type_synonym BufferId = u64
type_synonym addr = nat

record BufferRegistry =
  inner :: "BufferId \<rightharpoonup> addr"
  next_id :: u64

text \<open>The store: the bytes behind every vector that has not been freed.\<close>

type_synonym heap = "addr \<rightharpoonup> bytes"

definition BufferRegistry_new :: BufferRegistry where
  "BufferRegistry_new = \<lparr>inner = Map.empty, next_id = 1\<rparr>"

text \<open>Dropping an entry that a map operation displaced frees its vector.\<close>

definition drop_vec :: "addr option \<Rightarrow> heap \<Rightarrow> heap" where
  "drop_vec v h = (case v of None \<Rightarrow> h | Some a \<Rightarrow> h(a := None))"

definition BufferRegistry_allocate ::
    "addr \<Rightarrow> usize \<Rightarrow> BufferRegistry \<Rightarrow> heap \<Rightarrow> BufferId \<times> BufferRegistry \<times> heap" where
  "BufferRegistry_allocate a sz r h =
     (let bid = next_id r;
          r = r\<lparr>next_id := next_id r + 1\<rparr>;
          h = h(a \<mapsto> replicate (unat sz) 0);
          h = drop_vec (inner r bid) h
      in (bid, r\<lparr>inner := (inner r)(bid \<mapsto> a)\<rparr>, h))"

definition BufferRegistry_ptr_len :: "BufferId \<Rightarrow> BufferRegistry \<Rightarrow> heap \<Rightarrow> (addr \<times> nat) option" where
  "BufferRegistry_ptr_len bid r h =
     (case inner r bid of None \<Rightarrow> None
      | Some a \<Rightarrow> (case h a of None \<Rightarrow> None | Some v \<Rightarrow> Some (a, length v)))"

definition BufferRegistry_take :: "BufferId \<Rightarrow> BufferRegistry \<Rightarrow> addr option \<times> BufferRegistry" where
  "BufferRegistry_take bid r = (inner r bid, r\<lparr>inner := (inner r)(bid := None)\<rparr>)"

definition BufferRegistry_free :: "BufferId \<Rightarrow> BufferRegistry \<Rightarrow> heap \<Rightarrow> BufferRegistry \<times> heap" where
  "BufferRegistry_free bid r h =
     (r\<lparr>inner := (inner r)(bid := None)\<rparr>, drop_vec (inner r bid) h)"

text \<open>A write through the pointer \<^verbatim>\<open>ptr_len\<close> returned: undefined (\<open>None\<close>) once the vector is freed.\<close>

definition write_ptr :: "addr \<Rightarrow> nat \<Rightarrow> u8 \<Rightarrow> heap \<Rightarrow> heap option" where
  "write_ptr a i b h =
     (case h a of None \<Rightarrow> None
      | Some v \<Rightarrow> if i < length v then Some (h(a \<mapsto> v[i := b])) else None)"

text \<open>
  The invariant: every entry points to a live vector, no two to the same one, and every identifier
  in use was handed out by the counter within its last \<open>2 ^ 64\<close> values.
\<close>

definition buffers_wf :: "nat \<Rightarrow> BufferRegistry \<Rightarrow> heap \<Rightarrow> bool" where
  "buffers_wf n r h \<longleftrightarrow> next_id r = of_nat (Suc n)
     \<and> (\<forall>bid a. inner r bid = Some a \<longrightarrow> h a \<noteq> None \<and> (\<exists>k\<in>{1..n}. bid = of_nat k))
     \<and> inj_on (inner r) (dom (inner r))"

text \<open>A run of calls, with the vectors the caller has taken out.\<close>

datatype buf_op = BAllocate addr usize | BTake BufferId | BFree BufferId

fun buf_exec :: "buf_op \<Rightarrow> BufferRegistry \<times> heap \<Rightarrow> BufferRegistry \<times> heap" where
  "buf_exec (BAllocate a sz) (r, h) = snd (BufferRegistry_allocate a sz r h)"
| "buf_exec (BTake bid) (r, h) = (snd (BufferRegistry_take bid r), h)"
| "buf_exec (BFree bid) (r, h) = BufferRegistry_free bid r h"

text \<open>The allocator never returns an address in use: the law of the parameter \<open>a\<close>.\<close>

fun fresh_addrs :: "buf_op list \<Rightarrow> BufferRegistry \<times> heap \<Rightarrow> bool" where
  "fresh_addrs [] s = True"
| "fresh_addrs (x # xs) s =
     ((case x of BAllocate a sz \<Rightarrow> snd s a = None | _ \<Rightarrow> True) \<and> fresh_addrs xs (buf_exec x s))"

definition allocations :: "buf_op list \<Rightarrow> nat" where
  "allocations ops = length (filter (\<lambda>x. \<exists>a sz. x = BAllocate a sz) ops)"

lemma allocations_Cons:
  "allocations (x # xs) = (case x of BAllocate _ _ \<Rightarrow> 1 | _ \<Rightarrow> 0) + allocations xs"
  by (simp add: allocations_def split: buf_op.split)

section \<open>The invariant\<close>

lemma fresh_id:
  assumes "buffers_wf n r h" and "Suc n < 2 ^ 64"
  shows "inner r (next_id r) = None"
proof (rule ccontr)
  assume "inner r (next_id r) \<noteq> None"
  then obtain a where "inner r (next_id r) = Some a" by blast
  with assms(1) obtain k where k: "k \<in> {1..n}" "(of_nat (Suc n) :: u64) = of_nat k"
    by (fastforce simp: buffers_wf_def simp del: of_nat_Suc)
  then have "unat (of_nat (Suc n) :: u64) = unat (of_nat k :: u64)" by simp
  with k(1) assms(2) show False
    by (simp add: unat_of_nat take_bit_nat_eq_self del: of_nat_Suc)
qed

lemma allocate_spec:
  assumes wf: "buffers_wf n r h" and n: "Suc n < 2 ^ 64"
  shows "BufferRegistry_allocate a sz r h =
     (next_id r, \<lparr>inner = (inner r)(next_id r \<mapsto> a), next_id = next_id r + 1\<rparr>,
      h(a \<mapsto> replicate (unat sz) 0))"
  using fresh_id [OF wf n] by (cases r) (simp add: BufferRegistry_allocate_def drop_vec_def Let_def)

lemma allocate_wf:
  assumes wf: "buffers_wf n r h" and n: "Suc n < 2 ^ 64" and a: "h a = None"
    and al: "BufferRegistry_allocate a sz r h = (bid, r', h')"
  shows "buffers_wf (Suc n) r' h'"
proof -
  note sp = allocate_spec [OF wf n, of a sz, unfolded al]
  then have r': "r' = \<lparr>inner = (inner r)(next_id r \<mapsto> a), next_id = next_id r + 1\<rparr>"
    and h': "h' = h(a \<mapsto> replicate (unat sz) 0)" by auto
  have new: "next_id r = of_nat (Suc n)" using wf by (simp add: buffers_wf_def)
  have old: "inner r i = Some b \<Longrightarrow> h b \<noteq> None \<and> (\<exists>k\<in>{1..n}. i = of_nat k)" for i b
    using wf by (auto simp: buffers_wf_def)
  have "inner r i \<noteq> Some a" for i using old [of i a] a by auto
  then have "inj_on (inner r') (dom (inner r'))"
    using wf by (auto simp: r' buffers_wf_def inj_on_def)
  moreover have "h' b \<noteq> None \<and> (\<exists>k\<in>{1..Suc n}. i = of_nat k)" if "inner r' i = Some b" for i b
  proof (cases "i = next_id r")
    case True
    with that have "b = a" by (simp add: r')
    moreover have "\<exists>k\<in>{1..Suc n}. i = of_nat k" unfolding True new by (rule bexI [of _ "Suc n"]) auto
    ultimately show ?thesis by (simp add: h')
  next
    case False
    with that have "inner r i = Some b" by (simp add: r')
    with old [of i b] show ?thesis by (auto simp: h')
  qed
  ultimately show ?thesis by (simp add: buffers_wf_def r' new)
qed

lemma remove_wf:
  assumes "buffers_wf n r h" and "\<forall>i b. i \<noteq> bid \<longrightarrow> inner r i = Some b \<longrightarrow> h' b = h b"
  shows "buffers_wf n (r\<lparr>inner := (inner r)(bid := None)\<rparr>) h'"
  using assms by (auto simp: buffers_wf_def inj_on_def dom_def)

lemma take_wf:
  "buffers_wf n r h \<Longrightarrow> buffers_wf n (snd (BufferRegistry_take bid r)) h"
  unfolding BufferRegistry_take_def snd_conv by (rule remove_wf) auto

lemma free_wf:
  assumes wf: "buffers_wf n r h" and f: "BufferRegistry_free bid r h = (r', h')"
  shows "buffers_wf n r' h'"
proof -
  have "inner r i = inner r bid \<Longrightarrow> inner r i = Some b \<Longrightarrow> i = bid" for i b
    using wf by (metis buffers_wf_def domI inj_on_def)
  then have "\<forall>i b. i \<noteq> bid \<longrightarrow> inner r i = Some b \<longrightarrow> drop_vec (inner r bid) h b = h b"
    by (auto simp: drop_vec_def split: option.split)
  from remove_wf [OF wf this] f show ?thesis by (auto simp: BufferRegistry_free_def)
qed

lemma buf_exec_wf:
  assumes "buffers_wf n r h" and "fresh_addrs [x] (r, h)" and "n + allocations [x] < 2 ^ 64"
    and "buf_exec x (r, h) = (r', h')"
  shows "buffers_wf (n + allocations [x]) r' h'"
proof (cases x)
  case (BAllocate a sz)
  obtain bid where "BufferRegistry_allocate a sz r h = (bid, r', h')"
    using assms(4) BAllocate by (cases "BufferRegistry_allocate a sz r h") auto
  from allocate_wf [OF assms(1) _ _ this] assms(2,3) BAllocate show ?thesis
    by (simp add: allocations_Cons allocations_def)
next
  case (BTake bid)
  with assms take_wf [OF assms(1), of bid] show ?thesis by (auto simp: allocations_def)
next
  case (BFree bid)
  with assms free_wf [OF assms(1), of bid] show ?thesis by (auto simp: allocations_def)
qed

lemma buf_run_wf:
  assumes "buffers_wf n r h" and "fresh_addrs ops (r, h)" and "n + allocations ops < 2 ^ 64"
    and "fold buf_exec ops (r, h) = (r', h')"
  shows "buffers_wf (n + allocations ops) r' h'"
  using assms
proof (induction ops arbitrary: n r h)
  case Nil
  then show ?case by (simp add: allocations_def)
next
  case (Cons x ops)
  obtain r1 h1 where x: "buf_exec x (r, h) = (r1, h1)" by fastforce
  have a: "allocations (x # ops) = allocations [x] + allocations ops"
    by (simp add: allocations_Cons [of x ops] allocations_Cons [of x "[]"]) (simp add: allocations_def)
  from Cons.prems a have "n + allocations [x] < 2 ^ 64" "fresh_addrs [x] (r, h)" by auto
  from buf_exec_wf [OF Cons.prems(1) this(2,1) x] have "buffers_wf (n + allocations [x]) r1 h1" .
  from Cons.IH [OF this] Cons.prems x a show ?case by (simp add: add.assoc)
qed

lemma new_wf: "buffers_wf 0 BufferRegistry_new h"
  by (simp add: buffers_wf_def BufferRegistry_new_def)

section \<open>Properties\<close>

text \<open>
  Whatever calls came before (fewer than \<open>2 ^ 64\<close> allocations, each vector at an address not in
  use), \<^verbatim>\<open>allocate\<close> returns an identifier that no live buffer has, and the new buffer is the
  requested number of zero bytes; the other buffers keep their identifiers and their bytes.
\<close>

theorem buffer_allocate_fresh:
  assumes "fresh_addrs ops (BufferRegistry_new, Map.empty)"
    and "Suc (allocations ops) < 2 ^ 64"
    and "fold buf_exec ops (BufferRegistry_new, Map.empty) = (r, h)" and "h a = None"
    and "BufferRegistry_allocate a sz r h = (bid, r', h')"
  shows "inner r bid = None \<and> BufferRegistry_ptr_len bid r' h' = Some (a, unat sz)
    \<and> h' a = Some (replicate (unat sz) 0)
    \<and> (other \<noteq> bid \<longrightarrow> BufferRegistry_ptr_len other r' h' = BufferRegistry_ptr_len other r h)
    \<and> (b \<noteq> a \<longrightarrow> h' b = h b)"
proof -
  have wf: "buffers_wf (allocations ops) r h"
    using buf_run_wf [OF new_wf assms(1) _ assms(3)] assms(2) by simp
  note sp = allocate_spec [OF wf assms(2), of a sz, unfolded assms(5)]
  have "inner r other \<noteq> Some a" using wf assms(4) by (metis buffers_wf_def)
  with sp fresh_id [OF wf assms(2)] show ?thesis
    by (auto simp: BufferRegistry_ptr_len_def split: option.splits)
qed

theorem buffer_allocate_fresh_witness:
  "\<exists>bid r' h'. BufferRegistry_allocate 8 2 \<lparr>inner = Map.empty, next_id = 2\<rparr> [4 \<mapsto> [0]] = (bid, r', h')
     \<and> bid = 2 \<and> h' 8 = Some [0, 0]"
proof -
  have run: "fold buf_exec [BAllocate 4 1, BTake 1] (BufferRegistry_new, Map.empty)
      = (\<lparr>inner = Map.empty, next_id = 2\<rparr>, [4 \<mapsto> [0]])"
    by (simp add: BufferRegistry_new_def BufferRegistry_allocate_def BufferRegistry_take_def
        drop_vec_def)
  obtain bid r' h' where al: "BufferRegistry_allocate 8 2 \<lparr>inner = Map.empty, next_id = 2\<rparr> [4 \<mapsto> [0]]
      = (bid, r', h')" by (metis prod_cases3)
  have "h' 8 = Some (replicate (unat (2 :: usize)) 0)"
    using buffer_allocate_fresh [OF _ _ run _ al] by (simp add: allocations_def)
  moreover have "bid = 2" using al by (simp add: BufferRegistry_allocate_def Let_def)
  moreover have "replicate (unat (2 :: usize)) (0 :: u8) = [0, 0]" by code_simp
  ultimately show ?thesis using al by simp
qed

text \<open>
  A buffer can be taken once. \<^verbatim>\<open>take\<close> hands out the vector behind the identifier; every later
  \<^verbatim>\<open>take\<close> or \<^verbatim>\<open>ptr_len\<close> of that identifier returns nothing and a later \<^verbatim>\<open>free\<close> of it frees
  nothing, while other identifiers are not affected.
\<close>

theorem buffer_taken_once:
  assumes "BufferRegistry_take bid r = (v, r')"
  shows "v = inner r bid \<and> fst (BufferRegistry_take bid r') = None
    \<and> BufferRegistry_ptr_len bid r' h = None \<and> BufferRegistry_free bid r' h = (r', h)
    \<and> (other \<noteq> bid \<longrightarrow> BufferRegistry_ptr_len other r' h = BufferRegistry_ptr_len other r h)"
proof -
  from assms have "v = inner r bid" "r' = r\<lparr>inner := (inner r)(bid := None)\<rparr>"
    by (auto simp: BufferRegistry_take_def)
  moreover have "(\<lambda>a. if a = bid then None else inner r a) = (inner r)(bid := None)" by auto
  ultimately show ?thesis
    by (simp add: BufferRegistry_take_def BufferRegistry_ptr_len_def BufferRegistry_free_def drop_vec_def)
qed

theorem buffer_taken_once_witness:
  "fst (BufferRegistry_take 1 \<lparr>inner = [1 \<mapsto> 4], next_id = 2\<rparr>) = Some 4
   \<and> fst (BufferRegistry_take 1 (snd (BufferRegistry_take 1 \<lparr>inner = [1 \<mapsto> 4], next_id = 2\<rparr>))) = None"
  using buffer_taken_once [of 1 "\<lparr>inner = [1 \<mapsto> 4], next_id = 2\<rparr>"] by (simp add: prod_eq_iff)

text \<open>
  The pointer \<^verbatim>\<open>ptr_len\<close> gave out outlives the buffer's place in the registry. After \<^verbatim>\<open>take\<close> a
  write through it still succeeds and changes the bytes of the vector that was taken; after \<^verbatim>\<open>free\<close>
  the same write has no vector to go to.
\<close>

theorem buffer_pointer_outlives_entry:
  assumes "BufferRegistry_ptr_len bid r h = Some (a, n)" and "i < n"
  shows "(\<exists>v. h a = Some v \<and> fst (BufferRegistry_take bid r) = Some a
      \<and> write_ptr a i b h = Some (h(a \<mapsto> v[i := b])))
    \<and> write_ptr a i b (snd (BufferRegistry_free bid r h)) = None"
  using assms
  by (auto simp: BufferRegistry_ptr_len_def BufferRegistry_take_def BufferRegistry_free_def
      write_ptr_def drop_vec_def split: option.splits)

theorem buffer_pointer_outlives_entry_witness:
  "write_ptr 4 1 9 [4 \<mapsto> [0, 0]] = Some [4 \<mapsto> [0, 9]]
   \<and> write_ptr 4 1 9 (snd (BufferRegistry_free 1 \<lparr>inner = [1 \<mapsto> 4], next_id = 2\<rparr> [4 \<mapsto> [0, 0]])) = None"
  using buffer_pointer_outlives_entry [of 1 "\<lparr>inner = [1 \<mapsto> 4], next_id = 2\<rparr>" "[4 \<mapsto> [0, 0]]" 4 2 1 9]
  by (simp add: BufferRegistry_ptr_len_def)

end
