(* ===== verification/PyMailbox.thy ===== *)
theory PyMailbox
  imports Runtime
begin

text \<open>
  \<^verbatim>\<open>src/py.rs\<close>, the pull side of the Python binding: the conversion of messages, the matcher and the
  blocking receive loops. Python objects are data (\<open>PyObj\<close>); a Python callable is a parameter, a
  function to \<open>py_result\<close>, so that raising is a value.
\<close>

record PySystemMessage =
  type_name :: string
  target_pid :: "u64 option"
  py_reason :: string
  py_metadata :: "string option"

datatype PyObj = PyBytes bytes | PySystem PySystemMessage | PyNone

text \<open>The outcome of a call: an exception, a value that converts to a bool, or another value.\<close>

datatype py_result = PyRaise string | PyBool bool | PyOther

section \<open>Messages\<close>

definition reason_text :: "ExitReason \<Rightarrow> string" where
  "reason_text r =
     (case r of
        Normal \<Rightarrow> ''normal'' | Panic \<Rightarrow> ''panic'' | Timeout \<Rightarrow> ''timeout'' | Killed \<Rightarrow> ''killed''
      | Oom \<Rightarrow> ''oom'' | Other s \<Rightarrow> s)"

fun message_to_py :: "Message \<Rightarrow> PyObj" where
  "message_to_py (User b) = PyBytes b"
| "message_to_py (System (Exit info)) = PySystem \<lparr>type_name = ''EXIT'', target_pid = Some (from_pid info),
     py_reason = reason_text (reason info), py_metadata = metadata info\<rparr>"
| "message_to_py (System (HotSwap _)) = PySystem \<lparr>type_name = ''HOT_SWAP'', target_pid = None,
     py_reason = [], py_metadata = None\<rparr>"
| "message_to_py (System Ping) = PySystem \<lparr>type_name = ''PING'', target_pid = None, py_reason = [], py_metadata = None\<rparr>"
| "message_to_py (System Pong) = PySystem \<lparr>type_name = ''PONG'', target_pid = None, py_reason = [], py_metadata = None\<rparr>"

text \<open>\<^verbatim>\<open>Ok(val) => val.extract::<bool>(py).unwrap_or(false), Err(_) => false\<close>\<close>

definition accepts :: "py_result \<Rightarrow> bool" where
  "accepts r = (case r of PyBool b \<Rightarrow> b | PyRaise _ \<Rightarrow> False | PyOther \<Rightarrow> False)"

fun run_python_matcher :: "(PyObj \<Rightarrow> py_result) \<Rightarrow> Message \<Rightarrow> bool" where
  "run_python_matcher f (User b) = accepts (f (PyBytes b))"
| "run_python_matcher f (System (Exit info)) =
     (let r = (case reason info of
          Normal \<Rightarrow> ''normal'' | Panic \<Rightarrow> ''panic'' | Timeout \<Rightarrow> ''timeout'' | Killed \<Rightarrow> ''killed''
        | Oom \<Rightarrow> ''oom'' | Other s \<Rightarrow> s)
      in accepts (f (PySystem \<lparr>type_name = ''EXIT'', target_pid = Some (from_pid info), py_reason = r,
           py_metadata = metadata info\<rparr>)))"
| "run_python_matcher f (System (HotSwap _)) =
     accepts (f (PySystem \<lparr>type_name = ''HOT_SWAP'', target_pid = None, py_reason = [], py_metadata = None\<rparr>))"
| "run_python_matcher f (System Ping) =
     accepts (f (PySystem \<lparr>type_name = ''PING'', target_pid = None, py_reason = [], py_metadata = None\<rparr>))"
| "run_python_matcher f (System Pong) =
     accepts (f (PySystem \<lparr>type_name = ''PONG'', target_pid = None, py_reason = [], py_metadata = None\<rparr>))"

lemma run_python_matcher_converts: "run_python_matcher f m = accepts (f (message_to_py m))"
  by (cases "(f, m)" rule: run_python_matcher.cases) (simp_all add: reason_text_def Let_def)

section \<open>The blocking receives\<close>

text \<open>
  One round of the loop in \<^verbatim>\<open>recv\<close> and \<^verbatim>\<open>selective_recv\<close>: whether a signal is pending, the time passed at
  the head of the round, what happens to the mailbox during the wait of up to 100 ms, and the time
  passed after it. \<open>poll\<close> is the receive of the mailbox; the future is polled once at the start and
  again after each event that wakes it. The timeout is a \<^verbatim>\<open>Duration\<close> already
  (\<^verbatim>\<open>Duration::from_secs_f64\<close> panics on a negative number), and the mailbox has one reader, so its
  lock is free. The matcher is a function of the message: one that keeps a state between its calls is
  left out.
\<close>

record recv_round =
  interrupted :: bool
  elapsed :: duration
  arrivals :: "mail_op list"
  elapsed_after :: duration

text \<open>\<^verbatim>\<open>tokio::time::timeout(actual_wait, fut)\<close>: the first poll that is ready, \<open>Pending\<close> for \<^verbatim>\<open>Err(_)\<close>.\<close>

fun poll_until :: "(mailbox \<Rightarrow> Message option poll \<times> mailbox) \<Rightarrow> mail_op list \<Rightarrow> mailbox
    \<Rightarrow> Message option poll \<times> mailbox" where
  "poll_until poll [] mb = poll mb"
| "poll_until poll (e # es) mb =
     (case poll mb of
        (Pending, mb) \<Rightarrow> poll_until poll es (snd (snd (mail_step e mb)))
      | (Ready r, mb) \<Rightarrow> (Ready r, mb))"

definition expired :: "duration option \<Rightarrow> duration \<Rightarrow> bool" where
  "expired timeout_dur el = (case timeout_dur of Some t \<Rightarrow> el \<ge> t | None \<Rightarrow> False)"

text \<open>\<open>Some\<close> is the value the call returns (or the exception), \<open>None\<close> says that it still waits.\<close>

fun recv_rounds ::
    "(mailbox \<Rightarrow> Message option poll \<times> mailbox) \<Rightarrow> duration option \<Rightarrow> recv_round list \<Rightarrow> mailbox
       \<Rightarrow> (string + PyObj) option \<times> mailbox" where
  "recv_rounds poll timeout_dur [] mb = (None, mb)"
| "recv_rounds poll timeout_dur (r # rs) mb =
     (if interrupted r then (Some (Inl ''KeyboardInterrupt''), mb)
      else if expired timeout_dur (elapsed r) then (Some (Inr PyNone), mb)
      else
        (case poll_until poll (arrivals r) mb of
           (Ready (Some msg), mb) \<Rightarrow> (Some (Inr (message_to_py msg)), mb)
         | (Ready None, mb) \<Rightarrow> (Some (Inr PyNone), mb)
         | (Pending, mb) \<Rightarrow>
             if expired timeout_dur (elapsed_after r)
             then (Some (Inr PyNone), mb)
             else recv_rounds poll timeout_dur rs mb))"

definition PyMailbox_recv ::
    "duration option \<Rightarrow> recv_round list \<Rightarrow> mailbox \<Rightarrow> (string + PyObj) option \<times> mailbox" where
  "PyMailbox_recv timeout_dur rs mb = recv_rounds MailboxReceiver_recv timeout_dur rs mb"

definition PyMailbox_selective_recv ::
    "(PyObj \<Rightarrow> py_result) \<Rightarrow> duration option \<Rightarrow> recv_round list \<Rightarrow> mailbox
       \<Rightarrow> (string + PyObj) option \<times> mailbox" where
  "PyMailbox_selective_recv matcher timeout_dur rs mb =
     recv_rounds (MailboxReceiver_selective_recv (run_python_matcher matcher)) timeout_dur rs mb"

section \<open>The receive loop over any receive of the mailbox\<close>

definition from_outside :: "mail_op \<Rightarrow> bool" where
  "from_outside x = (case x of Send _ \<Rightarrow> True | DropSender \<Rightarrow> True | _ \<Rightarrow> False)"

text \<open>The messages sent by a list of events; the events of a wait that happen before a poll is ready; and
  those of a whole call, up to its return.\<close>

definition sent_in :: "mail_op list \<Rightarrow> Message list" where
  "sent_in es = concat (map (\<lambda>e. case e of Send m \<Rightarrow> [m] | _ \<Rightarrow> []) es)"

lemma sent_in_simps [simp]:
  "sent_in [] = []" "sent_in (Send m # es) = m # sent_in es" "sent_in (DropSender # es) = sent_in es"
  "sent_in (es @ fs) = sent_in es @ sent_in fs"
  by (simp_all add: sent_in_def)

fun poll_events :: "(mailbox \<Rightarrow> Message option poll \<times> mailbox) \<Rightarrow> mail_op list \<Rightarrow> mailbox \<Rightarrow> mail_op list" where
  "poll_events poll [] mb = []"
| "poll_events poll (e # es) mb =
     (case poll mb of
        (Pending, mb) \<Rightarrow> e # poll_events poll es (snd (snd (mail_step e mb)))
      | (Ready r, mb) \<Rightarrow> [])"

fun call_events ::
    "(mailbox \<Rightarrow> Message option poll \<times> mailbox) \<Rightarrow> duration option \<Rightarrow> recv_round list \<Rightarrow> mailbox \<Rightarrow> mail_op list" where
  "call_events poll timeout_dur [] mb = []"
| "call_events poll timeout_dur (r # rs) mb =
     (if interrupted r \<or> expired timeout_dur (elapsed r) then []
      else poll_events poll (arrivals r) mb @
        (case poll_until poll (arrivals r) mb of
           (Pending, mb) \<Rightarrow> if expired timeout_dur (elapsed_after r) then [] else call_events poll timeout_dur rs mb
         | (Ready q, mb) \<Rightarrow> []))"

text \<open>What a call has to do with the message it took off the mailbox, if it took one.\<close>

definition call_result :: "(Message \<Rightarrow> bool) \<Rightarrow> Message list \<Rightarrow> (string + PyObj) option \<Rightarrow> bool" where
  "call_result acceptable del out \<longleftrightarrow>
     del = [] \<and> out \<in> {None, Some (Inl ''KeyboardInterrupt''), Some (Inr PyNone)}
     \<or> (\<exists>m. del = [m] \<and> acceptable m \<and> out = Some (Inr (message_to_py m)))"

lemma call_result_simps:
  "call_result p [] (Some (Inr PyNone))"
  "p m \<Longrightarrow> call_result p [m] (Some (Inr (message_to_py m)))"
  by (simp_all add: call_result_def)

lemma poll_option_cases:
  obtains "q = Pending" | "q = Ready None" | m where "q = Ready (Some m)"
  by (metis option.exhaust poll.exhaust)

text \<open>
  The contract of a receive the loop can be built on: one call of it is the step \<open>op\<close> of the mailbox,
  and what it delivers is acceptable.
\<close>

locale receive_loop =
  fixes poll :: "mailbox \<Rightarrow> Message option poll \<times> mailbox"
    and op :: mail_op
    and acceptable :: "Message \<Rightarrow> bool"
  assumes poll_op: "poll mb = (r, mb') \<Longrightarrow> mail_step op mb = ([], delivered r, mb')"
    and poll_acceptable: "mail_wf mb \<Longrightarrow> poll mb = (Ready (Some m), mb') \<Longrightarrow> acceptable m"
    and poll_ends: "mail_wf mb \<Longrightarrow> poll mb = (r, mb') \<Longrightarrow> rx_alive (sys_ch mb') = rx_alive (sys_ch mb)"
begin

text \<open>What comes from outside is accepted while the receiver is there, and delivers nothing.\<close>

lemma outside_step:
  assumes "from_outside x" and "mail_wf mb" and "rx_alive (sys_ch mb)"
  obtains mb' where "mail_step x mb = (sent_in [x], [], mb')" and "mail_wf mb'" and "rx_alive (sys_ch mb')"
proof -
  obtain a d mb' where s: "mail_step x mb = (a, d, mb')" by (metis prod_cases3)
  have "a = sent_in [x] \<and> d = [] \<and> rx_alive (sys_ch mb')"
  proof (cases x)
    case (Send m)
    have "fst (MailboxSender_send m mb) = Inr ()" by (rule send_alive(1) [OF assms(2,3)])
    with s Send send_ends [of mb m] assms(3) show ?thesis by (auto simp: same_ends_def split: prod.splits sum.splits)
  qed (use assms(1,3) s in \<open>auto simp: from_outside_def drop_sender_def chan_defs\<close>)
  with that [of mb'] s mail_step_wf [OF assms(2) s] show thesis by simp
qed

lemma poll_until_run:
  assumes "mail_wf mb" and "rx_alive (sys_ch mb)" and "\<forall>x\<in>set es. from_outside x" and "poll_until poll es mb = (r, mb')"
  shows "\<exists>ops. mail_run ops mb = (sent_in (poll_events poll es mb), delivered r, mb') \<and> rx_alive (sys_ch mb')
    \<and> (\<forall>m. r = Ready (Some m) \<longrightarrow> acceptable m) \<and> prefix (poll_events poll es mb) es
    \<and> (r = Pending \<longrightarrow> poll_events poll es mb = es)"
  using assms
proof (induction es arbitrary: mb)
  case Nil
  then show ?case using poll_op [of mb r mb'] poll_acceptable poll_ends
    by (intro exI [of _ "[op]"]) auto
next
  case (Cons e es)
  obtain r1 mb1 where p: "poll mb = (r1, mb1)" by fastforce
  note s1 = poll_op [OF p]
  show ?case
  proof (cases r1)
    case (Ready q)
    with Cons.prems p s1 poll_acceptable [OF Cons.prems(1)] poll_ends [OF Cons.prems(1) p] show ?thesis
      by (intro exI [of _ "[op]"]) auto
  next
    case Pending
    have wf1: "mail_wf mb1" "rx_alive (sys_ch mb1)"
      using mail_step_wf [OF Cons.prems(1) s1] poll_ends [OF Cons.prems(1) p] Cons.prems(2) by simp_all
    obtain mb2 where s2: "mail_step e mb1 = (sent_in [e], [], mb2)" "mail_wf mb2" "rx_alive (sys_ch mb2)"
      by (rule outside_step [OF _ wf1, of e]) (use Cons.prems(3) in simp_all)
    have "poll_until poll es mb2 = (r, mb')" using Cons.prems(4) p Pending s2 by simp
    from Cons.IH [OF s2(2,3) _ this] Cons.prems(3) obtain ops where
      ops: "mail_run ops mb2 = (sent_in (poll_events poll es mb2), delivered r, mb')" "rx_alive (sys_ch mb')"
      "\<forall>m. r = Ready (Some m) \<longrightarrow> acceptable m" "prefix (poll_events poll es mb2) es"
      "r = Pending \<longrightarrow> poll_events poll es mb2 = es" by auto
    have ev: "poll_events poll (e # es) mb = e # poll_events poll es mb2" using p Pending s2(1) by simp
    have "mail_run (op # e # ops) mb = (sent_in (poll_events poll (e # es) mb), delivered r, mb')"
      unfolding ev using s1 s2(1) ops(1) Pending by (simp add: delivered_def sent_in_def)
    with ops ev show ?thesis by (intro exI [of _ "op # e # ops"]) simp
  qed
qed

lemma mail_run_append:
  "mail_run xs mb = (a, d, mb1) \<Longrightarrow> mail_run ys mb1 = (a', d', mb2) \<Longrightarrow>
     mail_run (xs @ ys) mb = (a @ a', d @ d', mb2)"
  by (induction xs arbitrary: mb a d) (auto split: prod.splits)

lemma recv_rounds_run:
  assumes "mail_wf mb" and "rx_alive (sys_ch mb)" and "\<forall>r\<in>set rs. \<forall>x\<in>set (arrivals r). from_outside x"
    and "recv_rounds poll t rs mb = (out, mb')"
  shows "\<exists>ops del. mail_run ops mb = (sent_in (call_events poll t rs mb), del, mb') \<and> call_result acceptable del out
    \<and> prefix (call_events poll t rs mb) (concat (map arrivals rs))
    \<and> (out = None \<longrightarrow> call_events poll t rs mb = concat (map arrivals rs))"
  using assms
proof (induction rs arbitrary: mb)
  case Nil
  then show ?case by (intro exI [of _ "[]"]) (auto simp: call_result_def sent_in_def)
next
  case (Cons r rs)
  obtain q mb1 where q: "poll_until poll (arrivals r) mb = (q, mb1)" by fastforce
  let ?ev = "poll_events poll (arrivals r) mb"
  from poll_until_run [OF Cons.prems(1,2) _ q] Cons.prems(3) obtain ops where
    run: "mail_run ops mb = (sent_in ?ev, delivered q, mb1)" and alive: "rx_alive (sys_ch mb1)"
    and good: "\<forall>m. q = Ready (Some m) \<longrightarrow> acceptable m" and pre: "prefix ?ev (arrivals r)" "q = Pending \<longrightarrow> ?ev = arrivals r"
    by auto
  consider (unseen) "mb' = mb" "out \<in> {Some (Inl ''KeyboardInterrupt''), Some (Inr PyNone)}"
      "call_events poll t (r # rs) mb = []"
    | (over) "mb' = mb1" "call_result acceptable (delivered q) out" "call_events poll t (r # rs) mb = ?ev" "out \<noteq> None"
    | (again) "q = Pending" "recv_rounds poll t rs mb1 = (out, mb')"
        "call_events poll t (r # rs) mb = ?ev @ call_events poll t rs mb1"
  proof (cases "interrupted r \<or> expired t (elapsed r)")
    case True
    with Cons.prems(4) have "mb' = mb" "out \<in> {Some (Inl ''KeyboardInterrupt''), Some (Inr PyNone)}"
      "call_events poll t (r # rs) mb = []" by (auto split: if_splits)
    then show thesis by (rule unseen)
  next
    case False
    with Cons.prems(4) good
    have "mb' = mb1 \<and> call_result acceptable (delivered q) out \<and> call_events poll t (r # rs) mb = ?ev \<and> out \<noteq> None
      \<or> q = Pending \<and> recv_rounds poll t rs mb1 = (out, mb') \<and> call_events poll t (r # rs) mb = ?ev @ call_events poll t rs mb1"
      by (cases q rule: poll_option_cases) (auto simp: q delivered_def call_result_simps split: if_splits)
    with over again show thesis by blast
  qed
  then show ?case
  proof cases
    case unseen
    then show ?thesis by (intro exI [of _ "[]"]) (auto simp: call_result_def sent_in_def)
  next
    case over
    with run pre(1) show ?thesis by (intro exI [of _ ops] exI [of _ "delivered q"]) (auto intro: prefix_order.trans)
  next
    case again
    from Cons.IH [OF mail_run_wf [OF Cons.prems(1) run] alive _ again(2)] Cons.prems(3) obtain ops' del' where
      *: "mail_run ops' mb1 = (sent_in (call_events poll t rs mb1), del', mb')" "call_result acceptable del' out"
      "prefix (call_events poll t rs mb1) (concat (map arrivals rs))"
      "out = None \<longrightarrow> call_events poll t rs mb1 = concat (map arrivals rs)" by auto
    from mail_run_append [OF run *(1)] again(1)
    have "mail_run (ops @ ops') mb = (sent_in (call_events poll t (r # rs) mb), del', mb')"
      unfolding again(3) by (simp add: delivered_def sent_in_def)
    with * again(1,3) pre(2) show ?thesis by (intro exI [of _ "ops @ ops'"] exI [of _ del']) simp
  qed
qed

text \<open>Hence the call loses no message, whether it returns one, times out or is interrupted.\<close>

lemma receive_conserves:
  assumes "mail_wf mb" and "rx_alive (sys_ch mb)" and "\<forall>r\<in>set rs. \<forall>x\<in>set (arrivals r). from_outside x"
    and "recv_rounds poll t rs mb = (out, mb')"
  shows "\<exists>del. mset (search_order mb) + mset (sent_in (call_events poll t rs mb)) = mset del + mset (search_order mb')
    \<and> call_result acceptable del out \<and> prefix (call_events poll t rs mb) (concat (map arrivals rs))
    \<and> (out = None \<longrightarrow> call_events poll t rs mb = concat (map arrivals rs))"
  using recv_rounds_run [OF assms] mail_run_conserves [OF assms(1)] by metis

end

interpretation py_recv: receive_loop MailboxReceiver_recv Recv "\<lambda>_. True"
  by unfold_locales (use recv_ends in \<open>fastforce simp: same_ends_def\<close>)+

lemma selective_recv_accepted:
  assumes "mail_wf mb" and "MailboxReceiver_selective_recv p mb = (r, mb')"
  shows "(\<forall>m. r = Ready (Some m) \<longrightarrow> p m) \<and> rx_alive (sys_ch mb') = rx_alive (sys_ch mb)"
proof (cases "\<exists>x\<in>set (reachable_order mb). p x")
  case True
  from selective_hit_reachable [OF this] assms(2) show ?thesis by (auto simp: selective_hit_def same_ends_def)
next
  case False
  with selective_miss [OF _ mail_wf_ends(1) [OF assms(1)], of p] assms(2) show ?thesis
    by (auto simp: same_ends_def split: if_splits)
qed

interpretation py_selective: receive_loop "MailboxReceiver_selective_recv (run_python_matcher f)"
    "SelectiveRecv (run_python_matcher f)" "run_python_matcher f" for f
  by unfold_locales (auto dest: selective_recv_accepted)

text \<open>A receive that raises, which it does when a signal is pending, has taken no message.\<close>

lemma interrupted_receive_takes_nothing:
  assumes "mail_wf mb" and "rx_alive (sys_ch mb)" and "\<forall>r\<in>set rs. \<forall>x\<in>set (arrivals r). from_outside x"
  shows "PyMailbox_recv t rs mb = (Some (Inl e), mb') \<Longrightarrow>
      mset (search_order mb') = mset (search_order mb) + mset (sent_in (call_events MailboxReceiver_recv t rs mb))"
    and "PyMailbox_selective_recv f t rs mb = (Some (Inl e), mb') \<Longrightarrow>
      mset (search_order mb') = mset (search_order mb)
        + mset (sent_in (call_events (MailboxReceiver_selective_recv (run_python_matcher f)) t rs mb))"
  using py_recv.receive_conserves [OF assms, of t "Some (Inl e)" mb'] py_selective.receive_conserves [OF assms, of f t "Some (Inl e)" mb']
  by (auto simp: call_result_def PyMailbox_recv_def PyMailbox_selective_recv_def)

section \<open>Properties\<close>

text \<open>
  A matcher judges a message by exactly the object that a receive would hand out for it: the
  bytes of a user message, or the system message with its type, sender, reason and metadata. A
  matcher that raises or returns something that is not a bool rejects the message.
\<close>

theorem matcher_sees_delivered_object:
  "run_python_matcher f m \<longleftrightarrow> f (message_to_py m) = PyBool True"
  by (simp add: run_python_matcher_converts accepts_def split: py_result.split)

text \<open>
  C35: a blocking \<^verbatim>\<open>selective_recv\<close> loses no message and makes up none. However many rounds of 100 ms it
  waits and whatever is sent meanwhile: the messages that waited at the start together with all those
  sent until the call returns are exactly the ones that wait afterwards together with the one it
  returns, which satisfies the matcher; a call that times out or is interrupted returns none of them. The
  sends until the return are the first ones of those that happen, all of them while the call still waits.
\<close>

theorem py_selective_recv_conserves:
  assumes "mail_wf mb" and "rx_alive (sys_ch mb)" and "\<forall>r\<in>set rs. \<forall>x\<in>set (arrivals r). from_outside x"
    and "PyMailbox_selective_recv f t rs mb = (out, mb')"
  shows "let happened = call_events (MailboxReceiver_selective_recv (run_python_matcher f)) t rs mb in
    (\<exists>del. mset (search_order mb) + mset (sent_in happened) = mset del + mset (search_order mb')
      \<and> call_result (run_python_matcher f) del out)
    \<and> prefix happened (concat (map arrivals rs)) \<and> (out = None \<longrightarrow> happened = concat (map arrivals rs))"
  using py_selective.receive_conserves [OF assms(1-3)] assms(4) unfolding Let_def PyMailbox_selective_recv_def by blast

text \<open>The matcher of the example wants the user message \<open>[2]\<close>, which arrives in the second round.\<close>

definition ex_matcher :: "PyObj \<Rightarrow> py_result" where
  "ex_matcher ob = PyBool (ob = PyBytes [2])"

definition ex_rounds :: "recv_round list" where
  "ex_rounds = [\<lparr>interrupted = False, elapsed = 0, arrivals = [Send (User [1])], elapsed_after = 5\<rparr>,
     \<lparr>interrupted = False, elapsed = 6, arrivals = [Send (System Ping), Send (User [2])], elapsed_after = 8\<rparr>]"

theorem py_selective_recv_conserves_witness:
  "\<exists>mb' del. PyMailbox_selective_recv ex_matcher (Some 9) ex_rounds channel = (Some (Inr (PyBytes [2])), mb')
    \<and> {#User [1], System Ping, User [2]#} = mset del + mset (search_order mb')
    \<and> call_result (run_python_matcher ex_matcher) del (Some (Inr (PyBytes [2])))"
proof -
  let ?c = "\<lparr>queue = [], tx_alive = True, rx_alive = True\<rparr>"
  note sim = expired_def MailboxReceiver_selective_recv_def MailboxSender_send_def selective_loop.simps channel_def
    chan_defs ex_matcher_def accepts_def ex_rounds_def
  have run: "PyMailbox_selective_recv ex_matcher (Some 9) ex_rounds channel = (Some (Inr (PyBytes [2])),
      \<lparr>user_ch = ?c, sys_ch = ?c, stash = [User [1], System Ping], counter = 1\<rparr>)"
    by (simp add: PyMailbox_selective_recv_def sim)
  have ev: "call_events (MailboxReceiver_selective_recv (run_python_matcher ex_matcher)) (Some 9) ex_rounds channel
      = [Send (User [1]), Send (System Ping), Send (User [2])]"
    by (simp add: sim)
  have "\<forall>r\<in>set ex_rounds. \<forall>x\<in>set (arrivals r). from_outside x" "rx_alive (sys_ch channel)" "search_order channel = []"
    by (simp_all add: ex_rounds_def from_outside_def channel_def chan_new_def search_order_def)
  with py_selective_recv_conserves [OF channel_wf this(2,1) run, unfolded ev Let_def] run show ?thesis
    by (auto simp: sent_in_def)
qed

text \<open>
  \<^verbatim>\<open>recv\<close> of the Python mailbox loses nothing either, and it is as quick as the mailbox: unless it is
  interrupted or its timeout is zero, a message that waits at the start is returned in the first
  round, the one the runtime's \<^verbatim>\<open>recv\<close> would deliver; and with a timeout of zero it returns \<^verbatim>\<open>None\<close> without
  looking at the mailbox.
\<close>

theorem py_recv_prompt:
  assumes "mail_wf mb" and "tx_alive (sys_ch mb)" and "\<not> interrupted r"
    and "spec_recv (mail_abs mb) = (Some m, left)"
  shows "(\<not> expired t (elapsed r) \<longrightarrow>
      (\<exists>mb'. PyMailbox_recv t (r # rs) mb = (Some (Inr (message_to_py m)), mb') \<and> mail_abs mb' = left))
    \<and> PyMailbox_recv (Some 0) (r # rs) mb = (Some (Inr PyNone), mb)"
proof (intro conjI impI)
  assume early: "\<not> expired t (elapsed r)"
  obtain mb' where "MailboxReceiver_recv mb = (Ready (Some m), mb')" "mail_abs mb' = left"
    using try_recv_spec [of mb] assms mail_wf_ends(1) [OF assms(1)]
    by (cases "MailboxReceiver_try_recv mb") (simp add: recv_try_recv)
  with early assms(3) show "\<exists>mb'. PyMailbox_recv t (r # rs) mb = (Some (Inr (message_to_py m)), mb') \<and> mail_abs mb' = left"
    by (cases "arrivals r") (auto simp: PyMailbox_recv_def)
qed (use assms(3) in \<open>simp add: PyMailbox_recv_def expired_def\<close>)

theorem py_recv_prompt_witness:
  "\<exists>mb'. PyMailbox_recv (Some 9) ex_rounds (snd (MailboxSender_send (User [7]) channel)) = (Some (Inr (PyBytes [7])), mb')
     \<and> mail_abs mb' = ([], [])"
proof -
  let ?mb = "snd (MailboxSender_send (User [7]) channel)"
  have "mail_wf ?mb" by (intro send_wf channel_wf)
  moreover have "tx_alive (sys_ch ?mb)" "mail_abs ?mb = ([], [[7]])"
    by (simp_all add: MailboxSender_send_def channel_def chan_defs mail_abs_def)
  ultimately show ?thesis
    using py_recv_prompt [of ?mb "hd ex_rounds" "User [7]" "([], [])" "Some 9" "tl ex_rounds"]
    by (simp add: ex_rounds_def expired_def)
qed

end
