(* ===== verification/PyMembrane.thy ===== *)
theory PyMembrane
  imports Lifecycle Buffer PyMailbox
begin

text \<open>
  The rest of \<^verbatim>\<open>src/py.rs\<close>: the shared buffers, the parsing of restart strategies and the factories,
  the limit on dedicated threads, and the handler of a push actor with its three ways to reach the
  interpreter: inline, a dedicated thread, or the shared pool. \<open>GilThreads\<close> has the loops of these
  threads step by step.
\<close>

section \<open>Shared buffers\<close>

record py_state =
  prt :: Runtime
  buffers :: BufferRegistry
  bheap :: heap

text \<open>\<open>mv_ok\<close> and \<open>capsule_ok\<close> say whether the interpreter could create the two objects.\<close>

definition allocate_buffer ::
    "addr \<Rightarrow> bool \<Rightarrow> bool \<Rightarrow> usize \<Rightarrow> py_state \<Rightarrow> (string + BufferId \<times> addr \<times> nat) \<times> py_state" where
  "allocate_buffer a mv_ok capsule_ok sz s =
     (let (bid, reg, h) = BufferRegistry_allocate a sz (buffers s) (bheap s) in
      case BufferRegistry_ptr_len bid reg h of
        None \<Rightarrow> (Inl ''failed to allocate'', s\<lparr>buffers := reg, bheap := h\<rparr>)
      | Some (ptr, len) \<Rightarrow>
          if \<not> mv_ok then
            let (reg, h) = BufferRegistry_free bid reg h
            in (Inl ''failed to create memoryview'', s\<lparr>buffers := reg, bheap := h\<rparr>)
          else if \<not> capsule_ok then
            let (reg, h) = BufferRegistry_free bid reg h
            in (Inl ''failed to create capsule'', s\<lparr>buffers := reg, bheap := h\<rparr>)
          else (Inr (bid, ptr, len), s\<lparr>buffers := reg, bheap := h\<rparr>))"

definition capsule_destructor :: "BufferId \<Rightarrow> py_state \<Rightarrow> py_state" where
  "capsule_destructor bid s =
     (let (reg, h) = BufferRegistry_free bid (buffers s) (bheap s) in s\<lparr>buffers := reg, bheap := h\<rparr>)"

definition PyRuntime_send_buffer :: "pid \<Rightarrow> BufferId \<Rightarrow> py_state \<Rightarrow> (string + bool) \<times> py_state" where
  "PyRuntime_send_buffer p buffer_id s =
     (case BufferRegistry_take buffer_id (buffers s) of
        (Some v, reg) \<Rightarrow>
          let b = (case bheap s v of Some b \<Rightarrow> b | None \<Rightarrow> []);
              (res, R) = Runtime_send p (User b) (prt s)
          in (Inr (res = Inr ()), s\<lparr>prt := R, buffers := reg\<rparr>)
      | (None, reg) \<Rightarrow> (Inl ''invalid buffer id or already taken'', s\<lparr>buffers := reg\<rparr>))"

definition PyRuntime_send :: "pid \<Rightarrow> bytes \<Rightarrow> Runtime \<Rightarrow> bool \<times> Runtime" where
  "PyRuntime_send p data R = (case Runtime_send p (User data) R of (res, R) \<Rightarrow> (res = Inr (), R))"

text \<open>
  \<^verbatim>\<open>spawn_with_mailbox\<close>: the body hands the receiver to a Python function on a blocking thread and
  waits for it, so what the function does with the mailbox is the free body of the actor.
\<close>

definition PyRuntime_spawn_with_mailbox :: "usize \<Rightarrow> Runtime \<Rightarrow> (pid \<times> Runtime) option" where
  "PyRuntime_spawn_with_mailbox budget R = Runtime_spawn_actor_with_budget budget R"

definition PyRuntime_hot_swap :: "pid \<Rightarrow> usize \<Rightarrow> Runtime \<Rightarrow> Runtime" where
  "PyRuntime_hot_swap p new_handler R = Runtime_hot_swap p new_handler R"

definition PyRuntime_get_messages :: "pid \<Rightarrow> Runtime \<Rightarrow> PyObj list" where
  "PyRuntime_get_messages p R =
     (case Runtime_get_observed_messages R p of Some v \<Rightarrow> map message_to_py v | None \<Rightarrow> [])"

text \<open>
  \<^verbatim>\<open>selective_recv_observed_py\<close>: an attempt, and then one after each sleep of 10 ms, during which the
  runtime does what \<open>es\<close> says. \<open>None\<close> says that the call still waits.
\<close>

fun observed_rounds ::
    "(PyObj \<Rightarrow> py_result) \<Rightarrow> pid \<Rightarrow> (Runtime \<Rightarrow> Runtime) list \<Rightarrow> Runtime \<Rightarrow> PyObj option \<times> Runtime" where
  "observed_rounds matcher p es R =
     (case Runtime_take_observed_message_matching p (run_python_matcher matcher) R of
        (Some m, R) \<Rightarrow> (Some (message_to_py m), R)
      | (None, R) \<Rightarrow> (case es of [] \<Rightarrow> (None, R) | e # es \<Rightarrow> observed_rounds matcher p es (e R)))"

definition PyRuntime_selective_recv_observed_py ::
    "(PyObj \<Rightarrow> py_result) \<Rightarrow> pid \<Rightarrow> bool \<Rightarrow> (Runtime \<Rightarrow> Runtime) list \<Rightarrow> Runtime \<Rightarrow> PyObj option \<times> Runtime" where
  "PyRuntime_selective_recv_observed_py matcher p timed es R =
     (case observed_rounds matcher p es R of
        (Some v, R) \<Rightarrow> (Some v, R)
      | (None, R) \<Rightarrow> (if timed then Some PyNone else None, R))"

text \<open>\<^verbatim>\<open>join\<close>: whether a signal is pending and the state of the runtime at each round of 100 ms.\<close>

fun PyRuntime_join :: "pid \<Rightarrow> (bool \<times> Runtime) list \<Rightarrow> (string + unit) option" where
  "PyRuntime_join p [] = None"
| "PyRuntime_join p ((sig, R) # rs) =
     (if sig then Some (Inl ''KeyboardInterrupt'')
      else if \<not> Runtime_is_alive R p then Some (Inr ())
      else PyRuntime_join p rs)"

section \<open>Supervision\<close>

text \<open>
  \<^verbatim>\<open>to_lowercase\<close> on ASCII; no other character has a lower case among the letters of the accepted
  names.
\<close>

definition ascii_lower :: "char \<Rightarrow> char" where
  "ascii_lower c = (let n = of_char c :: nat in if 65 \<le> n \<and> n \<le> 90 then char_of (n + 32) else c)"

definition parse_strategy :: "string \<Rightarrow> RestartStrategy option" where
  "parse_strategy s =
     (let l = map ascii_lower s in
      if l = ''restartone'' \<or> l = ''restart_one'' \<or> l = ''one'' then Some RestartOne
      else if l = ''restartall'' \<or> l = ''restart_all'' \<or> l = ''all'' then Some RestartAll
      else None)"

definition PyRuntime_watch :: "pid \<Rightarrow> string \<Rightarrow> Runtime \<Rightarrow> (string + unit) \<times> Runtime" where
  "PyRuntime_watch p strat R =
     (case parse_strategy strat of
        None \<Rightarrow> (Inl ''invalid strategy'', R)
      | Some st \<Rightarrow> (Inr (), sup_call 0 (AddChild p \<lparr>factory = ReturnPid p, strategy = st\<rparr>) R))"

text \<open>
  The factory is called once to see that it works (it acts on the runtime like any user code), and
  again at every restart; the identifier of the first call is dropped.
\<close>

definition PyRuntime_supervise_with_factory ::
    "(nat \<Rightarrow> Runtime \<Rightarrow> (string + pid) \<times> Runtime) \<Rightarrow> pid \<Rightarrow> nat \<Rightarrow> string \<Rightarrow> Runtime \<Rightarrow> (string + unit) \<times> Runtime" where
  "PyRuntime_supervise_with_factory env p py_factory strat R =
     (case parse_strategy strat of
        None \<Rightarrow> (Inl ''invalid strategy'', R)
      | Some st \<Rightarrow>
          (case call_factory env (UserFactory py_factory) R of
             (Inl e, R) \<Rightarrow> (Inl e, R)
           | (Inr _, R) \<Rightarrow> (Inr (), Runtime_supervise p (UserFactory py_factory) st R)))"

definition PyRuntime_path_supervise_with_factory ::
    "(nat \<Rightarrow> Runtime \<Rightarrow> (string + pid) \<times> Runtime) \<Rightarrow> string \<Rightarrow> pid \<Rightarrow> nat \<Rightarrow> string \<Rightarrow> Runtime \<Rightarrow> (string + unit) \<times> Runtime" where
  "PyRuntime_path_supervise_with_factory env path p py_factory strat R =
     (case parse_strategy strat of
        None \<Rightarrow> (Inl ''invalid strategy'', R)
      | Some st \<Rightarrow>
          (case call_factory env (UserFactory py_factory) R of
             (Inl e, R) \<Rightarrow> (Inl e, R)
           | (Inr _, R) \<Rightarrow> (Inr (), Runtime_path_supervise_with_factory path p (UserFactory py_factory) st R)))"

section \<open>Push actors\<close>

text \<open>
  Callbacks are named by numbers, a hot-swapped one by its pointer. What the interpreter sees of an
  actor is the list of calls (callback and argument) and the current callback.
\<close>

type_synonym callback = usize

record behavior =
  current :: callback
  calls :: "(callback \<times> bytes) list"

definition call_behavior :: "bytes \<Rightarrow> behavior \<Rightarrow> behavior" where
  "call_behavior b h = h\<lparr>calls := calls h @ [(current h, b)]\<rparr>"

definition swap_behavior :: "usize \<Rightarrow> behavior \<Rightarrow> behavior" where
  "swap_behavior ptr h = h\<lparr>current := ptr\<rparr>"

text \<open>A task of the shared pool names the actor whose behavior it uses (the \<^verbatim>\<open>Arc\<close> it holds).\<close>

datatype PoolTask = Execute nat bytes | PoolHotSwap nat usize

datatype action = Forward Message | ToPool PoolTask | CallInline bytes | SwapInline usize | Nothing

text \<open>
  The handler closure of actor \<open>k\<close>: \<open>has_tx\<close> says whether the actor has a dedicated thread, \<open>pool\<close>
  whether the shared pool exists.
\<close>

definition handle_message :: "nat \<Rightarrow> bool \<Rightarrow> bool \<Rightarrow> bool \<Rightarrow> bool \<Rightarrow> Message \<Rightarrow> action" where
  "handle_message k initialized has_tx release_gil pool msg =
     (if \<not> initialized then Nothing
      else case msg of
        System (HotSwap ptr) \<Rightarrow>
          if has_tx then Forward msg
          else if release_gil then (if pool then ToPool (PoolHotSwap k ptr) else SwapInline ptr)
          else SwapInline ptr
      | User b \<Rightarrow>
          if has_tx then Forward msg
          else if release_gil then (if pool then ToPool (Execute k b) else CallInline b)
          else CallInline b
      | System (Exit _) \<Rightarrow> Nothing
      | System Ping \<Rightarrow> Nothing
      | System Pong \<Rightarrow> Nothing)"

text \<open>One message in the loop of a dedicated thread: whether the loop goes on.\<close>

definition thread_message :: "Message \<Rightarrow> behavior \<Rightarrow> bool \<times> behavior" where
  "thread_message msg h =
     (case msg of
        System (HotSwap ptr) \<Rightarrow> (True, swap_behavior ptr h)
      | User b \<Rightarrow> (True, call_behavior b h)
      | System (Exit _) \<Rightarrow> (False, h)
      | System Ping \<Rightarrow> (True, h)
      | System Pong \<Rightarrow> (True, h))"

fun thread_loop :: "Message list \<Rightarrow> behavior \<Rightarrow> behavior" where
  "thread_loop [] h = h"
| "thread_loop (m # ms) h = (case thread_message m h of (True, h') \<Rightarrow> thread_loop ms h' | (False, h') \<Rightarrow> h')"

definition run_inline :: "Message \<Rightarrow> behavior \<Rightarrow> behavior" where
  "run_inline m h =
     (case handle_message 0 True False False False m of
        CallInline b \<Rightarrow> call_behavior b h
      | SwapInline ptr \<Rightarrow> swap_behavior ptr h
      | _ \<Rightarrow> h)"

text \<open>The messages an actor with a dedicated thread forwards to it, in order.\<close>

definition forwarded :: "Message list \<Rightarrow> Message list" where
  "forwarded ms = List.map_filter (\<lambda>m. case handle_message 0 True True True False m of Forward m' \<Rightarrow> Some m' | _ \<Rightarrow> None) ms"

text \<open>
  The shared pool: tasks wait in a queue, each of \<open>size\<close> workers takes the next one and executes it
  when it gets the interpreter lock.
\<close>

record gil_pool =
  pool_queue :: "PoolTask list"
  pool_held :: "PoolTask list"
  pool_behaviors :: "nat \<Rightarrow> behavior"

definition pool_execute :: "PoolTask \<Rightarrow> (nat \<Rightarrow> behavior) \<Rightarrow> nat \<Rightarrow> behavior" where
  "pool_execute t hs =
     (case t of
        Execute k b \<Rightarrow> hs(k := call_behavior b (hs k))
      | PoolHotSwap k ptr \<Rightarrow> hs(k := swap_behavior ptr (hs k)))"

inductive pool_step :: "nat \<Rightarrow> gil_pool \<Rightarrow> gil_pool \<Rightarrow> bool" for n where
  take_task: "pool_queue g = t # ts \<Longrightarrow> length (pool_held g) < n \<Longrightarrow>
     pool_step n g (g\<lparr>pool_queue := ts, pool_held := pool_held g @ [t]\<rparr>)"
| run_task: "pool_held g = us @ t # vs \<Longrightarrow>
     pool_step n g (g\<lparr>pool_held := us @ vs, pool_behaviors := pool_execute t (pool_behaviors g)\<rparr>)"

inductive_cases pool_stepE: "pool_step n g g'"

text \<open>Whether a pool of \<open>n\<close> workers always executes the tasks in the order they were sent.\<close>

definition pool_keeps_order :: "nat \<Rightarrow> bool" where
  "pool_keeps_order n \<longleftrightarrow> (\<forall>ts hs hs'.
     (pool_step n)\<^sup>*\<^sup>* \<lparr>pool_queue = ts, pool_held = [], pool_behaviors = hs\<rparr>
       \<lparr>pool_queue = [], pool_held = [], pool_behaviors = hs'\<rparr> \<longrightarrow> hs' = fold pool_execute ts hs)"

section \<open>The limit on dedicated threads\<close>

text \<open>
  The counter \<^verbatim>\<open>RELEASE_GIL_THREADS\<close>, the dedicated threads that run, the callers between the
  \<^verbatim>\<open>fetch_add\<close> that found the limit reached and the \<^verbatim>\<open>fetch_sub\<close> that takes it back, and whether the
  shared pool exists.
\<close>

record gil =
  threads :: nat
  dedicated :: nat
  backing_out :: nat
  has_pool :: bool

datatype gil_outcome = Dedicated | Refused | Pooled | Inline

text \<open>\<^verbatim>\<open>fetch_add\<close> and the comparison with the limit; \<^verbatim>\<open>true\<close> when a thread is started.\<close>

definition gil_reserve :: "nat \<Rightarrow> gil \<Rightarrow> bool \<times> gil" where
  "gil_reserve max_threads g =
     (let prev = threads g; g = g\<lparr>threads := threads g + 1\<rparr> in
      if prev \<ge> max_threads then (False, g\<lparr>backing_out := backing_out g + 1\<rparr>)
      else (True, g\<lparr>dedicated := dedicated g + 1\<rparr>))"

definition gil_back_out :: "bool \<Rightarrow> gil \<Rightarrow> gil_outcome \<times> gil" where
  "gil_back_out strict g =
     (let g = g\<lparr>threads := threads g - 1, backing_out := backing_out g - 1\<rparr> in
      if strict then (Refused, g) else (Pooled, g\<lparr>has_pool := True\<rparr>))"

definition gil_thread_end :: "gil \<Rightarrow> gil" where
  "gil_thread_end g = g\<lparr>threads := threads g - 1, dedicated := dedicated g - 1\<rparr>"

text \<open>
  \<^verbatim>\<open>spawn_py_handler\<close> with its steps one after the other; \<open>None\<close> if the slab panics. The actor runs
  the handler loop of the runtime.
\<close>

definition PyRuntime_spawn_py_handler ::
    "usize \<Rightarrow> bool option \<Rightarrow> gil \<times> Runtime \<Rightarrow> ((string + gil_outcome \<times> pid) \<times> gil \<times> Runtime) option" where
  "PyRuntime_spawn_py_handler budget release_gil s =
     (case s of (g, R) \<Rightarrow>
      let release = (case release_gil of Some b \<Rightarrow> b | None \<Rightarrow> False);
          (max_threads, pool_size) = Runtime_get_release_gil_limits R;
          (out, g) =
            (if \<not> release then (Inline, g)
             else case gil_reserve (unat max_threads) g of
                (True, g) \<Rightarrow> (Dedicated, g)
              | (False, g) \<Rightarrow> gil_back_out (Runtime_is_release_gil_strict R) g)
      in if out = Refused then Some (Inl ''release_gil thread limit exceeded'', g, R)
         else map_option (\<lambda>(p, R). (Inr (out, p), g, R)) (Runtime_spawn_handler_with_budget budget R))"

text \<open>
  The steps of all the callers and threads interleaved; \<open>n\<close> bounds every limit that
  \<^verbatim>\<open>set_release_gil_limits\<close> puts in force.
\<close>

inductive gil_step :: "nat \<Rightarrow> gil \<Rightarrow> gil \<Rightarrow> bool" for n where
  reserve: "m \<le> n \<Longrightarrow> gil_step n g (snd (gil_reserve m g))"
| back_out: "0 < backing_out g \<Longrightarrow> gil_step n g (snd (gil_back_out strict g))"
| thread_end: "0 < dedicated g \<Longrightarrow> gil_step n g (gil_thread_end g)"

inductive gil_reachable :: "nat \<Rightarrow> gil \<Rightarrow> bool" for n where
  start: "gil_reachable n \<lparr>threads = 0, dedicated = 0, backing_out = 0, has_pool = False\<rparr>"
| step: "gil_reachable n g \<Longrightarrow> gil_step n g g' \<Longrightarrow> gil_reachable n g'"

section \<open>Lemmas\<close>

lemma gil_invariant: "gil_reachable n g \<Longrightarrow> threads g = dedicated g + backing_out g \<and> dedicated g \<le> n"
proof (induction rule: gil_reachable.induct)
  case (step g g')
  from step(2) show ?case
    by cases (use step(3) in \<open>auto simp: gil_reserve_def gil_back_out_def gil_thread_end_def Let_def\<close>)
qed simp

lemma forwarded_Cons:
  "forwarded (m # ms) = (case m of User _ \<Rightarrow> [m] | System (HotSwap _) \<Rightarrow> [m] | _ \<Rightarrow> []) @ forwarded ms"
  by (cases m) (auto simp: forwarded_def handle_message_def List.map_filter_simps split: SystemMessage.split)

lemma run_inline_simps [simp]:
  "run_inline (User b) h = call_behavior b h"
  "run_inline (System (HotSwap p)) h = swap_behavior p h"
  "run_inline (System (Exit i)) h = h"
  "run_inline (System Ping) h = h"
  "run_inline (System Pong) h = h"
  by (simp_all add: run_inline_def handle_message_def)

lemma thread_loop_inline: "thread_loop (forwarded ms) h = fold run_inline ms h"
proof (induction ms arbitrary: h)
  case Nil
  then show ?case by (simp add: forwarded_def List.map_filter_simps)
next
  case (Cons m ms)
  then show ?case
    by (cases m rule: message_to_py.cases) (simp_all add: forwarded_Cons thread_message_def)
qed

lemma pool_one_step:
  assumes "pool_step n g g'" and "n \<le> 1" and "length (pool_held g) \<le> n"
  shows "length (pool_held g') \<le> n
    \<and> fold pool_execute (pool_held g' @ pool_queue g') (pool_behaviors g')
      = fold pool_execute (pool_held g @ pool_queue g) (pool_behaviors g)"
  using assms by (elim pool_stepE) (auto simp: Cons_eq_append_conv length_Suc_conv le_Suc_eq)

lemma pool_one_run:
  assumes "(pool_step n)\<^sup>*\<^sup>* g g'" and "n \<le> 1" and "length (pool_held g) \<le> n"
  shows "length (pool_held g') \<le> n
    \<and> fold pool_execute (pool_held g' @ pool_queue g') (pool_behaviors g')
      = fold pool_execute (pool_held g @ pool_queue g) (pool_behaviors g)"
  using assms by (induction rule: rtranclp_induct) (simp, metis pool_one_step)

lemma pool_overtakes:
  assumes "2 \<le> n"
  shows "(pool_step n)\<^sup>*\<^sup>* \<lparr>pool_queue = [t, u], pool_held = [], pool_behaviors = hs\<rparr>
    \<lparr>pool_queue = [], pool_held = [], pool_behaviors = pool_execute t (pool_execute u hs)\<rparr>"
proof -
  have "pool_step n \<lparr>pool_queue = [t, u], pool_held = [], pool_behaviors = hs\<rparr>
      \<lparr>pool_queue = [u], pool_held = [t], pool_behaviors = hs\<rparr>"
    using pool_step.take_task [of "\<lparr>pool_queue = [t, u], pool_held = [], pool_behaviors = hs\<rparr>" t "[u]" n]
      assms by simp
  also have "(pool_step n)\<^sup>*\<^sup>* \<dots> \<lparr>pool_queue = [], pool_held = [t, u], pool_behaviors = hs\<rparr>"
    using pool_step.take_task [of "\<lparr>pool_queue = [u], pool_held = [t], pool_behaviors = hs\<rparr>" u "[]" n]
      assms by (intro r_into_rtranclp) simp
  also have "(pool_step n)\<^sup>*\<^sup>* \<dots> \<lparr>pool_queue = [], pool_held = [t], pool_behaviors = pool_execute u hs\<rparr>"
    using pool_step.run_task [of "\<lparr>pool_queue = [], pool_held = [t, u], pool_behaviors = hs\<rparr>" "[t]" u "[]" n]
    by (intro r_into_rtranclp) simp
  also have "(pool_step n)\<^sup>*\<^sup>* \<dots>
      \<lparr>pool_queue = [], pool_held = [], pool_behaviors = pool_execute t (pool_execute u hs)\<rparr>"
    using pool_step.run_task [of "\<lparr>pool_queue = [], pool_held = [t], pool_behaviors = pool_execute u hs\<rparr>" "[]" t "[]" n]
    by (intro r_into_rtranclp) simp
  finally show ?thesis .
qed

lemma gil_spawn_cases:
  "PyRuntime_spawn_py_handler budget (Some True) (g, R) =
     (if unat (release_gil_max_threads R) \<le> threads g then
        if release_gil_strict R then Some (Inl ''release_gil thread limit exceeded'', g, R)
        else map_option (\<lambda>(p, R). (Inr (Pooled, p), g\<lparr>has_pool := True\<rparr>, R)) (Runtime_spawn_handler_with_budget budget R)
      else map_option (\<lambda>(p, R). (Inr (Dedicated, p), g\<lparr>threads := threads g + 1, dedicated := dedicated g + 1\<rparr>, R))
        (Runtime_spawn_handler_with_budget budget R))"
  by (cases g) (simp add: PyRuntime_spawn_py_handler_def gil_reserve_def gil_back_out_def Let_def
      Runtime_get_release_gil_limits_def Runtime_is_release_gil_strict_def)

section \<open>Properties\<close>

text \<open>
  A dedicated thread changes nothing but where the callbacks run. For every sequence of messages
  of the actor, the calls the thread makes (which callback, on which bytes, in which order) and the
  behavior it ends with are those of running every message inline.
\<close>

theorem dedicated_thread_matches_inline:
  "thread_loop (forwarded ms) h = fold run_inline ms h"
  by (rule thread_loop_inline)

text \<open>
  The shared pool keeps the order of the tasks only if it has at most one worker. With two or more
  a later task can overtake an earlier one of the same actor, so two messages, or a message and a
  hot swap, can change places.
\<close>

theorem pool_keeps_order_iff: "pool_keeps_order n \<longleftrightarrow> n \<le> 1"
proof
  assume keeps: "pool_keeps_order n"
  show "n \<le> 1"
  proof (rule ccontr)
    let ?hs = "\<lambda>_. \<lparr>current = 0, calls = []\<rparr> :: behavior"
    assume "\<not> n \<le> 1"
    then have "2 \<le> n" by simp
    from pool_overtakes [OF this, of "Execute 0 [1]" "Execute 0 [2]" ?hs] keeps
    have "pool_execute (Execute 0 [1]) (pool_execute (Execute 0 [2]) ?hs)
        = fold pool_execute [Execute 0 [1], Execute 0 [2]] ?hs" unfolding pool_keeps_order_def by blast
    from fun_cong [OF this, of 0] show False by (simp add: pool_execute_def call_behavior_def)
  qed
next
  assume "n \<le> 1"
  then show "pool_keeps_order n" using pool_one_run unfolding pool_keeps_order_def by fastforce
qed

text \<open>
  The number of dedicated threads never exceeds the limit, however the calls of
  \<^verbatim>\<open>spawn_py_handler\<close> and the ends of threads interleave, and the atomic counter is exactly the
  threads that run plus the callers that are about to take their increment back.
\<close>

theorem gil_threads_limited:
  assumes "gil_reachable n g"
  shows "dedicated g \<le> n \<and> threads g = dedicated g + backing_out g"
  using gil_invariant [OF assms] by simp

theorem gil_threads_limited_witness:
  "dedicated \<lparr>threads = 2, dedicated = 1, backing_out = 1, has_pool = False\<rparr> \<le> 1
    \<and> threads \<lparr>threads = 2, dedicated = 1, backing_out = 1, has_pool = False\<rparr> = 1 + 1"
proof -
  have "gil_reachable 1 \<lparr>threads = 1, dedicated = 1, backing_out = 0, has_pool = False\<rparr>"
    using gil_reachable.step [OF gil_reachable.start gil_step.reserve [of 1 1]] by (simp add: gil_reserve_def)
  from gil_reachable.step [OF this gil_step.reserve [of 1 1]]
  have "gil_reachable 1 \<lparr>threads = 2, dedicated = 1, backing_out = 1, has_pool = False\<rparr>"
    by (simp add: gil_reserve_def numeral_2_eq_2)
  from gil_threads_limited [OF this] show ?thesis by simp
qed

text \<open>
  \<^verbatim>\<open>spawn_py_handler\<close> with \<^verbatim>\<open>release_gil\<close> at the thread limit: in strict mode it fails and leaves the
  runtime and the counter as they were; otherwise it falls back to the shared pool, which exists from
  then on, and the actor is spawned and alive. Below the limit the actor gets a thread of its own.
\<close>

theorem spawn_py_handler_at_limit:
  assumes "rt_reachable R" and "slab_room (slab R)"
  shows "if unat (release_gil_max_threads R) \<le> threads g \<and> release_gil_strict R
    then PyRuntime_spawn_py_handler budget (Some True) (g, R) = Some (Inl ''release_gil thread limit exceeded'', g, R)
    else \<exists>out p g' R'. PyRuntime_spawn_py_handler budget (Some True) (g, R) = Some (Inr (out, p), g', R')
      \<and> Runtime_is_alive R' p
      \<and> (if unat (release_gil_max_threads R) \<le> threads g
         then out = Pooled \<and> has_pool g' \<and> threads g' = threads g
         else out = Dedicated \<and> threads g' = threads g + 1)"
proof -
  have si: "slab_inv (slab R)" using rt_reachable_inv [OF assms(1)] by (simp add: rt_inv_def pids_ok_def)
  obtain p R' where s: "Runtime_spawn_handler_with_budget budget R = Some (p, R')"
    using slab.alloc_total [OF si] by (auto simp: Runtime_spawn_handler_with_budget_def spawn_task_def Let_def)
  with spawned_alive(1) [OF rt_reachable_inv [OF assms(1)] assms(2)] have "Runtime_is_alive R' p"
    by (simp add: Runtime_spawn_handler_with_budget_def)
  with s show ?thesis by (simp add: gil_spawn_cases)
qed

theorem spawn_py_handler_at_limit_witness:
  "\<exists>p g' R'. PyRuntime_spawn_py_handler 8 (Some True) (\<lparr>threads = 0, dedicated = 0, backing_out = 0, has_pool = False\<rparr>, Runtime_new)
     = Some (Inr (Dedicated, p), g', R') \<and> Runtime_is_alive R' p \<and> threads g' = 1"
  using spawn_py_handler_at_limit [OF rt_reachable.start new_room(2),
      of "\<lparr>threads = 0, dedicated = 0, backing_out = 0, has_pool = False\<rparr>" 8]
  by (auto simp: Runtime_new_def)

text \<open>
  \<^verbatim>\<open>allocate_buffer\<close> leaks nothing when the interpreter cannot build the objects: the call raises and
  the registry has the same entries and the heap the same vectors as before. When it succeeds, the
  identifier is new and the memory view covers as many zero bytes as were asked for.
\<close>

theorem allocate_buffer_all_or_nothing:
  assumes "buffers_wf n (buffers s) (bheap s)" and "Suc n < 2 ^ 64" and "bheap s a = None"
    and "allocate_buffer a mv_ok capsule_ok sz s = (res, s')"
  shows "prt s' = prt s
    \<and> (if mv_ok \<and> capsule_ok
       then res = Inr (next_id (buffers s), a, unat sz) \<and> inner (buffers s) (next_id (buffers s)) = None
         \<and> bheap s' = (bheap s)(a \<mapsto> replicate (unat sz) 0)
       else (\<exists>e. res = Inl e) \<and> inner (buffers s') = inner (buffers s) \<and> bheap s' = bheap s)"
proof -
  note free = fresh_id [OF assms(1,2)]
  then have same: "(inner (buffers s))(next_id (buffers s) := None) = inner (buffers s)"
    "(bheap s)(a := None) = bheap s" using assms(3) by auto
  from assms(4) free show ?thesis
    by (cases mv_ok; cases capsule_ok)
      (auto simp: allocate_buffer_def allocate_spec [OF assms(1,2)] BufferRegistry_ptr_len_def
        BufferRegistry_free_def drop_vec_def same)
qed

definition ex_py :: py_state where
  "ex_py = \<lparr>prt = Runtime_new, buffers = BufferRegistry_new, bheap = Map.empty\<rparr>"

theorem allocate_buffer_all_or_nothing_witness:
  "\<exists>e s'. allocate_buffer 4 True False 2 ex_py = (Inl e, s') \<and> inner (buffers s') = Map.empty \<and> bheap s' = Map.empty"
proof -
  obtain res s' where r: "allocate_buffer 4 True False 2 ex_py = (res, s')" by fastforce
  have "buffers_wf 0 (buffers ex_py) (bheap ex_py)" using new_wf by (simp add: ex_py_def)
  from allocate_buffer_all_or_nothing [OF this _ _ r] r show ?thesis
    by (auto simp: ex_py_def BufferRegistry_new_def)
qed

text \<open>
  C37: \<^verbatim>\<open>send_buffer\<close> hands a buffer over at most once. With a live buffer it sends the bytes as one user
  message, returns whether the runtime accepted it, and in either case the identifier is used up: a
  second call raises and sends nothing.
\<close>

theorem send_buffer_consumes:
  assumes "inner (buffers s) bid = Some a" and "bheap s a = Some b"
    and "PyRuntime_send_buffer p bid s = (res, s')"
  shows "res = Inr (fst (Runtime_send p (User b) (prt s)) = Inr ())
    \<and> prt s' = snd (Runtime_send p (User b) (prt s))
    \<and> PyRuntime_send_buffer q bid s' = (Inl ''invalid buffer id or already taken'', s')"
proof -
  have "(\<lambda>x. if x = bid then None else inner (buffers s) x) = (inner (buffers s))(bid := None)" by auto
  with assms show ?thesis
    by (cases "Runtime_send p (User b) (prt s)"; cases s; cases "buffers s")
      (auto simp: PyRuntime_send_buffer_def BufferRegistry_take_def Let_def)
qed

theorem send_buffer_consumes_witness:
  "fst (PyRuntime_send_buffer 7 1 (ex_py\<lparr>buffers := \<lparr>inner = [1 \<mapsto> 4], next_id = 2\<rparr>, bheap := [4 \<mapsto> [5]]\<rparr>)) = Inr False"
proof -
  let ?s = "ex_py\<lparr>buffers := \<lparr>inner = [1 \<mapsto> 4], next_id = 2\<rparr>, bheap := [4 \<mapsto> [5]]\<rparr>"
  obtain res s' where r: "PyRuntime_send_buffer 7 1 ?s = (res, s')" by fastforce
  have "fst (Runtime_send 7 (User [5]) Runtime_new) = Inl (User [5])" by (simp add: Runtime_send_def Runtime_new_def)
  with send_buffer_consumes [OF _ _ r, of 4 "[5]"] r show ?thesis by (simp add: ex_py_def)
qed

text \<open>
  Supervising with a factory starts one actor more than it supervises. The call runs the factory
  once and, when that succeeds with \<open>q\<close>, records the factory under the identifier it was given; the
  actor \<open>q\<close> stays as alive as the factory left it and is not recorded as a child. A strategy name that
  is not known or a factory that fails records nothing.
\<close>

theorem supervise_factory_orphan:
  assumes "env n R = (Inr q, R1)" and "q \<noteq> p" and "parse_strategy strat = Some st"
    and "PyRuntime_supervise_with_factory env p n strat R = (res, R')"
  shows "res = Inr () \<and> Runtime_is_alive R' q = Runtime_is_alive R1 q
    \<and> children (sup (sups R' 0)) p = Some \<lparr>factory = UserFactory n, strategy = st\<rparr>
    \<and> children (sup (sups R' 0)) q = children (sup (sups R1 0)) q"
  using assms
  by (auto simp: PyRuntime_supervise_with_factory_def call_factory_def Runtime_supervise_def sup_call_def
      Supervisor_add_child_def Runtime_is_alive_def)

text \<open>The factory of the example spawns a handler and returns its identifier.\<close>

definition ex_factory :: "nat \<Rightarrow> Runtime \<Rightarrow> (string + pid) \<times> Runtime" where
  "ex_factory n R =
     (case Runtime_spawn_handler_with_budget 8 R of Some (p, R) \<Rightarrow> (Inr p, R) | None \<Rightarrow> (Inl ''panic'', R))"

theorem supervise_factory_orphan_witness:
  "\<exists>q res R'. PyRuntime_supervise_with_factory ex_factory 7 0 ''One'' Runtime_new = (res, R')
     \<and> Runtime_is_alive R' q \<and> children (sup (sups R' 0)) q = None"
proof -
  have s: "Runtime_spawn_handler_with_budget 8 Runtime_new = spawn_task (HandlerBody 8 0) Runtime_new"
    by (simp add: Runtime_spawn_handler_with_budget_def)
  obtain R1 where R1: "spawn_task (HandlerBody 8 0) Runtime_new = Some (0x100000000, R1)"
    by (simp add: spawn_task_def Runtime_new_def SlabAllocator_allocate_def SlabAllocator_new_def
        Let_def ex_pids)
  note live = spawned_alive(1) [OF new_room R1]
  obtain res R' where r: "PyRuntime_supervise_with_factory ex_factory 7 0 ''One'' Runtime_new = (res, R')" by fastforce
  have f: "ex_factory 0 Runtime_new = (Inr 0x100000000, R1)" by (simp add: ex_factory_def s R1)
  have p: "parse_strategy ''One'' = Some RestartOne" by code_simp
  have "children (sup (sups R1 0)) 0x100000000 = None"
    using spawn_task_sups [OF R1] by (simp add: Runtime_new_def sup_new_def Supervisor_new_def)
  with supervise_factory_orphan [OF f _ p r] live r show ?thesis by auto
qed

end
