(* ===== verification/PyApi.thy ===== *)
theory PyApi
  imports Timers Pool Server PyMembrane
begin

text \<open>
  The rest of \<^verbatim>\<open>src/py.rs\<close>: the functions of the module and the methods of \<^verbatim>\<open>PyRuntime\<close> that hand
  their arguments to the runtime, and what all the calls together can do. A call returns a value or
  raises; \<open>None\<close> says that the runtime panicked (the slab is full). The orders in which concurrent
  maps are iterated are arguments, as in the runtime's own functions.

  A node (\<open>py_node\<close>) is the runtime with its timers, the thread counter of \<^verbatim>\<open>spawn_py_handler\<close>, the
  shared buffers, the pool of connections and the monitor tasks. \<open>py_step\<close> interleaves calls with the
  work of the runtime. The calls that block (\<^verbatim>\<open>join\<close>, \<^verbatim>\<open>recv\<close>, \<^verbatim>\<open>selective_recv\<close>,
  \<^verbatim>\<open>selective_recv_observed_py\<close>) and \<^verbatim>\<open>listen\<close> have definitions of their own and are not among the calls
  of \<open>py_call\<close>; what they do to the runtime between two waits is one of its steps.
\<close>

datatype py_value =
    VNone | VBool bool | VId u64 | VPid "pid option" | VEntries "(string \<times> pid) list" | VPids "pid list"
  | VSize "usize option" | VCount nat | VObjects "PyObj list" | VBuffer BufferId "Buffer.addr" nat

definition PyRuntime_new :: Runtime where
  "PyRuntime_new = Runtime_new"

section \<open>Names and paths\<close>

datatype registry_call =
    py_register string pid | py_unregister string | py_resolve string | py_whereis string
  | py_register_path string pid | py_unregister_path string | py_whereis_path string
  | py_list_children "string list" string | py_list_children_direct "string list" string
  | py_watch_path "string list" string | py_spawn_with_path_observed usize string
  | py_create_path_supervisor string | py_remove_path_supervisor string
  | py_path_supervisor_watch string pid | py_path_supervisor_children "pid list" string

fun PyRuntime_registry :: "registry_call \<Rightarrow> Runtime \<Rightarrow> (py_value \<times> Runtime) option" where
  "PyRuntime_registry (py_register name p) R = Some (VNone, Runtime_register name p R)"
| "PyRuntime_registry (py_unregister name) R = Some (VNone, Runtime_unregister name R)"
| "PyRuntime_registry (py_resolve name) R = Some (VPid (Runtime_resolve R name), R)"
| "PyRuntime_registry (py_whereis name) R = Some (VPid (Runtime_resolve R name), R)"
| "PyRuntime_registry (py_register_path path p) R = Some (VNone, Runtime_register_path path p R)"
| "PyRuntime_registry (py_unregister_path path) R = Some (VNone, Runtime_unregister_path path R)"
| "PyRuntime_registry (py_whereis_path path) R = Some (VPid (Runtime_whereis_path R path), R)"
| "PyRuntime_registry (py_list_children ks pre) R = Some (VEntries (Runtime_list_children ks R pre), R)"
| "PyRuntime_registry (py_list_children_direct ks pre) R = Some (VEntries (Runtime_list_children_direct ks R pre), R)"
| "PyRuntime_registry (py_watch_path ks pre) R = Some (VNone, Runtime_watch_path ks pre R)"
| "PyRuntime_registry (py_spawn_with_path_observed budget path) R =
     map_option (\<lambda>(p, R). (VPid (Some p), R)) (Runtime_spawn_with_path_observed budget path R)"
| "PyRuntime_registry (py_create_path_supervisor path) R = Some (VNone, Runtime_create_path_supervisor path R)"
| "PyRuntime_registry (py_remove_path_supervisor path) R = Some (VNone, Runtime_remove_path_supervisor path R)"
| "PyRuntime_registry (py_path_supervisor_watch path p) R = Some (VNone, Runtime_path_supervisor_watch path p R)"
| "PyRuntime_registry (py_path_supervisor_children ks path) R =
     Some (VPids (Runtime_path_supervisor_children ks path R), R)"

text \<open>The module's functions take the runtime as their first argument.\<close>

datatype module_call =
    mod_register_path string pid | mod_unregister_path string | mod_whereis_path string
  | mod_list_children "string list" string | mod_spawn_with_path_observed usize string
  | mod_list_children_direct "string list" string | mod_watch_path "string list" string
  | mod_create_path_supervisor string | mod_remove_path_supervisor string
  | mod_path_supervisor_watch string pid | mod_path_supervisor_children "pid list" string

fun module_function :: "module_call \<Rightarrow> Runtime \<Rightarrow> (py_value \<times> Runtime) option" where
  "module_function (mod_register_path path p) R = Some (VNone, Runtime_register_path path p R)"
| "module_function (mod_unregister_path path) R = Some (VNone, Runtime_unregister_path path R)"
| "module_function (mod_whereis_path path) R = Some (VPid (Runtime_whereis_path R path), R)"
| "module_function (mod_list_children ks pre) R = Some (VEntries (Runtime_list_children ks R pre), R)"
| "module_function (mod_spawn_with_path_observed budget path) R =
     map_option (\<lambda>(p, R). (VPid (Some p), R)) (Runtime_spawn_with_path_observed budget path R)"
| "module_function (mod_list_children_direct ks pre) R = Some (VEntries (Runtime_list_children_direct ks R pre), R)"
| "module_function (mod_watch_path ks pre) R = Some (VNone, Runtime_watch_path ks pre R)"
| "module_function (mod_create_path_supervisor path) R = Some (VNone, Runtime_create_path_supervisor path R)"
| "module_function (mod_remove_path_supervisor path) R = Some (VNone, Runtime_remove_path_supervisor path R)"
| "module_function (mod_path_supervisor_watch path p) R = Some (VNone, Runtime_path_supervisor_watch path p R)"
| "module_function (mod_path_supervisor_children ks path) R =
     Some (VPids (Runtime_path_supervisor_children ks path R), R)"

section \<open>Remote nodes\<close>

text \<open>
  \<^verbatim>\<open>resolve_remote\<close> blocks on the same future in the current or in the global Tokio runtime
  (\<open>in_runtime\<close>); \<^verbatim>\<open>is_node_up\<close> only dials.
\<close>

definition PyRuntime_resolve_remote ::
    "bool \<Rightarrow> io_error option \<Rightarrow> string \<Rightarrow> Runtime \<Rightarrow> writer \<Rightarrow> reader \<Rightarrow> pid option" where
  "PyRuntime_resolve_remote in_runtime dial name R w r =
     (if in_runtime then Runtime_resolve_remote_async dial name R w r
      else Runtime_resolve_remote_async dial name R w r)"

definition PyRuntime_resolve_remote_py ::
    "io_error option \<Rightarrow> string \<Rightarrow> Runtime \<Rightarrow> writer \<Rightarrow> reader \<Rightarrow> pid option" where
  "PyRuntime_resolve_remote_py dial name R w r = Runtime_resolve_remote_async dial name R w r"

definition PyRuntime_is_node_up :: "io_error option \<Rightarrow> bool" where
  "PyRuntime_is_node_up dial = (case dial of None \<Rightarrow> True | Some _ \<Rightarrow> False)"

definition PyRuntime_listen :: "io_error option \<Rightarrow> Runtime \<Rightarrow> server option" where
  "PyRuntime_listen bind R = Runtime_listen bind R"

definition PyRuntime_send_remote :: "string \<Rightarrow> pid \<Rightarrow> bytes \<Rightarrow> pool_sys \<Rightarrow> pool_sys" where
  "PyRuntime_send_remote a p data P = Runtime_send_remote a p data P"

section \<open>Settings, timers, links and queries\<close>

definition PyRuntime_set_release_gil_limits :: "usize \<Rightarrow> usize \<Rightarrow> Runtime \<Rightarrow> Runtime" where
  "PyRuntime_set_release_gil_limits max_threads pool_size R = Runtime_set_release_gil_limits max_threads pool_size R"

definition PyRuntime_set_release_gil_strict :: "bool \<Rightarrow> Runtime \<Rightarrow> Runtime" where
  "PyRuntime_set_release_gil_strict strict R = Runtime_set_release_gil_strict strict R"

definition PyRuntime_stop :: "pid \<Rightarrow> Runtime \<Rightarrow> Runtime" where
  "PyRuntime_stop p R = Runtime_stop p R"

definition PyRuntime_spawn_observed_handler :: "usize \<Rightarrow> Runtime \<Rightarrow> (pid \<times> Runtime) option" where
  "PyRuntime_spawn_observed_handler budget R = Runtime_spawn_observed_handler budget R"

definition PyRuntime_send_after :: "pid \<Rightarrow> u64 \<Rightarrow> bytes \<Rightarrow> timer_sys \<Rightarrow> u64 \<times> timer_sys" where
  "PyRuntime_send_after p delay_ms data T = Runtime_send_after p delay_ms (User data) T"

definition PyRuntime_send_interval :: "pid \<Rightarrow> u64 \<Rightarrow> bytes \<Rightarrow> timer_sys \<Rightarrow> u64 \<times> timer_sys" where
  "PyRuntime_send_interval p interval_ms data T = Runtime_send_interval p interval_ms (User data) T"

definition PyRuntime_cancel_timer :: "u64 \<Rightarrow> timer_sys \<Rightarrow> bool \<times> timer_sys" where
  "PyRuntime_cancel_timer i T = Runtime_cancel_timer i T"

definition PyRuntime_link :: "pid \<Rightarrow> pid \<Rightarrow> Runtime \<Rightarrow> Runtime" where
  "PyRuntime_link p q R = Runtime_link p q R"

definition PyRuntime_unlink :: "pid \<Rightarrow> pid \<Rightarrow> Runtime \<Rightarrow> Runtime" where
  "PyRuntime_unlink p q R = Runtime_unlink p q R"

datatype query = q_is_alive pid | q_mailbox_size pid | q_children_count | q_child_pids "pid list"

fun PyRuntime_query :: "query \<Rightarrow> Runtime \<Rightarrow> py_value" where
  "PyRuntime_query (q_is_alive p) R = VBool (Runtime_is_alive R p)"
| "PyRuntime_query (q_mailbox_size p) R = VSize (Runtime_mailbox_size R p)"
| "PyRuntime_query q_children_count R = VCount (Supervisor_children_count (sup (sups R 0)))"
| "PyRuntime_query (q_child_pids ks) R = VPids (Supervisor_child_pids ks (sup (sups R 0)))"

section \<open>A node and its calls\<close>

text \<open>A monitor task: the identifier, its state, and whether the check of the round has been made.\<close>

record monitor_task =
  mpid :: pid
  mstate :: monitor
  checked :: bool

record py_node =
  tsys :: timer_sys
  pgil :: gil
  pbuffers :: BufferRegistry
  pheap :: heap
  ppool :: pool_sys
  monitors :: "monitor_task list"

abbreviation node_rt :: "py_node \<Rightarrow> Runtime" where
  "node_rt N \<equiv> rt (tsys N)"

definition set_rt :: "Runtime \<Rightarrow> py_node \<Rightarrow> py_node" where
  "set_rt R N = N\<lparr>tsys := (tsys N)\<lparr>rt := R\<rparr>\<rparr>"

definition py_view :: "py_node \<Rightarrow> py_state" where
  "py_view N = \<lparr>prt = node_rt N, buffers = pbuffers N, bheap = pheap N\<rparr>"

definition py_put :: "py_state \<Rightarrow> py_node \<Rightarrow> py_node" where
  "py_put s N = (set_rt (prt s) N)\<lparr>pbuffers := buffers s, pheap := bheap s\<rparr>"

definition PyRuntime_monitor_remote :: "pid \<Rightarrow> py_node \<Rightarrow> py_node" where
  "PyRuntime_monitor_remote p N =
     N\<lparr>monitors := monitors N @ [\<lparr>mpid = p, mstate = monitor_start 1000 (node_rt N), checked = False\<rparr>]\<rparr>"

type_synonym user_factory = "nat \<Rightarrow> Runtime \<Rightarrow> (string + pid) \<times> Runtime"

datatype py_call =
    Registry registry_call | Module module_call | Query query | GetMessages pid
  | SetGilLimits usize usize | SetGilStrict bool
  | Send pid bytes | SendBuffer pid BufferId | AllocateBuffer "Buffer.addr" bool bool usize
  | SendAfter pid u64 bytes | SendInterval pid u64 bytes | CancelTimer u64
  | Stop pid | Swap pid usize | SpawnPyHandler usize "bool option" | SpawnWithMailbox usize
  | SpawnObservedHandler usize | WatchPid pid string | SuperviseWithFactory user_factory pid nat string
  | PathSuperviseWithFactory user_factory string pid nat string | LinkTo pid pid | UnlinkFrom pid pid
  | SendRemote string pid bytes
  | MonitorRemote pid

definition returns :: "py_value \<Rightarrow> py_node \<Rightarrow> ((string + py_value) \<times> py_node) option" where
  "returns v N = Some (Inr v, N)"

fun py_exec :: "py_call \<Rightarrow> py_node \<Rightarrow> ((string + py_value) \<times> py_node) option" where
  "py_exec (Registry c) N = map_option (\<lambda>(v, R). (Inr v, set_rt R N)) (PyRuntime_registry c (node_rt N))"
| "py_exec (Module c) N = map_option (\<lambda>(v, R). (Inr v, set_rt R N)) (module_function c (node_rt N))"
| "py_exec (Query q) N = returns (PyRuntime_query q (node_rt N)) N"
| "py_exec (GetMessages p) N = returns (VObjects (PyRuntime_get_messages p (node_rt N))) N"
| "py_exec (SetGilLimits m n) N = returns VNone (set_rt (PyRuntime_set_release_gil_limits m n (node_rt N)) N)"
| "py_exec (SetGilStrict b) N = returns VNone (set_rt (PyRuntime_set_release_gil_strict b (node_rt N)) N)"
| "py_exec (Send p d) N = (case PyRuntime_send p d (node_rt N) of (b, R) \<Rightarrow> returns (VBool b) (set_rt R N))"
| "py_exec (SendBuffer p i) N =
     (case PyRuntime_send_buffer p i (py_view N) of
        (Inl e, s) \<Rightarrow> Some (Inl e, py_put s N)
      | (Inr b, s) \<Rightarrow> returns (VBool b) (py_put s N))"
| "py_exec (AllocateBuffer a mv_ok capsule_ok sz) N =
     (case allocate_buffer a mv_ok capsule_ok sz (py_view N) of
        (Inl e, s) \<Rightarrow> Some (Inl e, py_put s N)
      | (Inr (i, ptr, len), s) \<Rightarrow> returns (VBuffer i ptr len) (py_put s N))"
| "py_exec (SendAfter p ms d) N =
     (case PyRuntime_send_after p ms d (tsys N) of (i, T) \<Rightarrow> returns (VId i) (N\<lparr>tsys := T\<rparr>))"
| "py_exec (SendInterval p ms d) N =
     (case PyRuntime_send_interval p ms d (tsys N) of (i, T) \<Rightarrow> returns (VId i) (N\<lparr>tsys := T\<rparr>))"
| "py_exec (CancelTimer i) N =
     (case PyRuntime_cancel_timer i (tsys N) of (b, T) \<Rightarrow> returns (VBool b) (N\<lparr>tsys := T\<rparr>))"
| "py_exec (Stop p) N = returns VNone (set_rt (PyRuntime_stop p (node_rt N)) N)"
| "py_exec (Swap p h) N = returns VNone (set_rt (PyRuntime_hot_swap p h (node_rt N)) N)"
| "py_exec (SpawnPyHandler budget release) N =
     map_option (\<lambda>(res, g, R). (case res of Inl e \<Rightarrow> Inl e | Inr (_, p) \<Rightarrow> Inr (VPid (Some p)), (set_rt R N)\<lparr>pgil := g\<rparr>))
       (PyRuntime_spawn_py_handler budget release (pgil N, node_rt N))"
| "py_exec (SpawnWithMailbox budget) N =
     map_option (\<lambda>(p, R). (Inr (VPid (Some p)), set_rt R N)) (PyRuntime_spawn_with_mailbox budget (node_rt N))"
| "py_exec (SpawnObservedHandler budget) N =
     map_option (\<lambda>(p, R). (Inr (VPid (Some p)), set_rt R N)) (PyRuntime_spawn_observed_handler budget (node_rt N))"
| "py_exec (WatchPid p strat) N =
     (case PyRuntime_watch p strat (node_rt N) of
        (Inl e, R) \<Rightarrow> Some (Inl e, set_rt R N) | (Inr _, R) \<Rightarrow> returns VNone (set_rt R N))"
| "py_exec (SuperviseWithFactory env p f strat) N =
     (case PyRuntime_supervise_with_factory env p f strat (node_rt N) of
        (Inl e, R) \<Rightarrow> Some (Inl e, set_rt R N) | (Inr _, R) \<Rightarrow> returns VNone (set_rt R N))"
| "py_exec (PathSuperviseWithFactory env path p f strat) N =
     (case PyRuntime_path_supervise_with_factory env path p f strat (node_rt N) of
        (Inl e, R) \<Rightarrow> Some (Inl e, set_rt R N) | (Inr _, R) \<Rightarrow> returns VNone (set_rt R N))"
| "py_exec (LinkTo p q) N = returns VNone (set_rt (PyRuntime_link p q (node_rt N)) N)"
| "py_exec (UnlinkFrom p q) N = returns VNone (set_rt (PyRuntime_unlink p q (node_rt N)) N)"
| "py_exec (SendRemote a p d) N = returns VNone (N\<lparr>ppool := PyRuntime_send_remote a p d (ppool N)\<rparr>)"
| "py_exec (MonitorRemote p) N = returns VNone (PyRuntime_monitor_remote p N)"

section \<open>Interleavings\<close>

text \<open>
  What is asked of a call: room in the slab, a thread limit of at most \<open>n\<close>, and that a factory acts on
  the runtime by steps of the runtime, like all user code.
\<close>

definition acts_by_steps :: "user_factory \<Rightarrow> bool" where
  "acts_by_steps env \<longleftrightarrow> (\<forall>f R. rt_step\<^sup>*\<^sup>* R (snd (env f R)))"

definition call_ok :: "nat \<Rightarrow> py_call \<Rightarrow> py_node \<Rightarrow> bool" where
  "call_ok n c N \<longleftrightarrow> slab_room (slab (node_rt N)) \<and> unat (release_gil_max_threads (node_rt N)) \<le> n
     \<and> (case c of
          SuperviseWithFactory env _ _ _ \<Rightarrow> acts_by_steps env
        | PathSuperviseWithFactory env _ _ _ _ \<Rightarrow> acts_by_steps env
        | _ \<Rightarrow> True)"

text \<open>
  \<open>work\<close> is a step of the actors, the exit protocols, the restart tasks, the timers or of Rust code;
  \<open>thread\<close> the end of a dedicated thread or a step of another caller of \<^verbatim>\<open>spawn_py_handler\<close>; \<open>capsule\<close>
  the garbage collector of the interpreter; \<open>pool\<close> a step of a remote send or of a connection. A monitor checks its identifier, probes, and acts on what
  the probe says.
\<close>

inductive py_step :: "nat \<Rightarrow> py_node \<Rightarrow> py_node \<Rightarrow> bool" for n where
  call: "call_ok n c N \<Longrightarrow> py_exec c N = Some (res, N') \<Longrightarrow> py_step n N N'"
| work: "timer_step (tsys N) T \<Longrightarrow> py_step n N (N\<lparr>tsys := T\<rparr>)"
| thread: "gil_step n (pgil N) g \<Longrightarrow> py_step n N (N\<lparr>pgil := g\<rparr>)"
| capsule: "py_step n N (py_put (capsule_destructor i (py_view N)) N)"
| pool: "pool_exec e (ppool N) = Some P \<Longrightarrow>
     (\<forall>j limit dial hello. e = ESend j limit dial hello \<longrightarrow> limit = network_max_payload (node_rt N)) \<Longrightarrow>
     py_step n N (N\<lparr>ppool := P\<rparr>)"
| check: "monitors N = us @ k # vs \<Longrightarrow> \<not> checked k \<Longrightarrow>
     py_step n N (N\<lparr>monitors := us @ (if monitor_check (mpid k) (node_rt N) then [k\<lparr>checked := True\<rparr>] else []) @ vs\<rparr>)"
| verdict: "monitors N = us @ k # vs \<Longrightarrow> checked k \<Longrightarrow> iter_order (children (sup (sups (node_rt N) 0))) ks \<Longrightarrow>
     monitor_verdict scale up (mstate k) = v \<Longrightarrow>
     py_step n N (set_rt (monitor_apply ks (mpid k) v (node_rt N))
       (N\<lparr>monitors := us @ (case v of Continue m \<Rightarrow> [k\<lparr>mstate := m, checked := False\<rparr>] | _ \<Rightarrow> []) @ vs\<rparr>))"

definition py_start :: py_node where
  "py_start = \<lparr>tsys = timers_new, pgil = \<lparr>threads = 0, dedicated = 0, backing_out = 0, has_pool = False\<rparr>,
     pbuffers = BufferRegistry_new, pheap = Map.empty, ppool = pool_start, monitors = []\<rparr>"

inductive py_reachable :: "nat \<Rightarrow> py_node \<Rightarrow> bool" for n where
  start: "py_reachable n py_start"
| step: "py_reachable n N \<Longrightarrow> py_step n N N' \<Longrightarrow> py_reachable n N'"

section \<open>Calls are steps of the runtime\<close>

lemma set_rt_simps [simp]:
  "tsys (set_rt R N) = (tsys N)\<lparr>rt := R\<rparr>" "pgil (set_rt R N) = pgil N" "set_rt (node_rt N) N = N"
  "pbuffers (set_rt R N) = pbuffers N" "pheap (set_rt R N) = pheap N"
  by (simp_all add: set_rt_def)

lemma rt_steps_timer: "rt_step\<^sup>*\<^sup>* R R' \<Longrightarrow> timer_step\<^sup>*\<^sup>* (T\<lparr>rt := R\<rparr>) (T\<lparr>rt := R'\<rparr>)"
proof (induction rule: rtranclp_induct)
  case (step R1 R2)
  have "timer_step (T\<lparr>rt := R1\<rparr>) (T\<lparr>rt := R2\<rparr>)" using timer_step.other [of "T\<lparr>rt := R1\<rparr>" R2] step(2) by simp
  with step(3) show ?case by simp
qed simp

lemma runtime_steps: "rt_step\<^sup>*\<^sup>* (rt T) R \<Longrightarrow> timer_step\<^sup>*\<^sup>* T (T\<lparr>rt := R\<rparr>)"
  using rt_steps_timer [of "rt T" R T] by simp

text \<open>The call of the runtime behind a registry call and behind a function of the module, if it changes the state.\<close>

fun registry_op :: "registry_call \<Rightarrow> rt_op option" where
  "registry_op (py_register name p) = Some (RegisterName name p)"
| "registry_op (py_unregister name) = Some (UnregisterName name)"
| "registry_op (py_register_path path p) = Some (RegisterPath path p)"
| "registry_op (py_unregister_path path) = Some (UnregisterPath path)"
| "registry_op (py_watch_path ks pre) = Some (WatchPath ks pre)"
| "registry_op (py_spawn_with_path_observed n path) = Some (SpawnPath n path)"
| "registry_op (py_create_path_supervisor path) = Some (CreatePathSup path)"
| "registry_op (py_remove_path_supervisor path) = Some (RemovePathSup path)"
| "registry_op (py_path_supervisor_watch path p) = Some (PathWatch path p)"
| "registry_op _ = None"

fun method_of :: "module_call \<Rightarrow> registry_call" where
  "method_of (mod_register_path path p) = py_register_path path p"
| "method_of (mod_unregister_path path) = py_unregister_path path"
| "method_of (mod_whereis_path path) = py_whereis_path path"
| "method_of (mod_list_children ks pre) = py_list_children ks pre"
| "method_of (mod_spawn_with_path_observed n path) = py_spawn_with_path_observed n path"
| "method_of (mod_list_children_direct ks pre) = py_list_children_direct ks pre"
| "method_of (mod_watch_path ks pre) = py_watch_path ks pre"
| "method_of (mod_create_path_supervisor path) = py_create_path_supervisor path"
| "method_of (mod_remove_path_supervisor path) = py_remove_path_supervisor path"
| "method_of (mod_path_supervisor_watch path p) = py_path_supervisor_watch path p"
| "method_of (mod_path_supervisor_children ks path) = py_path_supervisor_children ks path"

lemma module_function_method: "module_function c R = PyRuntime_registry (method_of c) R"
  by (cases c) simp_all

lemma registry_step:
  assumes "PyRuntime_registry c R = Some (v, R')" and "slab_room (slab R)"
  shows "rt_step\<^sup>*\<^sup>* R R'"
proof -
  have "case registry_op c of None \<Rightarrow> R' = R | Some x \<Rightarrow> rt_exec x R = Some R'"
    using assms(1) by (cases c) auto
  with assms(2) show ?thesis by (auto split: option.splits intro: rt_step_call)
qed

lemma call_step: "rt_exec x R = Some R' \<Longrightarrow> slab_room (slab R) \<or> \<not> spawns x \<Longrightarrow> rt_step\<^sup>*\<^sup>* R R'"
  by (auto intro: rt_step_call)

lemma factory_step:
  assumes "acts_by_steps env"
  shows "PyRuntime_supervise_with_factory env p f strat R = (res, R') \<Longrightarrow> rt_step\<^sup>*\<^sup>* R R'"
    and "PyRuntime_path_supervise_with_factory env path p f strat R = (res, R') \<Longrightarrow> rt_step\<^sup>*\<^sup>* R R'"
proof -
  have e: "rt_step\<^sup>*\<^sup>* R R1" if "env f R = (x, R1)" for x R1
    using assms that by (metis acts_by_steps_def snd_conv)
  have s: "rt_step\<^sup>*\<^sup>* R (Runtime_supervise p c st R1)"
    "rt_step\<^sup>*\<^sup>* R (Runtime_path_supervise_with_factory path p c st R1)" if "env f R = (x, R1)" for x R1 c st
    using rt_step_call [of R1 "SuperviseChild p c st"] rt_step_call [of R1 "PathSupervise path p c st"] e [OF that]
    by (auto intro: rtranclp.rtrancl_into_rtrancl)
  show "PyRuntime_supervise_with_factory env p f strat R = (res, R') \<Longrightarrow> rt_step\<^sup>*\<^sup>* R R'"
    using e s(1) by (auto simp: PyRuntime_supervise_with_factory_def call_factory_def
        split: option.splits prod.splits sum.splits)
  show "PyRuntime_path_supervise_with_factory env path p f strat R = (res, R') \<Longrightarrow> rt_step\<^sup>*\<^sup>* R R'"
    using e s(2) by (auto simp: PyRuntime_path_supervise_with_factory_def call_factory_def
        split: option.splits prod.splits sum.splits)
qed

lemma gil_spawn_step:
  assumes "PyRuntime_spawn_py_handler budget release (g, R) = Some (res, g', R')"
    and "slab_room (slab R)" and "unat (release_gil_max_threads R) \<le> n"
  shows "rt_step\<^sup>*\<^sup>* R R'" and "(gil_step n)\<^sup>*\<^sup>* g g'"
proof -
  have h: "rt_step\<^sup>*\<^sup>* R R1" if "Runtime_spawn_handler_with_budget budget R = Some (p, R1)" for p R1
    using call_step [of "SpawnHandler budget" R R1] that assms(2) by simp
  show "rt_step\<^sup>*\<^sup>* R R'"
    using assms(1) h by (auto simp: PyRuntime_spawn_py_handler_def Let_def split: if_splits prod.splits option.splits)
  have d: "(gil_step n)\<^sup>*\<^sup>* g (snd (gil_reserve m g))" if "m \<le> n" for m
    using gil_step.reserve [OF that] by blast
  have b: "(gil_step n)\<^sup>*\<^sup>* g (snd (gil_back_out strict g1))" if "gil_reserve m g = (False, g1)" "m \<le> n" for m strict g1
  proof -
    have "0 < backing_out g1" using that(1) by (auto simp: gil_reserve_def Let_def split: if_splits)
    from gil_step.back_out [OF this] gil_step.reserve [OF that(2), of g] that(1) show ?thesis
      by (metis converse_rtranclp_into_rtranclp r_into_rtranclp snd_conv)
  qed
  show "(gil_step n)\<^sup>*\<^sup>* g g'"
    using assms(1,3) d b
    by (auto simp: PyRuntime_spawn_py_handler_def Runtime_get_release_gil_limits_def Let_def
        split: if_splits prod.splits option.splits bool.splits) (metis snd_conv)+
qed

lemma py_put_rt: "tsys (py_put s N) = (tsys N)\<lparr>rt := prt s\<rparr>" "pgil (py_put s N) = pgil N"
  by (simp_all add: py_put_def)

lemma buffer_step:
  "PyRuntime_send_buffer p i s = (res, s') \<Longrightarrow> rt_step\<^sup>*\<^sup>* (prt s) (prt s')"
  "allocate_buffer a mv_ok capsule_ok sz s = (res', s') \<Longrightarrow> prt s' = prt s"
  "prt (capsule_destructor i s) = prt s"
proof -
  have "rt_step\<^sup>*\<^sup>* (prt s) R" if "Runtime_send p (User b) (prt s) = (x, R)" for b x R
    using call_step [of "SendTo p (User b)" "prt s" R] that by simp
  then show "PyRuntime_send_buffer p i s = (res, s') \<Longrightarrow> rt_step\<^sup>*\<^sup>* (prt s) (prt s')"
    by (auto simp: PyRuntime_send_buffer_def BufferRegistry_take_def Let_def split: option.splits prod.splits)
  show "allocate_buffer a mv_ok capsule_ok sz s = (res', s') \<Longrightarrow> prt s' = prt s"
    by (auto simp: allocate_buffer_def Let_def split: option.splits prod.splits if_splits)
  show "prt (capsule_destructor i s) = prt s" by (simp add: capsule_destructor_def split: prod.split)
qed

text \<open>The runtime call behind a method that changes nothing but the runtime.\<close>

fun simple_op :: "py_call \<Rightarrow> rt_op option" where
  "simple_op (SetGilLimits m n) = Some (GilLimits m n)"
| "simple_op (SetGilStrict b) = Some (GilStrict b)"
| "simple_op (Send p d) = Some (SendTo p (User d))"
| "simple_op (Stop p) = Some (StopActor p)"
| "simple_op (Swap p h) = Some (HotSwapActor p h)"
| "simple_op (SpawnWithMailbox n) = Some (SpawnActorBudget n)"
| "simple_op (SpawnObservedHandler n) = Some (SpawnObserved n)"
| "simple_op (LinkTo p q) = Some (LinkPids p q)"
| "simple_op (UnlinkFrom p q) = Some (UnlinkPids p q)"
| "simple_op _ = None"

lemmas py_method_defs =
  PyRuntime_set_release_gil_limits_def PyRuntime_set_release_gil_strict_def PyRuntime_send_def
  PyRuntime_stop_def PyRuntime_hot_swap_def PyRuntime_spawn_with_mailbox_def
  PyRuntime_spawn_observed_handler_def PyRuntime_link_def PyRuntime_unlink_def
  PyRuntime_send_after_def PyRuntime_send_interval_def PyRuntime_cancel_timer_def
  PyRuntime_monitor_remote_def returns_def

lemma simple_call:
  assumes "py_exec c N = Some (res, N')" and "simple_op c = Some x"
  shows "\<exists>R'. rt_exec x (node_rt N) = Some R' \<and> N' = set_rt R' N \<and> (\<exists>v. res = Inr v)"
  using assms by (cases c) (auto simp: py_method_defs split: prod.splits)

lemma py_timer_steps:
  "PyRuntime_send_after p ms d T = (i, T') \<Longrightarrow> timer_step\<^sup>*\<^sup>* T T'"
  "PyRuntime_send_interval p ms d T = (i, T') \<Longrightarrow> timer_step\<^sup>*\<^sup>* T T'"
  "PyRuntime_cancel_timer i T = (b, T') \<Longrightarrow> timer_step\<^sup>*\<^sup>* T T'"
  by (metis py_method_defs r_into_rtranclp snd_conv timer_step.intros(1-3))+

lemma watch_step: "PyRuntime_watch p strat R = (res, R') \<Longrightarrow> rt_step\<^sup>*\<^sup>* R R'"
  using call_step [of "SuperviseChild p (ReturnPid p) st" R for st]
  by (auto simp: PyRuntime_watch_def Runtime_supervise_def split: option.splits)

lemma py_exec_steps:
  assumes c: "py_exec c N = Some (res, N')" and ok: "call_ok n c N"
  shows "timer_step\<^sup>*\<^sup>* (tsys N) (tsys N') \<and> (gil_step n)\<^sup>*\<^sup>* (pgil N) (pgil N')"
proof -
  have room: "slab_room (slab (node_rt N))" and lim: "unat (release_gil_max_threads (node_rt N)) \<le> n"
    using ok by (simp_all add: call_ok_def)
  show ?thesis
  proof (cases "simple_op c")
    case (Some x)
    from simple_call [OF c this] obtain R' where "rt_exec x (node_rt N) = Some R'" "N' = set_rt R' N" by auto
    then show ?thesis using call_step [of x "node_rt N" R'] by (simp add: room runtime_steps)
  next
    case None
    show ?thesis
    proof (cases c)
      case (Registry x)
      then show ?thesis using c room by (auto simp: runtime_steps dest!: registry_step)
    next
      case (Module x)
      then show ?thesis using c room by (auto simp: module_function_method runtime_steps dest!: registry_step)
    next
      case (SendBuffer p i)
      with c buffer_step(1) [of p i "py_view N"] show ?thesis
        by (auto simp: returns_def py_view_def py_put_rt runtime_steps split: prod.splits sum.splits)
    next
      case (AllocateBuffer a mv cap sz)
      with c buffer_step(2) [of a mv cap sz "py_view N"] show ?thesis
        by (auto simp: returns_def py_put_rt py_view_def split: prod.splits sum.splits)
    next
      case (SpawnPyHandler b r)
      with c obtain x g R where "PyRuntime_spawn_py_handler b r (pgil N, node_rt N) = Some (x, g, R)"
        "N' = (set_rt R N)\<lparr>pgil := g\<rparr>" by auto
      with gil_spawn_step [OF this(1) room lim] show ?thesis by (simp add: runtime_steps)
    qed (use c ok None in \<open>auto simp: call_ok_def returns_def PyRuntime_monitor_remote_def runtime_steps
        split: prod.splits sum.splits dest: py_timer_steps watch_step factory_step\<close>)
  qed
qed

section \<open>The invariants of the node\<close>

lemma timer_steps_laws:
  "timer_step\<^sup>*\<^sup>* T T' \<Longrightarrow> rt_inv (rt T) \<and> sups_ok (rt T) \<Longrightarrow> rt_inv (rt T') \<and> sups_ok (rt T')"
  by (induction rule: rtranclp_induct) (auto dest: timer_step_rt)

lemma gil_steps_reachable: "(gil_step n)\<^sup>*\<^sup>* g g' \<Longrightarrow> gil_reachable n g \<Longrightarrow> gil_reachable n g'"
  by (induction rule: rtranclp_induct) (auto intro: gil_reachable.step)

lemma monitor_steps:
  assumes "iter_order (children (sup (sups R 0))) ks"
  shows "rt_step\<^sup>*\<^sup>* R (monitor_apply ks p v R)"
proof -
  have s: "rt_step R (Runtime_stop p R)" using rt_step_call [of R "StopActor p"] by simp
  have "sups (Runtime_stop p R) = sups R"
    by (simp add: Runtime_stop_def remove_mailbox_def split: option.split)
  with assms have "rt_step (Runtime_stop p R) (sup_notify ks 0 p (Runtime_stop p R))" by (simp add: rt_step.notify)
  with s show ?thesis by (auto simp: monitor_apply_def split: verdict.split)
qed

lemma py_step_steps:
  assumes "py_step n N N'"
  shows "timer_step\<^sup>*\<^sup>* (tsys N) (tsys N') \<and> (gil_step n)\<^sup>*\<^sup>* (pgil N) (pgil N')"
  using assms
proof cases
  case (call c res)
  then show ?thesis by (simp add: py_exec_steps)
next
  case (capsule i)
  then show ?thesis by (simp add: py_put_rt buffer_step(3)) (simp add: py_view_def)
next
  case (verdict us k vs ks scale up v)
  then show ?thesis by (simp add: runtime_steps monitor_steps)
qed auto

lemma set_rt_pool [simp]: "ppool (set_rt R N) = ppool N" "ppool (py_put s N) = ppool N"
  by (simp_all add: set_rt_def py_put_def)

lemma py_exec_pool:
  assumes "py_exec c N = Some (res, N')"
  shows "ppool N' = ppool N \<or> (\<exists>a p d. ppool N' = Runtime_send_remote a p d (ppool N))"
proof (cases c)
  case (SpawnPyHandler b r)
  with assms show ?thesis by auto
next
  case (SendRemote a p d)
  with assms have "ppool N' = Runtime_send_remote a p d (ppool N)" by (auto simp: returns_def PyRuntime_send_remote_def)
  then show ?thesis by blast
qed (use assms in \<open>auto simp: py_method_defs split: prod.splits sum.splits\<close>)

lemma py_step_pool:
  assumes "py_step n N N'" and "pool_reachable (ppool N)"
  shows "pool_reachable (ppool N')"
  using assms(1)
proof cases
  case (call c res)
  from py_exec_pool [OF call(2)] assms(2) pool_reachable.step [of "ppool N" "ECall a p d" for a p d] show ?thesis by auto
next
  case (pool e P)
  with assms(2) show ?thesis by (auto intro: pool_reachable.step)
qed (use assms(2) in auto)

text \<open>A Python node is a host of a runtime.\<close>

interpretation py_host: moving_host "(=) py_start" "py_step n" node_rt for n
  by unfold_locales (auto simp: py_start_def timers_new_def new_laws dest!: py_step_steps dest: timer_steps_laws)

lemma py_reachable_run: "py_reachable n N \<Longrightarrow> \<exists>N0. py_start = N0 \<and> (py_step n)\<^sup>*\<^sup>* N0 N"
  by (induction rule: py_reachable.induct) auto

section \<open>Properties\<close>

text \<open>
  C26: no Python program can break the node. Whatever calls it makes, in whatever order and
  interleaved with actors, exit protocols, restarts, timers, monitors and the garbage collector, the
  runtime keeps its invariant (identifiers, mailboxes and tasks belong together), every supervisor is
  one its own operations can reach, the timers and the connection pool are in reachable states, and no
  more dedicated threads run than the largest limit that was in force.
\<close>

theorem python_keeps_invariants:
  assumes "py_reachable n N"
  shows "rt_inv (node_rt N) \<and> (\<forall>a. sup_reachable (sups (node_rt N) a)) \<and> timer_reachable (tsys N)
    \<and> pool_reachable (ppool N) \<and> dedicated (pgil N) \<le> n"
proof -
  have "timer_reachable (tsys N) \<and> gil_reachable n (pgil N) \<and> pool_reachable (ppool N)"
    using assms
  proof (induction rule: py_reachable.induct)
    case start
    show ?case by (simp add: py_start_def timer_reachable.start gil_reachable.start pool_reachable.start)
  next
    case (step N N')
    from py_step_steps [OF step(2)] py_step_pool [OF step(2)] step(3) timer_run [of "tsys N" "tsys N'"] show ?case
      using gil_steps_reachable by blast
  qed
  then show ?thesis
    using gil_invariant [of n "pgil N"] py_host.keeps_inv [OF py_reachable_run [OF assms]]
      py_host.keeps_sups [OF py_reachable_run [OF assms]] by (simp add: sups_ok_def)
qed

lemma first_spawn:
  "\<exists>N. py_exec (SpawnWithMailbox 10) py_start = Some (Inr (VPid (Some 0x100000000)), N)"
  by (simp add: py_start_def timers_new_def PyRuntime_spawn_with_mailbox_def Runtime_spawn_actor_with_budget_def
      spawn_task_def Runtime_new_def SlabAllocator_allocate_def SlabAllocator_new_def Let_def ex_pids)

lemma py_start_ok: "call_ok 256 (SpawnWithMailbox 10) py_start"
  using new_room(2) by (simp add: call_ok_def py_start_def timers_new_def) (simp add: Runtime_new_def)

theorem python_keeps_invariants_witness:
  "\<exists>N. py_exec (SpawnWithMailbox 10) py_start = Some (Inr (VPid (Some 0x100000000)), N) \<and> rt_inv (node_rt N)"
  using first_spawn python_keeps_invariants [OF py_reachable.step [OF py_reachable.start py_step.call [OF py_start_ok]]]
  by blast

text \<open>
  The answer of \<^verbatim>\<open>send\<close> in Python is true. In every state a Python program can bring its node to, if
  the call returns true then a running actor holds the identifier and the bytes stand at the end of its
  user queue, no other mailbox changed; if it returns false nothing at all changed; and to an identifier
  that is not alive it returns false.
\<close>

theorem python_send_truthful:
  assumes "py_reachable n N"
  shows "\<exists>b N'. py_exec (Send p d) N = Some (Inr (VBool b), N')
    \<and> (b \<longrightarrow> (\<exists>t\<in>set (actors (node_rt N)). apid t = p \<and> pc t = Running
        \<and> mail_abs (boxes (node_rt N') (abox t)) = spec_send (User d) (mail_abs (boxes (node_rt N) (abox t)))
        \<and> (\<forall>a. a \<noteq> abox t \<longrightarrow> boxes (node_rt N') a = boxes (node_rt N) a)))
    \<and> (\<not> b \<longrightarrow> N' = N) \<and> (\<not> Runtime_is_alive (node_rt N) p \<longrightarrow> \<not> b)"
proof -
  obtain res R where s: "Runtime_send p (User d) (node_rt N) = (res, R)" by fastforce
  from py_host.send_outcome [OF py_reachable_run [OF assms] s] s show ?thesis
    by (cases "res = Inr ()") (auto simp: returns_def PyRuntime_send_def)
qed

theorem python_send_truthful_witness:
  "\<exists>N'. py_exec (Send 7 [1]) py_start = Some (Inr (VBool False), N')"
proof -
  have "\<not> Runtime_is_alive (node_rt py_start) 7"
    by (simp add: Runtime_is_alive_def py_start_def timers_new_def Runtime_new_def SlabAllocator_new_def
        SlabAllocator_is_valid_def split: prod.split)
  with python_send_truthful [OF py_reachable.start, of 7 "[1]"] show ?thesis by (auto simp del: py_exec.simps)
qed

text \<open>
  The server that \<^verbatim>\<open>listen\<close> starts on the runtime of a new \<^verbatim>\<open>PyRuntime\<close>: whatever peers and local callers do,
  a send there is answered truthfully, too.
\<close>

theorem python_server_send_truthful:
  assumes "rt_step\<^sup>*\<^sup>* PyRuntime_new R" and "PyRuntime_listen bind R = Some S0" and "server_step\<^sup>*\<^sup>* S0 S"
    and "PyRuntime_send p d (host S) = (b, R')"
  shows "(b \<longrightarrow> (\<exists>t\<in>set (actors (host S)). apid t = p \<and> pc t = Running
        \<and> mail_abs (boxes R' (abox t)) = spec_send (User d) (mail_abs (boxes (host S) (abox t)))))
    \<and> (\<not> b \<longrightarrow> R' = host S)"
proof -
  have "rt_reachable R" using assms(1) by (induction rule: rtranclp_induct) (auto simp: PyRuntime_new_def intro: rt_reachable.intros)
  then have ok: "\<exists>S0. (\<exists>R bind. rt_reachable R \<and> Runtime_listen bind R = Some S0) \<and> server_step\<^sup>*\<^sup>* S0 S"
    using assms(2,3) by (auto simp: PyRuntime_listen_def)
  obtain res R1 where s: "Runtime_send p (User d) (host S) = (res, R1)" by fastforce
  from server_host.send_outcome [OF ok s] s assms(4) show ?thesis by (auto simp: PyRuntime_send_def)
qed

text \<open>Which calls run user code, and what an allocation asks of the allocator.\<close>

fun runs_factory :: "py_call \<Rightarrow> bool" where
  "runs_factory (SuperviseWithFactory _ _ _ _) = True"
| "runs_factory (PathSuperviseWithFactory _ _ _ _ _) = True"
| "runs_factory _ = False"

fun allocation_ok :: "py_call \<Rightarrow> py_node \<Rightarrow> bool" where
  "allocation_ok (AllocateBuffer a _ _ _) N \<longleftrightarrow>
     pheap N a = None \<and> inner (pbuffers N) (next_id (pbuffers N)) = None"
| "allocation_ok _ N \<longleftrightarrow> True"

lemma allocate_error:
  assumes "allocate_buffer a mv_ok capsule_ok sz s = (Inl e, s')" and "bheap s a = None"
    and "inner (buffers s) (next_id (buffers s)) = None"
  shows "s' = s\<lparr>buffers := (buffers s)\<lparr>next_id := next_id (buffers s')\<rparr>\<rparr>"
proof -
  have same: "(inner (buffers s))(next_id (buffers s) := None) = inner (buffers s)" "(bheap s)(a := None) = bheap s"
    using assms(2,3) by auto
  from assms(1,3) show ?thesis
    by (auto simp: allocate_buffer_def BufferRegistry_allocate_def BufferRegistry_ptr_len_def BufferRegistry_free_def
        drop_vec_def Let_def same split: if_splits)
qed

lemma gil_spawn_error: "PyRuntime_spawn_py_handler b r (g, R) = Some (Inl e, g', R') \<Longrightarrow> g' = g \<and> R' = R"
  by (cases g) (auto simp: PyRuntime_spawn_py_handler_def gil_reserve_def gil_back_out_def Let_def
      split: if_splits prod.splits option.splits)

lemma spawn_raises:
  "(case x of Inl e \<Rightarrow> Inl e | Inr (_, p) \<Rightarrow> Inr (VPid (Some p))) = Inl e' \<longleftrightarrow> x = Inl e'"
  by (auto split: sum.splits prod.splits)

text \<open>
  C38: a call that does not block and raises has done nothing. This is about the calls of \<open>py_call\<close>, which
  return at once; the blocking receives are treated in \<open>PyMailbox\<close>. An exception from one that neither
  allocates a buffer nor runs a factory leaves the node, that is runtime, timers, thread counter,
  connections, monitors and buffers, exactly as it was. One from \<^verbatim>\<open>allocate_buffer\<close> leaves all but the
  counter of buffer identifiers, provided that the allocator had returned unused memory and the counter an
  unused identifier. One from a method that runs a factory leaves what the factory itself has done, and
  no child.
\<close>

theorem python_error_changes_nothing:
  assumes "py_exec c N = Some (Inl e, N')" and "allocation_ok c N"
  shows "(\<not> runs_factory c \<and> (\<forall>a mv cap sz. c \<noteq> AllocateBuffer a mv cap sz) \<longrightarrow> N' = N)
    \<and> (\<not> runs_factory c \<longrightarrow> N' = N\<lparr>pbuffers := (pbuffers N)\<lparr>next_id := next_id (pbuffers N')\<rparr>\<rparr>)
    \<and> (\<forall>env p f strat. c = SuperviseWithFactory env p f strat \<longrightarrow> N' \<in> {N, set_rt (snd (env f (node_rt N))) N})
    \<and> (\<forall>env path p f strat. c = PathSuperviseWithFactory env path p f strat \<longrightarrow>
        N' \<in> {N, set_rt (snd (env f (node_rt N))) N})"
proof (cases c)
  case (AllocateBuffer a mv cap sz)
  with assms(1) obtain s where s: "allocate_buffer a mv cap sz (py_view N) = (Inl e, s)" "N' = py_put s N"
    by (auto simp: returns_def split: prod.splits sum.splits)
  from allocate_error [OF s(1)] assms(2) AllocateBuffer
  obtain k where "s = (py_view N)\<lparr>buffers := (pbuffers N)\<lparr>next_id := k\<rparr>\<rparr>" by (auto simp: py_view_def)
  with s(2) AllocateBuffer show ?thesis by (auto simp: py_put_def py_view_def)
next
  case (SendBuffer p i)
  with assms(1) have "N' = N"
    by (auto simp: returns_def PyRuntime_send_buffer_def BufferRegistry_take_def py_put_def py_view_def
        fun_upd_idem split: prod.splits sum.splits option.splits)
  with SendBuffer show ?thesis by simp
next
  case (SpawnPyHandler b r)
  with assms(1) have "N' = N" by (auto simp: spawn_raises dest!: gil_spawn_error)
  with SpawnPyHandler show ?thesis by simp
qed (use assms(1) in \<open>auto simp: returns_def PyRuntime_watch_def PyRuntime_supervise_with_factory_def
    PyRuntime_path_supervise_with_factory_def call_factory_def split: prod.splits sum.splits option.splits\<close>)

theorem python_error_changes_nothing_witness:
  "py_exec (WatchPid 7 ''sometimes'') py_start = Some (Inl ''invalid strategy'', py_start)"
proof -
  have "parse_strategy ''sometimes'' = None" by code_simp
  then obtain N' where r: "py_exec (WatchPid 7 ''sometimes'') py_start = Some (Inl ''invalid strategy'', N')"
    by (simp add: PyRuntime_watch_def)
  from python_error_changes_nothing [OF r] have "N' = py_start" by simp
  with r show ?thesis by simp
qed

end
