(* ===== verification/PyPackage.thy ===== *)
theory PyPackage
  imports PyApi
begin

text \<open>
  The class \<^verbatim>\<open>Runtime\<close> of \<^verbatim>\<open>iris/__init__.py\<close>, the object Python programs hold. Its methods hand their
  arguments to the \<^verbatim>\<open>PyRuntime\<close> of \<open>PyApi\<close>; \<^verbatim>\<open>spawn\<close> and \<^verbatim>\<open>spawn_with_mailbox\<close> have default arguments
  (\<open>None\<close> here: not given), a method without \<^verbatim>\<open>return\<close> drops the value of the call, and \<^verbatim>\<open>send_named\<close> is
  put together from two calls. The orders of iteration are arguments, as in \<open>PyApi\<close>. The methods that
  block or dial (\<^verbatim>\<open>join\<close>, \<^verbatim>\<open>selective_recv\<close>, \<^verbatim>\<open>selective_recv_blocking\<close>, \<^verbatim>\<open>resolve_remote\<close>,
  \<^verbatim>\<open>resolve_remote_py\<close>, \<^verbatim>\<open>is_node_up\<close>, \<^verbatim>\<open>listen\<close>) are the definitions of that name in the theories below.
\<close>

datatype pkg_call =
    pkg_spawn "usize option" "bool option" | pkg_spawn_with_mailbox "usize option"
  | pkg_send pid bytes | pkg_send_named string bytes
  | pkg_send_after pid u64 bytes | pkg_send_interval pid u64 bytes | pkg_cancel_timer u64
  | pkg_register string pid | pkg_unregister string | pkg_resolve string | pkg_whereis string
  | pkg_register_path string pid | pkg_unregister_path string | pkg_whereis_path string
  | pkg_list_children "string list" string | pkg_list_children_direct "string list" string
  | pkg_watch_path "string list" string | pkg_children_count | pkg_child_pids "pid list"
  | pkg_create_path_supervisor string | pkg_remove_path_supervisor string
  | pkg_path_supervisor_watch string pid | pkg_path_supervisor_children "pid list" string
  | pkg_spawn_with_path_observed usize string
  | pkg_path_supervise_with_factory user_factory string pid nat string
  | pkg_send_buffer pid BufferId | pkg_hot_swap pid usize
  | pkg_set_release_gil_limits usize usize | pkg_set_release_gil_strict bool
  | pkg_send_remote string pid bytes | pkg_monitor_remote pid
  | pkg_stop pid | pkg_is_alive pid | pkg_mailbox_size pid

text \<open>A call whose value is dropped: an exception still gets out.\<close>

definition discard :: "((string + py_value) \<times> py_node) option \<Rightarrow> ((string + py_value) \<times> py_node) option" where
  "discard r = map_option (\<lambda>(res, N). (case res of Inl e \<Rightarrow> Inl e | Inr _ \<Rightarrow> Inr VNone, N)) r"

text \<open>\<^verbatim>\<open>if pid:\<close> on the value of \<^verbatim>\<open>resolve\<close>: neither \<^verbatim>\<open>None\<close> nor zero.\<close>

fun truthy_pid :: "py_value \<Rightarrow> pid option" where
  "truthy_pid (VPid (Some p)) = (if p = 0 then None else Some p)"
| "truthy_pid _ = None"

definition package_send_named :: "string \<Rightarrow> bytes \<Rightarrow> py_node \<Rightarrow> ((string + py_value) \<times> py_node) option" where
  "package_send_named name data N =
     (case py_exec (Registry (py_resolve name)) N of
        Some (Inr v, N) \<Rightarrow>
          (case truthy_pid v of
             Some p \<Rightarrow> py_exec (Send p data) N
           | None \<Rightarrow> returns (VBool False) N)
      | r \<Rightarrow> r)"

definition default :: "'a \<Rightarrow> 'a option \<Rightarrow> 'a" where
  "default d x = (case x of None \<Rightarrow> d | Some y \<Rightarrow> y)"

fun pkg_exec :: "pkg_call \<Rightarrow> py_node \<Rightarrow> ((string + py_value) \<times> py_node) option" where
  "pkg_exec (pkg_spawn budget release_gil) N =
     py_exec (SpawnPyHandler (default 100 budget) (Some (default False release_gil))) N"
| "pkg_exec (pkg_spawn_with_mailbox budget) N = py_exec (SpawnWithMailbox (default 100 budget)) N"
| "pkg_exec (pkg_send p d) N = py_exec (Send p d) N"
| "pkg_exec (pkg_send_named name d) N = package_send_named name d N"
| "pkg_exec (pkg_send_after p ms d) N = py_exec (SendAfter p ms d) N"
| "pkg_exec (pkg_send_interval p ms d) N = py_exec (SendInterval p ms d) N"
| "pkg_exec (pkg_cancel_timer i) N = py_exec (CancelTimer i) N"
| "pkg_exec (pkg_register name p) N = discard (py_exec (Registry (py_register name p)) N)"
| "pkg_exec (pkg_unregister name) N = discard (py_exec (Registry (py_unregister name)) N)"
| "pkg_exec (pkg_resolve name) N = py_exec (Registry (py_resolve name)) N"
| "pkg_exec (pkg_whereis name) N = py_exec (Registry (py_whereis name)) N"
| "pkg_exec (pkg_register_path path p) N = discard (py_exec (Registry (py_register_path path p)) N)"
| "pkg_exec (pkg_unregister_path path) N = discard (py_exec (Registry (py_unregister_path path)) N)"
| "pkg_exec (pkg_whereis_path path) N = py_exec (Registry (py_whereis_path path)) N"
| "pkg_exec (pkg_list_children ks pre) N = py_exec (Registry (py_list_children ks pre)) N"
| "pkg_exec (pkg_list_children_direct ks pre) N = py_exec (Registry (py_list_children_direct ks pre)) N"
| "pkg_exec (pkg_watch_path ks pre) N = discard (py_exec (Registry (py_watch_path ks pre)) N)"
| "pkg_exec pkg_children_count N = py_exec (Query q_children_count) N"
| "pkg_exec (pkg_child_pids ks) N = py_exec (Query (q_child_pids ks)) N"
| "pkg_exec (pkg_create_path_supervisor path) N = discard (py_exec (Registry (py_create_path_supervisor path)) N)"
| "pkg_exec (pkg_remove_path_supervisor path) N = discard (py_exec (Registry (py_remove_path_supervisor path)) N)"
| "pkg_exec (pkg_path_supervisor_watch path p) N = discard (py_exec (Registry (py_path_supervisor_watch path p)) N)"
| "pkg_exec (pkg_path_supervisor_children ks path) N = py_exec (Registry (py_path_supervisor_children ks path)) N"
| "pkg_exec (pkg_spawn_with_path_observed budget path) N =
     py_exec (Registry (py_spawn_with_path_observed budget path)) N"
| "pkg_exec (pkg_path_supervise_with_factory env path p f strat) N =
     discard (py_exec (PathSuperviseWithFactory env path p f strat) N)"
| "pkg_exec (pkg_send_buffer p i) N = py_exec (SendBuffer p i) N"
| "pkg_exec (pkg_hot_swap p h) N = discard (py_exec (Swap p h) N)"
| "pkg_exec (pkg_set_release_gil_limits m n) N = discard (py_exec (SetGilLimits m n) N)"
| "pkg_exec (pkg_set_release_gil_strict b) N = discard (py_exec (SetGilStrict b) N)"
| "pkg_exec (pkg_send_remote a p d) N = discard (py_exec (SendRemote a p d) N)"
| "pkg_exec (pkg_monitor_remote p) N = discard (py_exec (MonitorRemote p) N)"
| "pkg_exec (pkg_stop p) N = discard (py_exec (Stop p) N)"
| "pkg_exec (pkg_is_alive p) N = py_exec (Query (q_is_alive p)) N"
| "pkg_exec (pkg_mailbox_size p) N = py_exec (Query (q_mailbox_size p)) N"

section \<open>Lemmas\<close>

lemma discard_state: "discard r = Some (res, N') \<Longrightarrow> \<exists>res'. r = Some (res', N')"
  by (auto simp: discard_def)

text \<open>What a method does to the node is what one call of \<^verbatim>\<open>PyRuntime\<close> does.\<close>

lemma package_send_named_cases:
  "package_send_named name d N = returns (VBool False) N \<or> (\<exists>p. package_send_named name d N = py_exec (Send p d) N)"
  by (auto simp: package_send_named_def set_rt_def split: option.split)

fun calls_of :: "pkg_call \<Rightarrow> py_call \<Rightarrow> bool" where
  "calls_of (pkg_path_supervise_with_factory env path p f strat) c \<longleftrightarrow> c = PathSuperviseWithFactory env path p f strat"
| "calls_of _ c \<longleftrightarrow> (\<forall>env p f strat. c \<noteq> SuperviseWithFactory env p f strat)
     \<and> (\<forall>env path p f strat. c \<noteq> PathSuperviseWithFactory env path p f strat)"

lemma pkg_exec_call:
  assumes "pkg_exec c N = Some (res, N')"
  shows "N' = N \<or> (\<exists>pc res'. calls_of c pc \<and> py_exec pc N = Some (res', N'))"
proof (cases c)
  case (pkg_send_named name d)
  have "calls_of c (Send p d)" for p using pkg_send_named by simp
  moreover have "package_send_named name d N = Some (res, N')" using assms pkg_send_named by simp
  ultimately show ?thesis using package_send_named_cases [of name d N] by (metis Pair_inject option.inject returns_def)
qed (use assms in \<open>auto simp del: py_exec.simps dest!: discard_state\<close>)

section \<open>Properties\<close>

text \<open>
  C39: \<^verbatim>\<open>send_named\<close> of the package agrees with the runtime's. The package resolves the name and then sends,
  with two calls of its own; if nothing happens between the two, it does what the runtime's \<^verbatim>\<open>send_named\<close>
  does with the same arguments: it leaves the same runtime, and is true exactly when that one returns
  \<^verbatim>\<open>Ok\<close>, as long as no actor has the identifier 0, the one that \<^verbatim>\<open>if pid:\<close> takes for a missing name.
\<close>

theorem package_send_named_agrees:
  assumes "mailboxes (node_rt N) 0 = None"
  shows "package_send_named name d N =
    (case Runtime_send_named name (User d) (node_rt N) of (res, R) \<Rightarrow> Some (Inr (VBool (res = Inr ())), set_rt R N))"
proof (cases "Runtime_resolve (node_rt N) name")
  case (Some p)
  show ?thesis
  proof (cases "p = 0")
    case True
    with Some assms show ?thesis
      by (simp add: package_send_named_def returns_def Runtime_send_named_def Runtime_resolve_def Runtime_send_def)
  next
    case False
    with Some show ?thesis
      by (auto simp: package_send_named_def returns_def Runtime_send_named_def Runtime_resolve_def PyRuntime_send_def
          split: prod.splits sum.splits)
  qed
qed (simp add: package_send_named_def returns_def Runtime_send_named_def Runtime_resolve_def)

definition ex_named :: Runtime where
  "ex_named = Runtime_register ''a'' (make_pid 0 1) (snd (the (Runtime_spawn_handler_with_budget 8 Runtime_new)))"

theorem package_send_named_agrees_witness:
  "\<exists>N'. package_send_named ''a'' [7] (set_rt ex_named py_start) = Some (Inr (VBool True), N')
     \<and> mail_abs (boxes (node_rt N') 0) = ([], [[7]])"
proof -
  have "make_pid 0 1 \<noteq> (0 :: pid)" by (simp add: make_pid_def)
  then have "mailboxes ex_named 0 = None"
    and "\<exists>R. Runtime_send_named ''a'' (User [7]) ex_named = (Inr (), R) \<and> mail_abs (boxes R 0) = ([], [[7]])"
    by (simp_all add: ex_named_def Runtime_register_def NameRegistry_register_def Runtime_send_named_def Runtime_resolve_def
        NameRegistry_resolve_def Runtime_spawn_handler_with_budget_def spawn_task_def remove_mailbox_def Runtime_new_def
        SlabAllocator_allocate_def SlabAllocator_new_def Let_def Runtime_send_def MailboxSender_send_def channel_def
        chan_defs mail_abs_def)
  with package_send_named_agrees [of "set_rt ex_named py_start" "''a''" "[7]"] show ?thesis
    by (auto simp: set_rt_def)
qed

text \<open>
  A program that uses only the package stays among the states of \<open>PyApi\<close>, with the invariants proved
  there: a method that returns or raises leaves a reachable node.
\<close>

theorem package_keeps_reachable:
  assumes "py_reachable n N" and "\<forall>pc. calls_of c pc \<longrightarrow> call_ok n pc N" and "pkg_exec c N = Some (res, N')"
  shows "py_reachable n N'"
  using pkg_exec_call [OF assms(3)] assms(1,2) by (auto intro: py_reachable.step py_step.call)

end
