(* ===== verification/NodeMembrane.thy ===== *)
theory NodeMembrane
  imports Pool Server PyMembrane
begin

text \<open>
  \<^verbatim>\<open>src/node.rs\<close>: the Node binding. An \<^verbatim>\<open>i64\<close> is an integer, \<^verbatim>\<open>pid as i64\<close> is \<open>sint\<close> and \<^verbatim>\<open>pid as u64\<close> is
  \<open>of_int\<close>. What JavaScript gets of an \<^verbatim>\<open>i64\<close> is a \<^verbatim>\<open>Number\<close>; that conversion belongs to N-API and is
  the parameter \<open>js\<close> of the round trip below. \<^verbatim>\<open>message_to_js\<close> does not type-check (its tuple has two
  components in some arms and four in another, and \<^verbatim>\<open>reason\<close> and \<^verbatim>\<open>metadata\<close> are not bound), so a
  push actor is modelled up to the message it passes to the callback.
\<close>

record JsSystemMessage =
  js_type_name :: string
  js_target_pid :: "int option"
  js_reason :: "string option"
  js_metadata :: "string option"

record WrappedMessage =
  js_data :: "bytes option"
  js_system :: "JsSystemMessage option"

definition as_i64 :: "u64 \<Rightarrow> int" where
  "as_i64 p = sint p"

definition as_u64 :: "int \<Rightarrow> u64" where
  "as_u64 i = of_int i"

definition js_reason_text :: "ExitReason \<Rightarrow> string option" where
  "js_reason_text r =
     (case r of
        Normal \<Rightarrow> Some ''normal'' | Panic \<Rightarrow> Some ''panic'' | Timeout \<Rightarrow> Some ''timeout''
      | Killed \<Rightarrow> Some ''killed'' | Oom \<Rightarrow> Some ''oom'' | Other s \<Rightarrow> Some s)"

fun WrappedMessage_from :: "Message \<Rightarrow> WrappedMessage" where
  "WrappedMessage_from (User b) = \<lparr>js_data = Some b, js_system = None\<rparr>"
| "WrappedMessage_from (System s) =
     (let (type_name, target_pid, reason, metadata) =
        (case s of
           Exit info \<Rightarrow> (''EXIT'', Some (as_i64 (from_pid info)), js_reason_text (reason info), metadata info)
         | HotSwap _ \<Rightarrow> (''HOT_SWAP'', None, None, None)
         | Ping \<Rightarrow> (''PING'', None, None, None)
         | Pong \<Rightarrow> (''PONG'', None, None, None))
      in \<lparr>js_data = None, js_system = Some \<lparr>js_type_name = type_name, js_target_pid = target_pid,
           js_reason = reason, js_metadata = metadata\<rparr>\<rparr>)"

section \<open>The pull mailbox\<close>

text \<open>
  \<^verbatim>\<open>recv\<close>: \<open>es\<close> are the events that wake the future; \<open>timed\<close> says that a timeout ends the wait after
  them. The outer \<open>None\<close> says that the call still waits.
\<close>

definition JsMailbox_recv ::
    "bool \<Rightarrow> mail_op list \<Rightarrow> mailbox \<Rightarrow> WrappedMessage option option \<times> mailbox" where
  "JsMailbox_recv timed es mb =
     (case poll_until MailboxReceiver_recv es mb of
        (Ready (Some msg), mb) \<Rightarrow> (Some (Some (WrappedMessage_from msg)), mb)
      | (Ready None, mb) \<Rightarrow> (Some None, mb)
      | (Pending, mb) \<Rightarrow> (if timed then Some None else None, mb))"

text \<open>The loop that keeps a pull actor alive, over the strong counts it reads once a second.\<close>

fun keep_alive :: "nat list \<Rightarrow> bool" where
  "keep_alive [] = True"
| "keep_alive (c # cs) = (if c \<le> 1 then False else keep_alive cs)"

section \<open>Push actors\<close>

record js_behavior =
  js_current :: usize
  js_calls :: "(usize \<times> Message) list"

definition node_handle :: "Message \<Rightarrow> js_behavior \<Rightarrow> js_behavior" where
  "node_handle msg h =
     (case msg of
        System (HotSwap ptr) \<Rightarrow> h\<lparr>js_current := ptr\<rparr>
      | _ \<Rightarrow> h\<lparr>js_calls := js_calls h @ [(js_current h, msg)]\<rparr>)"

section \<open>The runtime object\<close>

definition budget_or_default :: "u32 option \<Rightarrow> usize" where
  "budget_or_default budget = ucast (case budget of Some b \<Rightarrow> b | None \<Rightarrow> 100)"

definition NodeRuntime_new :: Runtime where
  "NodeRuntime_new = Runtime_new"

text \<open>\<open>tsfn\<close> is the outcome of \<^verbatim>\<open>create_threadsafe_function\<close>, which belongs to N-API: an error that \<^verbatim>\<open>?\<close> returns, or none.\<close>

definition NodeRuntime_spawn :: "string option \<Rightarrow> u32 option \<Rightarrow> Runtime \<Rightarrow> ((string + int) \<times> Runtime) option" where
  "NodeRuntime_spawn tsfn budget R =
     (let budget = budget_or_default budget in
      case tsfn of
        Some e \<Rightarrow> Some (Inl e, R)
      | None \<Rightarrow> map_option (\<lambda>(p, R). (Inr (as_i64 p), R)) (Runtime_spawn_handler_with_budget budget R))"

definition NodeRuntime_spawn_with_mailbox ::
    "string option \<Rightarrow> u32 option \<Rightarrow> Runtime \<Rightarrow> ((string + int) \<times> Runtime) option" where
  "NodeRuntime_spawn_with_mailbox tsfn budget R =
     (let budget = budget_or_default budget in
      case tsfn of
        Some e \<Rightarrow> Some (Inl e, R)
      | None \<Rightarrow> map_option (\<lambda>(p, R). (Inr (as_i64 p), R)) (Runtime_spawn_actor_with_budget budget R))"

definition NodeRuntime_send :: "int \<Rightarrow> bytes \<Rightarrow> Runtime \<Rightarrow> bool \<times> Runtime" where
  "NodeRuntime_send i data R = (case Runtime_send (as_u64 i) (User data) R of (res, R) \<Rightarrow> (res = Inr (), R))"

definition NodeRuntime_send_named :: "string \<Rightarrow> bytes \<Rightarrow> Runtime \<Rightarrow> bool \<times> Runtime" where
  "NodeRuntime_send_named name data R =
     (case Runtime_send_named name (User data) R of (res, R) \<Rightarrow> (res = Inr (), R))"

definition NodeRuntime_register :: "string \<Rightarrow> int \<Rightarrow> Runtime \<Rightarrow> Runtime" where
  "NodeRuntime_register name i R = Runtime_register name (as_u64 i) R"

definition NodeRuntime_resolve :: "Runtime \<Rightarrow> string \<Rightarrow> int option" where
  "NodeRuntime_resolve R name = map_option as_i64 (Runtime_resolve R name)"

definition NodeRuntime_resolve_remote ::
    "io_error option \<Rightarrow> string \<Rightarrow> Runtime \<Rightarrow> writer \<Rightarrow> reader \<Rightarrow> int option" where
  "NodeRuntime_resolve_remote dial name R w r = map_option as_i64 (Runtime_resolve_remote_async dial name R w r)"

definition NodeRuntime_listen :: "io_error option \<Rightarrow> Runtime \<Rightarrow> server option" where
  "NodeRuntime_listen bind R = Runtime_listen bind R"

definition NodeRuntime_send_remote :: "string \<Rightarrow> int \<Rightarrow> bytes \<Rightarrow> pool_sys \<Rightarrow> pool_sys" where
  "NodeRuntime_send_remote a i data P = Runtime_send_remote a (as_u64 i) data P"

definition NodeRuntime_monitor_remote ::
    "(f64 \<Rightarrow> duration \<Rightarrow> duration option) \<Rightarrow> pid list \<Rightarrow> int \<Rightarrow> ((Runtime \<Rightarrow> Runtime) \<times> bool) list
       \<Rightarrow> Runtime \<Rightarrow> monitor option \<times> nat \<times> Runtime" where
  "NodeRuntime_monitor_remote scale ks i rounds R = Runtime_monitor_remote scale ks (as_u64 i) rounds R"

definition NodeRuntime_is_node_up :: "io_error option \<Rightarrow> bool" where
  "NodeRuntime_is_node_up dial = (dial = None)"

definition NodeRuntime_stop :: "int \<Rightarrow> Runtime \<Rightarrow> Runtime" where
  "NodeRuntime_stop i R = Runtime_stop (as_u64 i) R"

text \<open>\<^verbatim>\<open>join\<close> over the states of the runtime at its polls: whether it has returned.\<close>

fun NodeRuntime_join :: "int \<Rightarrow> Runtime list \<Rightarrow> bool" where
  "NodeRuntime_join i [] = False"
| "NodeRuntime_join i (R # Rs) = (if Runtime_is_alive R (as_u64 i) then NodeRuntime_join i Rs else True)"

definition NodeRuntime_is_alive :: "Runtime \<Rightarrow> int \<Rightarrow> bool" where
  "NodeRuntime_is_alive R i = Runtime_is_alive R (as_u64 i)"

definition NodeRuntime_children_count :: "Runtime \<Rightarrow> u32" where
  "NodeRuntime_children_count R = of_nat (Supervisor_children_count (sup (sups R 0)))"

definition NodeRuntime_child_pids :: "pid list \<Rightarrow> Runtime \<Rightarrow> int list" where
  "NodeRuntime_child_pids ks R = map as_i64 (Supervisor_child_pids ks (sup (sups R 0)))"

definition NodeRuntime_hot_swap :: "string option \<Rightarrow> int \<Rightarrow> usize \<Rightarrow> Runtime \<Rightarrow> (string + unit) \<times> Runtime" where
  "NodeRuntime_hot_swap tsfn i ptr R =
     (case tsfn of Some e \<Rightarrow> (Inl e, R) | None \<Rightarrow> (Inr (), Runtime_hot_swap (as_u64 i) ptr R))"

definition NodeRuntime_spawn_observed_handler :: "u32 option \<Rightarrow> Runtime \<Rightarrow> (int \<times> Runtime) option" where
  "NodeRuntime_spawn_observed_handler budget R =
     map_option (\<lambda>(p, R). (as_i64 p, R)) (Runtime_spawn_observed_handler (budget_or_default budget) R)"

definition NodeRuntime_get_messages :: "Runtime \<Rightarrow> int \<Rightarrow> WrappedMessage list" where
  "NodeRuntime_get_messages R i =
     (case Runtime_get_observed_messages R (as_u64 i) of Some ms \<Rightarrow> map WrappedMessage_from ms | None \<Rightarrow> [])"

definition NodeRuntime_watch :: "int \<Rightarrow> string \<Rightarrow> Runtime \<Rightarrow> (string + unit) \<times> Runtime" where
  "NodeRuntime_watch i strat R =
     (case parse_strategy strat of
        None \<Rightarrow> (Inl ''Invalid strategy'', R)
      | Some st \<Rightarrow>
          let p = as_u64 i
          in (Inr (), sup_call 0 (AddChild p \<lparr>factory = ReturnPid p, strategy = st\<rparr>) R))"

section \<open>Lemmas\<close>

lemma as_u64_i64 [simp]: "as_u64 (as_i64 p) = p"
  by (simp add: as_u64_def as_i64_def)

lemma as_i64_eq_iff [simp]: "as_i64 p = as_i64 q \<longleftrightarrow> p = q"
  by (metis as_u64_i64)

lemma as_i64_small:
  assumes "unat p < 2 ^ 53"
  shows "0 \<le> as_i64 p" and "as_i64 p < 2 ^ 53"
proof -
  have n: "uint p = int (unat p)" by simp
  have "int (unat p) < int (2 ^ 53)" using assms by (simp only: of_nat_less_iff)
  then have u: "0 \<le> uint p" "uint p < 2 ^ 53" unfolding n by simp_all
  then have "signed_take_bit 63 (uint p) = uint p"
    by (intro signed_take_bit_int_eq_self) (auto intro: order_trans [of _ "0::int"])
  then have "as_i64 p = uint p" by (simp add: as_i64_def sint_uint)
  with u show "0 \<le> as_i64 p" "as_i64 p < 2 ^ 53" by auto
qed

lemma small_generation:
  assumes "unat (snd (split_pid p)) < 2 ^ 21"
  shows "unat p < 2 ^ 53"
proof -
  have "unat (snd (split_pid p)) = (unat p div 2 ^ 32) mod 2 ^ 32"
    by (simp add: split_pid_def unat_drop_bit_eq drop_bit_eq_div unsigned_ucast_eq take_bit_eq_mod unat_div_distrib)
  moreover have "unat p < 2 ^ 64" using unsigned_less [of p] by simp
  ultimately show ?thesis using assms by simp
qed

lemma js_reason_text: "js_reason_text r = Some (reason_text r)"
  by (simp add: js_reason_text_def reason_text_def split: ExitReason.split)

section \<open>Properties\<close>

text \<open>
  The two bindings show the same of a message. Two messages look alike to JavaScript exactly when
  they look alike to Python: only the pointer of a hot swap is hidden, and an exit reason is known by
  its text.
\<close>

theorem bindings_show_the_same:
  "WrappedMessage_from m = WrappedMessage_from m' \<longleftrightarrow> message_to_py m = message_to_py m'"
  by (cases m rule: message_to_py.cases; cases m' rule: message_to_py.cases) (simp_all add: js_reason_text)

lemma node_join_wait: "NodeRuntime_join i Rs = Runtime_wait (as_u64 i) Rs"
  by (induction Rs) simp_all

lemmas node_calls = NodeRuntime_is_alive_def NodeRuntime_send_def NodeRuntime_register_def NodeRuntime_resolve_def
  NodeRuntime_stop_def NodeRuntime_hot_swap_def NodeRuntime_get_messages_def NodeRuntime_watch_def
  NodeRuntime_send_remote_def NodeRuntime_monitor_remote_def node_join_wait

text \<open>The spawns that JavaScript can call, by the identifier of the new actor.\<close>

lemma node_spawns:
  assumes "NodeRuntime_spawn tsfn b R = Some (Inr i, R') \<or> NodeRuntime_spawn_with_mailbox tsfn b R = Some (Inr i, R')
      \<or> NodeRuntime_spawn_observed_handler b R = Some (i, R')"
  obtains p k R1 where "spawn_task k R = Some (p, R1)" and "i = as_i64 p" and "slab R' = slab R1"
    and "mailboxes R' = mailboxes R1" and "boxes R' = boxes R1"
  using assms
  by (elim disjE) (auto simp: NodeRuntime_spawn_def NodeRuntime_spawn_with_mailbox_def NodeRuntime_spawn_observed_handler_def
      Runtime_spawn_handler_with_budget_def Runtime_spawn_actor_with_budget_def Runtime_spawn_observed_handler_def Let_def
      split: option.splits)

text \<open>
  C40: an identifier survives the way to JavaScript and back as long as its generation is below
  \<open>2 ^ 21\<close>, given that N-API hands integers below \<open>2 ^ 53\<close> over exactly. Whichever of the three spawns
  returned the number: it stands for a new identifier \<open>p\<close>, which is alive and accepts messages; and in every
  call that takes an identifier (\<^verbatim>\<open>isAlive\<close>, \<^verbatim>\<open>send\<close>, \<^verbatim>\<open>register\<close>, \<^verbatim>\<open>stop\<close>, \<^verbatim>\<open>join\<close>, \<^verbatim>\<open>hotSwap\<close>, \<^verbatim>\<open>getMessages\<close>,
  \<^verbatim>\<open>watch\<close>, \<^verbatim>\<open>sendRemote\<close>, \<^verbatim>\<open>monitorRemote\<close>), at any later time, the number that JavaScript holds does what the
  runtime's call does with \<open>p\<close>; a name registered with it resolves to the same number.
\<close>

theorem node_pid_usable_from_js:
  assumes js: "\<forall>i. \<bar>i\<bar> < 2 ^ 53 \<longrightarrow> js i = i"
    and "rt_reachable R" and "slab_room (slab R)"
    and "NodeRuntime_spawn tsfn b R = Some (Inr i, R') \<or> NodeRuntime_spawn_with_mailbox tsfn b R = Some (Inr i, R')
      \<or> NodeRuntime_spawn_observed_handler b R = Some (i, R')"
    and "unat (snd (split_pid (as_u64 i))) < 2 ^ 21"
  shows "\<exists>p. \<not> Runtime_is_alive R p \<and> Runtime_is_alive R' p \<and> fst (NodeRuntime_send (js i) d R')
    \<and> NodeRuntime_is_alive Q (js i) = Runtime_is_alive Q p
    \<and> NodeRuntime_send (js i) d Q = (case Runtime_send p (User d) Q of (res, Q') \<Rightarrow> (res = Inr (), Q'))
    \<and> NodeRuntime_register name (js i) Q = Runtime_register name p Q
    \<and> NodeRuntime_resolve (NodeRuntime_register name (js i) Q) name = Some i
    \<and> NodeRuntime_stop (js i) Q = Runtime_stop p Q
    \<and> NodeRuntime_join (js i) Qs = Runtime_wait p Qs
    \<and> NodeRuntime_hot_swap None (js i) ptr Q = (Inr (), Runtime_hot_swap p ptr Q)
    \<and> NodeRuntime_get_messages Q (js i)
        = (case Runtime_get_observed_messages Q p of Some ms \<Rightarrow> map WrappedMessage_from ms | None \<Rightarrow> [])
    \<and> (\<forall>st. parse_strategy strat = Some st \<longrightarrow> NodeRuntime_watch (js i) strat Q
        = (Inr (), sup_call 0 (AddChild p \<lparr>factory = ReturnPid p, strategy = st\<rparr>) Q))
    \<and> NodeRuntime_send_remote a (js i) d P = Runtime_send_remote a p d P
    \<and> NodeRuntime_monitor_remote scale ks (js i) rounds Q = Runtime_monitor_remote scale ks p rounds Q"
proof -
  obtain p k R1 where s: "spawn_task k R = Some (p, R1)" and i: "i = as_i64 p" and e: "slab R' = slab R1"
    "mailboxes R' = mailboxes R1" "boxes R' = boxes R1" by (rule node_spawns [OF assms(4)])
  note f = spawned_alive [OF rt_reachable_inv [OF assms(2)] assms(3) s]
  from small_generation [OF assms(5)] as_i64_small [of p] have j: "js (as_i64 p) = as_i64 p" using js by (simp add: i)
  have alive: "\<not> Runtime_is_alive R p" "Runtime_is_alive R' p" using f(1,2) by (simp_all add: Runtime_is_alive_def e)
  have "fst (MailboxSender_send (User d) channel) = Inr ()"
    by (rule send_alive(1)) (simp_all add: channel_wf, simp add: channel_def chan_new_def)
  then have "fst (Runtime_send p (User d) R') = Inr ()"
    by (cases "MailboxSender_send (User d) channel") (simp add: Runtime_send_def f(3,4) e)
  then have "fst (NodeRuntime_send (js i) d R')"
    by (cases "Runtime_send p (User d) R'") (simp add: node_calls i j)
  with alive show ?thesis
    by (intro exI [of _ p]) (simp add: node_calls j i Runtime_resolve_def Runtime_register_def names.look_bind Let_def)
qed

theorem node_pid_usable_from_js_witness:
  "\<exists>i R'. NodeRuntime_spawn None None Runtime_new = Some (Inr i, R') \<and> fst (NodeRuntime_send i [7] R')
     \<and> NodeRuntime_resolve (NodeRuntime_register ''a'' i R') ''a'' = Some i"
proof -
  let ?js = "\<lambda>i :: int. if \<bar>i\<bar> < 2 ^ 53 then i else i div 2048 * 2048"
  obtain R' where "spawn_task (HandlerBody 100 0) Runtime_new = Some (0x100000000, R')"
    by (simp add: spawn_task_def Runtime_new_def SlabAllocator_allocate_def SlabAllocator_new_def Let_def ex_pids)
  then have s: "NodeRuntime_spawn None None Runtime_new = Some (Inr (as_i64 0x100000000), R')"
    by (simp add: NodeRuntime_spawn_def Runtime_spawn_handler_with_budget_def budget_or_default_def)
  have g: "unat (snd (split_pid (as_u64 (as_i64 0x100000000)))) < 2 ^ 21" by (simp add: split_first_pid)
  have js: "\<forall>i. \<bar>i\<bar> < 2 ^ 53 \<longrightarrow> ?js i = i" "?js (as_i64 0x100000000) = as_i64 0x100000000" by (simp_all add: as_i64_def)
  from node_pid_usable_from_js [OF js(1) rt_reachable.start new_room(2) disjI1 [OF s] g, of "[7]" R' "''a''"] s
  show ?thesis unfolding js(2) by blast
qed

text \<open>The callback in force after a list of messages.\<close>

primrec last_swap :: "usize \<Rightarrow> Message list \<Rightarrow> usize" where
  "last_swap d [] = d"
| "last_swap d (m # ms) = last_swap (case m of System (HotSwap ptr) \<Rightarrow> ptr | _ \<Rightarrow> d) ms"

definition is_swap :: "Message \<Rightarrow> bool" where
  "is_swap m = (case m of System (HotSwap _) \<Rightarrow> True | _ \<Rightarrow> False)"

lemma node_handle_current: "js_current (fold node_handle ms h) = last_swap (js_current h) ms"
  by (induction ms arbitrary: h) (auto simp: node_handle_def split: Message.split SystemMessage.split)

text \<open>
  A JavaScript push actor hands every message but the hot swaps to the callback, system messages
  too, in the order it received them, each to the callback installed by the last hot swap before it.
\<close>

theorem node_handler_calls:
  "js_calls (fold node_handle (ms @ [m]) h) =
     js_calls (fold node_handle ms h) @ (if is_swap m then [] else [(last_swap (js_current h) ms, m)])"
  using node_handle_current [of ms h]
  by (cases m) (auto simp: node_handle_def is_swap_def split: SystemMessage.split)

end
