(* ===== verification/Closures.thy ===== *)
theory Closures
  imports Lifecycle
begin

text \<open>
  What \<open>Runtime\<close> leaves out of the two generic spawn functions: where the closure that makes the
  actor's future runs. \<^verbatim>\<open>spawn_actor\<close> calls it in the new task, outside the inner task whose end it
  awaits; \<^verbatim>\<open>spawn_actor_with_budget\<close> calls it in the caller, while the guard of the slab's mutex is
  alive. A closure makes some calls of the runtime and then returns the future or panics. A panic under
  the guard poisons the mutex, and every later \<^verbatim>\<open>lock().unwrap()\<close> panics, also the one with which an
  exit task returns its identifier; a call that locks the slab under the guard waits for ever (the
  mutex is not reentrant).
\<close>

datatype slab_lock = Unlocked | Poisoned | HeldForever

record guarded =
  grt :: Runtime
  lock :: slab_lock

datatype 'a call_result = Returns 'a | Panics | Blocks

text \<open>The calls a closure can make: those of the runtime that change it, and the liveness query.\<close>

datatype closure_call = Call rt_op | AskAlive pid

fun locks_slab :: "closure_call \<Rightarrow> bool" where
  "locks_slab (Call x) = spawns x"
| "locks_slab (AskAlive p) = True"

fun call_exec :: "closure_call \<Rightarrow> Runtime \<Rightarrow> Runtime" where
  "call_exec (Call x) R = the (rt_exec x R)"
| "call_exec (AskAlive p) R = R"

text \<open>The calls of a closure that runs under the guard, and whether it gets through them.\<close>

fun closure_calls :: "closure_call list \<Rightarrow> Runtime \<Rightarrow> bool \<times> Runtime" where
  "closure_calls [] R = (True, R)"
| "closure_calls (x # xs) R = (if locks_slab x then (False, R) else closure_calls xs (call_exec x R))"

text \<open>No task awaits the body: it was not created, or a panic ended it before it could.\<close>

definition without_task :: "Runtime \<Rightarrow> Runtime" where
  "without_task R = R\<lparr>actors := butlast (actors R)\<rparr>"

definition drop_rx :: "addr \<Rightarrow> Runtime \<Rightarrow> Runtime" where
  "drop_rx a R = R\<lparr>boxes := (boxes R)(a := drop_receiver (boxes R a))\<rparr>"

text \<open>\<^verbatim>\<open>self.slab.lock().unwrap()\<close> followed by the rest of a call.\<close>

definition with_slab :: "guarded \<Rightarrow> (guarded \<Rightarrow> 'a call_result \<times> guarded) \<Rightarrow> 'a call_result \<times> guarded" where
  "with_slab G f =
     (case lock G of Unlocked \<Rightarrow> f G | Poisoned \<Rightarrow> (Panics, G) | HeldForever \<Rightarrow> (Blocks, G))"

definition spawn_actor_guarded :: "bool \<Rightarrow> guarded \<Rightarrow> pid call_result \<times> guarded" where
  "spawn_actor_guarded panics G = with_slab G (\<lambda>G.
     case Runtime_spawn_actor (grt G) of
       None \<Rightarrow> (Panics, G\<lparr>lock := Poisoned\<rparr>)
     | Some (p, R) \<Rightarrow>
         (Returns p, G\<lparr>grt := if panics then drop_rx (next_addr (grt G)) (without_task R) else R\<rparr>))"

definition spawn_actor_with_budget_guarded ::
    "closure_call list \<Rightarrow> bool \<Rightarrow> usize \<Rightarrow> guarded \<Rightarrow> pid call_result \<times> guarded" where
  "spawn_actor_with_budget_guarded calls panics budget G = with_slab G (\<lambda>G.
     case Runtime_spawn_actor_with_budget budget (grt G) of
       None \<Rightarrow> (Panics, G\<lparr>lock := Poisoned\<rparr>)
     | Some (p, R) \<Rightarrow>
         (case closure_calls calls R of
            (False, R') \<Rightarrow> (Blocks, \<lparr>grt = without_task R', lock = HeldForever\<rparr>)
          | (True, R') \<Rightarrow>
              if panics then (Panics, \<lparr>grt = drop_rx (next_addr (grt G)) (without_task R'), lock = Poisoned\<rparr>)
              else (Returns p, G\<lparr>grt := R'\<rparr>)))"

definition is_alive_guarded :: "pid \<Rightarrow> guarded \<Rightarrow> bool call_result \<times> guarded" where
  "is_alive_guarded p G = with_slab G (\<lambda>G. (Returns (Runtime_is_alive (grt G) p), G))"

text \<open>
  A step of an exit task; only the one that returns the identifier locks the slab. A task that panics
  there, or waits there, leaves the runtime as it is.
\<close>

definition exit_step_guarded ::
    "(addr \<Rightarrow> pid list) \<Rightarrow> string list \<Rightarrow> actor \<Rightarrow> guarded \<Rightarrow> actor call_result \<times> guarded" where
  "exit_step_guarded ord ps t G =
     (let run = \<lambda>G. case exit_step ord ps t (grt G) of (t', R) \<Rightarrow> (Returns t', G\<lparr>grt := R\<rparr>)
      in if pc t = ExDeallocate then with_slab G run else run G)"

section \<open>Lemmas\<close>

lemma with_slab_simps [simp]:
  "lock G = Unlocked \<Longrightarrow> with_slab G f = f G"
  "lock G = Poisoned \<Longrightarrow> with_slab G f = (Panics, G)"
  "lock G = HeldForever \<Longrightarrow> with_slab G f = (Blocks, G)"
  by (simp_all add: with_slab_def)

lemma call_exec_reachable: "\<not> locks_slab x \<Longrightarrow> rt_reachable R \<Longrightarrow> rt_reachable (call_exec x R)"
proof (cases x)
  case (Call y)
  assume "\<not> locks_slab x" and r: "rt_reachable R"
  then have "\<not> spawns y" using Call by simp
  moreover from this obtain R' where "rt_exec y R = Some R'" by (cases y) auto
  ultimately show ?thesis using rt_exec_reachable [OF r, of y R'] Call by simp
qed simp

lemma closure_calls_free:
  "(\<forall>x\<in>set xs. \<not> locks_slab x) \<Longrightarrow> rt_reachable R \<Longrightarrow>
     \<exists>R'. closure_calls xs R = (True, R') \<and> rt_reachable R'"
  by (induction xs arbitrary: R) (auto simp: call_exec_reachable)

lemma closure_calls_lock: "fst (closure_calls xs R) \<longleftrightarrow> (\<forall>x\<in>set xs. \<not> locks_slab x)"
  by (induction xs arbitrary: R) auto

lemma spawn_actor_total:
  assumes "rt_reachable R"
  obtains p R' where "spawn_task b R = Some (p, R')"
proof -
  have "slab_inv (slab R)" using rt_reachable_inv [OF assms] by (simp add: rt_inv_def pids_ok_def)
  then show thesis using that slab.alloc_total by (fastforce simp: spawn_task_def Let_def)
qed

lemma send_to_dropped:
  assumes "mailboxes R p = Some a"
  shows "fst (Runtime_send p m (drop_rx a R)) = Inl m"
  using assms by (cases m) (auto simp: Runtime_send_def MailboxSender_send_def chan_send_def Let_def
      drop_rx_def drop_receiver_def chan_drop_rx_def split: prod.splits)

lemma wait_same: "Runtime_is_alive R p \<Longrightarrow> \<not> Runtime_wait p (replicate n R)"
  by (induction n) auto

section \<open>What a closure can do to the runtime\<close>

text \<open>
  A closure that returns and makes no call that locks the slab is harmless: in a reachable runtime with
  room the spawn returns an identifier and leaves the mutex free and the runtime reachable.
\<close>

theorem well_behaved_closure:
  assumes "rt_reachable (grt G)" and "slab_room (slab (grt G))" and "lock G = Unlocked"
    and "\<forall>x\<in>set calls. \<not> locks_slab x"
  shows "\<exists>p G'. spawn_actor_with_budget_guarded calls False budget G = (Returns p, G')
    \<and> rt_reachable (grt G') \<and> lock G' = Unlocked"
proof -
  obtain p R where s: "Runtime_spawn_actor_with_budget budget (grt G) = Some (p, R)"
    by (metis spawn_actor_total [OF assms(1)] Runtime_spawn_actor_with_budget_def)
  then have "rt_reachable R"
    using rt_exec_reachable [OF assms(1) disjI1 [OF assms(2)], of "SpawnActorBudget budget" R] by simp
  with closure_calls_free [OF assms(4)] obtain R' where "closure_calls calls R = (True, R')" "rt_reachable R'"
    by blast
  with s assms(3) show ?thesis by (simp add: spawn_actor_with_budget_guarded_def)
qed

text \<open>
  A closure that panics in \<^verbatim>\<open>spawn_actor\<close> leaks its actor: the identifier returned stays alive with no
  task that could ever return it, every send to it fails, and a wait for its end does not return.
\<close>

theorem panicking_closure_leaks_actor:
  assumes "rt_reachable (grt G)" and "slab_room (slab (grt G))" and "lock G = Unlocked"
  shows "\<exists>p G'. spawn_actor_guarded True G = (Returns p, G') \<and> Runtime_is_alive (grt G') p
    \<and> (\<forall>t\<in>set (actors (grt G')). holds_pid t \<longrightarrow> apid t \<noteq> p)
    \<and> (\<forall>m. fst (Runtime_send p m (grt G')) = Inl m) \<and> (\<forall>n. \<not> Runtime_wait p (replicate n (grt G')))"
proof -
  obtain p R where s: "spawn_task FreeBody (grt G) = Some (p, R)" by (rule spawn_actor_total [OF assms(1)])
  note inv = rt_reachable_inv [OF assms(1)]
  note f = spawned_alive [OF inv assms(2) s]
  let ?W = "without_task R" and ?a = "next_addr (grt G)"
  let ?G = "G\<lparr>grt := drop_rx ?a ?W\<rparr>"
  have run: "spawn_actor_guarded True G = (Returns p, ?G)"
    using s assms(3) by (simp add: spawn_actor_guarded_def Runtime_spawn_actor_def)
  have alive: "Runtime_is_alive (grt ?G) p" using f(1) by (simp add: Runtime_is_alive_def drop_rx_def without_task_def)
  have "actors (grt ?G) = actors (grt G)"
    using s by (auto simp: drop_rx_def without_task_def spawn_task_def remove_mailbox_def Let_def split: option.splits prod.splits)
  moreover have "\<forall>t\<in>set (actors (grt G)). holds_pid t \<longrightarrow> apid t \<noteq> p"
    using f(2) inv by (auto simp: rt_inv_def pids_ok_def Runtime_is_alive_def set_eq_iff image_iff)
  moreover have "fst (Runtime_send p m (grt ?G)) = Inl m" for m
    using send_to_dropped [of ?W p ?a m] f(3) by (simp add: without_task_def)
  ultimately show ?thesis using run alive wait_same [OF alive] by (intro exI [of _ p] exI [of _ ?G]) simp
qed

text \<open>
  A closure that panics in \<^verbatim>\<open>spawn_actor_with_budget\<close>, or asks there whether an actor is alive or spawns
  another, takes the slab from everyone: no later spawn or liveness query returns, whatever its
  arguments, and an exit task that comes to return its identifier stops there.
\<close>

theorem closure_under_guard_ends_runtime:
  assumes "rt_reachable (grt G)" and "lock G = Unlocked" and "panics \<or> (\<exists>x\<in>set calls. locks_slab x)"
    and "spawn_actor_with_budget_guarded calls panics budget G = (r, G')"
  shows "r \<noteq> Returns p"
    and "fst (spawn_actor_guarded b G') \<noteq> Returns q"
    and "fst (spawn_actor_with_budget_guarded cs b n G') \<noteq> Returns q"
    and "fst (is_alive_guarded q G') \<noteq> Returns v"
    and "pc t = ExDeallocate \<Longrightarrow> \<forall>t'. fst (exit_step_guarded ord ps t G') \<noteq> Returns t'"
proof -
  obtain p' R where s: "spawn_task FreeBody (grt G) = Some (p', R)" by (rule spawn_actor_total [OF assms(1)])
  have l: "lock G' \<noteq> Unlocked \<and> r \<noteq> Returns p"
    using s assms(2-4) closure_calls_lock [of calls R]
    by (auto simp: spawn_actor_with_budget_guarded_def Runtime_spawn_actor_with_budget_def
        split: prod.splits bool.splits if_splits)
  show "r \<noteq> Returns p" using l by simp
  show "fst (spawn_actor_guarded b G') \<noteq> Returns q" "fst (spawn_actor_with_budget_guarded cs b n G') \<noteq> Returns q"
    "fst (is_alive_guarded q G') \<noteq> Returns v"
    "pc t = ExDeallocate \<Longrightarrow> \<forall>t'. fst (exit_step_guarded ord ps t G') \<noteq> Returns t'"
    using l by (cases "lock G'"; simp add: spawn_actor_guarded_def spawn_actor_with_budget_guarded_def
        is_alive_guarded_def exit_step_guarded_def)+
qed

end
