(* ===== verification/GilThreads.thy ===== *)
theory GilThreads
  imports PyMembrane
begin

text \<open>
  The threads that \<^verbatim>\<open>spawn_py_handler\<close> (\<^verbatim>\<open>src/py.rs\<close>) starts to run Python callbacks outside the async
  workers: one dedicated thread per actor, and the workers of the shared pool. \<open>PyMembrane\<close> has the
  work such a thread does with a message; here is the loop around it, step by step: the check that the
  interpreter is initialized, the receive with a timeout of 100 ms, the second check, and the call
  under the interpreter lock. The interpreter may be finalized between any two steps.
  \<^verbatim>\<open>Python::with_gil\<close> panics when the interpreter is not initialized (the crate is built without
  \<^verbatim>\<open>auto-initialize\<close>); the panic ends the thread (\<open>WPanicked\<close>).

  What both loops have in common is stated in the locale \<open>worker_loop\<close>. The system of all dedicated
  threads with the counter \<^verbatim>\<open>RELEASE_GIL_THREADS\<close>, the handlers that feed them and the shutdown is
  \<open>thread_exec\<close>.
\<close>

datatype 'm wphase = WCheck | WRecv | WGot 'm | WCall 'm | WGone | WPanicked

text \<open>A worker: where it is in its loop, the channel it reads, and what it has done to the callbacks.\<close>

type_synonym ('m, 'h) worker = "'m wphase \<times> 'm list \<times> 'h"

section \<open>The two loops\<close>

text \<open>
  \<open>up\<close> says whether the interpreter is initialized, \<open>connected\<close> whether a sender of the channel is left.
  A receive from an empty channel times out, or finds it disconnected.
\<close>

definition recv_timeout :: "bool \<Rightarrow> 'm list \<Rightarrow> 'm wphase \<times> 'm list" where
  "recv_timeout connected q =
     (case q of m # q \<Rightarrow> (WGot m, q) | [] \<Rightarrow> (if connected then WCheck else WGone, []))"

definition dedicated_step ::
    "bool \<Rightarrow> bool \<Rightarrow> (Message, behavior) worker \<Rightarrow> (Message, behavior) worker" where
  "dedicated_step up connected w =
     (case w of (ph, q, h) \<Rightarrow>
      case ph of
        WCheck \<Rightarrow> (if \<not> up then WGone else WRecv, q, h)
      | WRecv \<Rightarrow> (case recv_timeout connected q of (ph, q) \<Rightarrow> (ph, q, h))
      | WGot m \<Rightarrow>
          (case m of
             System (HotSwap ptr) \<Rightarrow> (if \<not> up then WCheck else WCall m, q, h)
           | User b \<Rightarrow> (if \<not> up then WCheck else WCall m, q, h)
           | System (Exit _) \<Rightarrow> (WGone, q, h)
           | System Ping \<Rightarrow> (WCheck, q, h)
           | System Pong \<Rightarrow> (WCheck, q, h))
      | WCall m \<Rightarrow> if \<not> up then (WPanicked, q, h) else (WCheck, q, snd (thread_message m h))
      | WGone \<Rightarrow> w
      | WPanicked \<Rightarrow> w)"

definition pool_worker_step ::
    "bool \<Rightarrow> bool \<Rightarrow> (PoolTask, nat \<Rightarrow> behavior) worker \<Rightarrow> (PoolTask, nat \<Rightarrow> behavior) worker" where
  "pool_worker_step up connected w =
     (case w of (ph, q, hs) \<Rightarrow>
      case ph of
        WCheck \<Rightarrow> (if \<not> up then WGone else WRecv, q, hs)
      | WRecv \<Rightarrow> (case recv_timeout connected q of (ph, q) \<Rightarrow> (ph, q, hs))
      | WGot t \<Rightarrow> (if \<not> up then WGone else WCall t, q, hs)
      | WCall t \<Rightarrow> if \<not> up then (WPanicked, q, hs) else (WCheck, q, pool_execute t hs)
      | WGone \<Rightarrow> w
      | WPanicked \<Rightarrow> w)"

section \<open>What the loops have in common\<close>

definition over :: "'m wphase \<Rightarrow> bool" where
  "over ph \<longleftrightarrow> ph = WGone \<or> ph = WPanicked"

text \<open>How many steps a worker has left at most once the interpreter is down.\<close>

fun down_rank :: "'m wphase \<Rightarrow> nat" where
  "down_rank WRecv = 3"
| "down_rank (WGot _) = 2"
| "down_rank WCheck = 1"
| "down_rank (WCall _) = 1"
| "down_rank WGone = 0"
| "down_rank WPanicked = 0"

lemma down_rank_over: "down_rank ph = 0 \<longleftrightarrow> over ph"
  by (cases ph) (simp_all add: over_def)

lemma down_rank_le: "down_rank ph \<le> 3"
  by (cases ph) simp_all

text \<open>The message a worker holds.\<close>

fun in_hand :: "'m wphase \<Rightarrow> 'm list" where
  "in_hand (WGot m) = [m]"
| "in_hand (WCall m) = [m]"
| "in_hand _ = []"

locale worker_loop =
  fixes step :: "bool \<Rightarrow> bool \<Rightarrow> ('m, 'h) worker \<Rightarrow> ('m, 'h) worker"
    and run :: "'m \<Rightarrow> 'h \<Rightarrow> 'h"
    and ends :: "'m \<Rightarrow> bool"
  assumes check: "step up c (WCheck, q, h) = (if up then WRecv else WGone, q, h)"
    and recv: "step up c (WRecv, q, h) = (fst (recv_timeout c q), snd (recv_timeout c q), h)"
    and got: "\<not> ends m \<Longrightarrow> step True c (WGot m, q, h) = (WCall m, q, h)
      \<or> step True c (WGot m, q, h) = (WCheck, q, h) \<and> run m h = h"
    and got_end: "ends m \<Longrightarrow> step up c (WGot m, q, h) = (WGone, q, h)"
    and got_down: "step False c (WGot m, q, h) = (WCheck, q, h) \<or> step False c (WGot m, q, h) = (WGone, q, h)"
    and call: "step up c (WCall m, q, h) = (if up then (WCheck, q, run m h) else (WPanicked, q, h))"
    and stays: "over ph \<Longrightarrow> step up c (ph, q, h) = (ph, q, h)"
begin

lemma stays_gone: "(step up c ^^ n) (WGone, q, h) = (WGone, q, h)"
  by (induction n) (simp_all add: stays over_def)

text \<open>With the interpreter down a step runs nothing and brings the worker nearer to its end.\<close>

lemma down:
  assumes "step False c (ph, q, h) = (ph', q', h')"
  shows "h' = h \<and> (down_rank ph' < down_rank ph \<or> over ph)"
proof (cases ph)
  case (WGot m)
  with assms got_down [of c m q h] show ?thesis by auto
qed (use assms in \<open>auto simp: check recv call stays over_def recv_timeout_def split: list.splits if_splits\<close>)

text \<open>A worker never panics while the interpreter is up.\<close>

lemma no_panic:
  assumes "step True c (ph, q, h) = (ph', q', h')" and "ph \<noteq> WPanicked"
  shows "ph' \<noteq> WPanicked"
proof (cases ph)
  case (WGot m)
  with assms got [of m c q h] got_end [of m True c q h] show ?thesis by (cases "ends m") auto
qed (use assms in \<open>auto simp: check recv call stays over_def recv_timeout_def split: list.splits if_splits\<close>)

text \<open>Without senders the worker runs everything that waits, in order, and ends.\<close>

lemma drains:
  "\<forall>m\<in>set q. \<not> ends m \<Longrightarrow> 4 * length q + 2 \<le> n \<Longrightarrow>
     (step True False ^^ n) (WCheck, q, h) = (WGone, [], fold run q h)"
proof (induction q arbitrary: h n)
  case Nil
  then obtain k where "n = Suc (Suc k)" by (metis add_2_eq_Suc le_Suc_ex mult_0_right list.size(3) add_0)
  then show ?case by (simp add: funpow_swap1 check recv recv_timeout_def stays_gone)
next
  case (Cons m q)
  then obtain k where n: "n = Suc (Suc (Suc (Suc k)))" and k: "4 * length q + 2 \<le> k"
    using le_Suc_ex [of "Suc (Suc (Suc (Suc (4 * length q + 2))))" n] by auto
  have two: "(step True False ^^ n) (WCheck, m # q, h) = (step True False ^^ Suc (Suc k)) (WGot m, q, h)"
    by (simp add: n funpow_swap1 check recv recv_timeout_def)
  have "\<not> ends m" using Cons.prems(1) by simp
  from got [OF this, of False q h] show ?case
  proof
    assume "step True False (WGot m, q, h) = (WCall m, q, h)"
    with two Cons.IH [of k "run m h"] Cons.prems(1) k show ?thesis by (simp add: funpow_swap1 call)
  next
    assume "step True False (WGot m, q, h) = (WCheck, q, h) \<and> run m h = h"
    with two Cons.IH [of "Suc k" h] Cons.prems(1) k show ?thesis by (auto simp: funpow_swap1)
  qed
qed

lemma finishes:
  assumes "\<forall>m\<in>set (in_hand ph @ q). \<not> ends m" and "ph \<noteq> WPanicked" and "ph = WGone \<longrightarrow> q = []"
    and "4 * length q + 4 \<le> n"
  shows "(step True False ^^ n) (ph, q, h) = (WGone, [], fold run (in_hand ph @ q) h)"
proof (cases ph)
  case WCheck
  with assms show ?thesis by (simp add: drains)
next
  case WRecv
  have "(step True False ^^ Suc n) (WCheck, q, h) = (WGone, [], fold run q h)" using assms WRecv by (simp add: drains del: funpow.simps)
  with WRecv show ?thesis by (simp add: funpow_swap1 check)
next
  case (WCall m)
  obtain k where k: "n = Suc k" "4 * length q + 2 \<le> k" using assms(4) by (cases n) auto
  with assms WCall show ?thesis by (simp add: funpow_swap1 call drains)
next
  case (WGot m)
  obtain k where k: "n = Suc (Suc k)" "4 * length q + 2 \<le> k"
    using assms(4) le_Suc_ex [of "Suc (Suc (4 * length q + 2))" n] by auto
  have "\<not> ends m" using assms(1) WGot by simp
  from got [OF this, of False q h] show ?thesis
  proof
    assume "step True False (WGot m, q, h) = (WCall m, q, h)"
    with assms WGot k show ?thesis by (simp add: funpow_swap1 call drains)
  next
    assume "step True False (WGot m, q, h) = (WCheck, q, h) \<and> run m h = h"
    with assms WGot k drains [of q "Suc k" h] show ?thesis by (auto simp: funpow_swap1)
  qed
qed (use assms stays_gone in auto)

end

interpretation dedicated_worker: worker_loop dedicated_step "\<lambda>m h. snd (thread_message m h)"
    "\<lambda>m. \<exists>i. m = System (Exit i)"
proof
  fix m :: Message and c up q h
  show "\<not> (\<exists>i. m = System (Exit i)) \<Longrightarrow> dedicated_step True c (WGot m, q, h) = (WCall m, q, h)
      \<or> dedicated_step True c (WGot m, q, h) = (WCheck, q, h) \<and> snd (thread_message m h) = h"
    by (cases m rule: message_to_py.cases) (simp_all add: dedicated_step_def thread_message_def)
  show "dedicated_step False c (WGot m, q, h) = (WCheck, q, h) \<or> dedicated_step False c (WGot m, q, h) = (WGone, q, h)"
    by (cases m rule: message_to_py.cases) (simp_all add: dedicated_step_def)
qed (auto simp: dedicated_step_def over_def split: prod.split)

interpretation pool_worker: worker_loop pool_worker_step pool_execute "\<lambda>_. False"
  by unfold_locales (auto simp: pool_worker_step_def over_def split: prod.split)

section \<open>All dedicated threads\<close>

text \<open>
  A dedicated thread with its actor's end of the channel: \<open>first\<close> is the callback it was started with,
  \<open>accepted\<close> a history of the messages the channel took.
\<close>

record dthread =
  work :: "(Message, behavior) worker"
  connected :: bool
  first :: callback
  accepted :: "Message list"

record thread_sys =
  interp :: bool
  gil_count :: nat
  callers :: nat
  pool_made :: bool
  dthreads :: "dthread list"

definition thread_start :: thread_sys where
  "thread_start = \<lparr>interp = True, gil_count = 0, callers = 0, pool_made = False, dthreads = []\<rparr>"

abbreviation phase_of :: "dthread \<Rightarrow> Message wphase" where
  "phase_of t \<equiv> fst (work t)"

abbreviation done_by :: "dthread \<Rightarrow> behavior" where
  "done_by t \<equiv> snd (snd (work t))"

text \<open>
  \<^verbatim>\<open>fetch_add\<close> with the comparison, and the start of the thread; the \<^verbatim>\<open>fetch_sub\<close> of a caller that found the
  limit reached; the handler closure on a message; the end of the actor, which drops the closure; a
  step of a thread, with the \<^verbatim>\<open>fetch_sub\<close> where its loop breaks; the end of the interpreter.
\<close>

datatype thread_event = TReserve nat callback | TBackOut bool | THandle nat Message | TDrop nat | TStep nat | TFinalize

definition new_thread :: "callback \<Rightarrow> dthread" where
  "new_thread f = \<lparr>work = (WCheck, [], \<lparr>current = f, calls = []\<rparr>), connected = True, first = f, accepted = []\<rparr>"

definition send_thread :: "Message \<Rightarrow> dthread \<Rightarrow> dthread" where
  "send_thread m t =
     (case work t of (ph, q, h) \<Rightarrow>
        if over ph then t else t\<lparr>work := (ph, q @ [m], h), accepted := accepted t @ [m]\<rparr>)"

definition upd_thread :: "nat \<Rightarrow> (dthread \<Rightarrow> dthread) \<Rightarrow> thread_sys \<Rightarrow> thread_sys" where
  "upd_thread j f S = S\<lparr>dthreads := (dthreads S)[j := f (dthreads S ! j)]\<rparr>"

fun thread_exec :: "thread_event \<Rightarrow> thread_sys \<Rightarrow> thread_sys option" where
  "thread_exec (TReserve max_threads f) S =
     Some (let prev = gil_count S; S = S\<lparr>gil_count := gil_count S + 1\<rparr> in
       if prev \<ge> max_threads then S\<lparr>callers := callers S + 1\<rparr>
       else S\<lparr>dthreads := dthreads S @ [new_thread f]\<rparr>)"
| "thread_exec (TBackOut strict) S =
     (if callers S = 0 then None
      else Some (S\<lparr>gil_count := gil_count S - 1, callers := callers S - 1, pool_made := pool_made S \<or> \<not> strict\<rparr>))"
| "thread_exec (THandle j m) S =
     (if j < length (dthreads S) \<and> connected (dthreads S ! j) then
        Some (case handle_message j (interp S) True True (pool_made S) m of
                Forward m' \<Rightarrow> upd_thread j (send_thread m') S
              | _ \<Rightarrow> S)
      else None)"
| "thread_exec (TDrop j) S =
     (if j < length (dthreads S) then Some (upd_thread j (\<lambda>t. t\<lparr>connected := False\<rparr>) S) else None)"
| "thread_exec (TStep j) S =
     (if j < length (dthreads S) \<and> \<not> over (phase_of (dthreads S ! j)) then
        let w = dedicated_step (interp S) (connected (dthreads S ! j)) (work (dthreads S ! j));
            S = upd_thread j (\<lambda>t. t\<lparr>work := w\<rparr>) S
        in Some (if fst w = WGone then S\<lparr>gil_count := gil_count S - 1\<rparr> else S)
      else None)"
| "thread_exec TFinalize S = Some (S\<lparr>interp := False\<rparr>)"

fun limit_ok :: "nat \<Rightarrow> thread_event \<Rightarrow> bool" where
  "limit_ok n (TReserve m _) \<longleftrightarrow> m \<le> n"
| "limit_ok n _ \<longleftrightarrow> True"

fun thread_run :: "thread_event list \<Rightarrow> thread_sys \<Rightarrow> thread_sys option" where
  "thread_run [] S = Some S"
| "thread_run (e # es) S = (case thread_exec e S of None \<Rightarrow> None | Some S' \<Rightarrow> thread_run es S')"

inductive thread_reachable :: "nat \<Rightarrow> thread_sys \<Rightarrow> bool" for n where
  start: "thread_reachable n thread_start"
| step: "thread_reachable n S \<Longrightarrow> limit_ok n e \<Longrightarrow> thread_exec e S = Some S' \<Longrightarrow> thread_reachable n S'"

section \<open>The invariant of a thread\<close>

text \<open>
  What a thread has done is what the messages it has run do in order, and these are a first part of
  the accepted ones; with the interpreter up the others are in its hand or in the channel.
\<close>

definition runs :: "Message list \<Rightarrow> callback \<Rightarrow> behavior" where
  "runs ms f = fold run_inline ms \<lparr>current = f, calls = []\<rparr>"

definition thread_ok :: "bool \<Rightarrow> dthread \<Rightarrow> bool" where
  "thread_ok up t \<longleftrightarrow>
     (\<forall>m\<in>set (accepted t). \<forall>i. m \<noteq> System (Exit i))
   \<and> (\<exists>ms rest. accepted t = ms @ rest \<and> done_by t = runs ms (first t)
        \<and> (up \<longrightarrow> rest = in_hand (phase_of t) @ fst (snd (work t))))
   \<and> (up \<longrightarrow> phase_of t \<noteq> WPanicked \<and> (phase_of t = WGone \<longrightarrow> \<not> connected t \<and> fst (snd (work t)) = []))"

lemma thread_message_inline: "\<forall>i. m \<noteq> System (Exit i) \<Longrightarrow> snd (thread_message m h) = run_inline m h"
  by (cases m rule: message_to_py.cases) (simp_all add: thread_message_def)

lemma new_thread_ok: "thread_ok up (new_thread f)"
  by (simp add: thread_ok_def new_thread_def runs_def)

lemma forward_kind: "handle_message j up True True p m = Forward m' \<Longrightarrow> up \<and> m' = m \<and> (\<forall>i. m \<noteq> System (Exit i))"
  by (cases m rule: message_to_py.cases) (auto simp: handle_message_def split: if_splits)

lemma send_thread_ok:
  assumes "thread_ok up t" and "connected t" and "up" and "\<forall>i. m \<noteq> System (Exit i)"
  shows "thread_ok up (send_thread m t)"
proof -
  obtain ph q h where w: "work t = (ph, q, h)" by (metis prod.exhaust)
  from assms(1,3) w obtain ms where "accepted t = ms @ in_hand ph @ q" "h = runs ms (first t)" by (auto simp: thread_ok_def)
  then have "\<exists>ms'. accepted t @ [m] = ms' @ in_hand ph @ q @ [m] \<and> h = runs ms' (first t)" by auto
  with assms w show ?thesis by (auto simp: thread_ok_def send_thread_def)
qed

lemma finalize_ok: "thread_ok up t \<Longrightarrow> thread_ok False t"
  by (auto simp: thread_ok_def)

lemma drop_ok: "thread_ok up t \<Longrightarrow> thread_ok up (t\<lparr>connected := False\<rparr>)"
  by (auto simp: thread_ok_def)

lemma down_step_ok:
  assumes "thread_ok False t"
  shows "thread_ok False (t\<lparr>work := dedicated_step False c (work t)\<rparr>)"
proof -
  obtain ph q h where w: "work t = (ph, q, h)" by (metis prod.exhaust)
  obtain ph' q' h' where d: "dedicated_step False c (ph, q, h) = (ph', q', h')" by (metis prod.exhaust)
  from dedicated_worker.down [OF d] assms w d show ?thesis by (simp add: thread_ok_def)
qed

lemma up_step_ok:
  assumes ok: "thread_ok True t"
  shows "thread_ok True (t\<lparr>work := dedicated_step True (connected t) (work t)\<rparr>)"
proof -
  obtain ph q h where w: "work t = (ph, q, h)" by (metis prod.exhaust)
  from ok w obtain ms where ms: "accepted t = ms @ in_hand ph @ q" "h = runs ms (first t)" by (auto simp: thread_ok_def)
  show ?thesis
  proof (cases ph)
    case (WGot m)
    with ok ms have "\<forall>i. m \<noteq> System (Exit i)" by (auto simp: thread_ok_def)
    with ok ms w WGot show ?thesis
      by (cases m rule: message_to_py.cases) (auto simp: dedicated_step_def thread_ok_def runs_def)
  next
    case (WCall m)
    with ok ms have "\<forall>i. m \<noteq> System (Exit i)" by (auto simp: thread_ok_def)
    then have "snd (thread_message m h) = runs (ms @ [m]) (first t)" by (simp add: thread_message_inline runs_def ms(2))
    with ok ms w WCall show ?thesis by (auto simp: dedicated_step_def thread_ok_def intro!: exI [of _ "ms @ [m]"])
  qed (use ok ms w in \<open>auto simp: dedicated_step_def thread_ok_def recv_timeout_def split: list.split\<close>)
qed

section \<open>The invariant of the system\<close>

lemma all_upd:
  assumes "\<forall>t\<in>set (dthreads S). P t" and "j < length (dthreads S) \<Longrightarrow> P (dthreads S ! j) \<Longrightarrow> P (f (dthreads S ! j))"
  shows "\<forall>t\<in>set (dthreads (upd_thread j f S)). P t"
proof (cases "j < length (dthreads S)")
  case True
  with assms show ?thesis using set_update_subset_insert [of "dthreads S" j "f (dthreads S ! j)"]
    by (auto simp: upd_thread_def)
qed (use assms in \<open>simp add: upd_thread_def list_update_beyond\<close>)

lemma upd_thread_simps [simp]:
  "interp (upd_thread j f S) = interp S" "gil_count (upd_thread j f S) = gil_count S"
  "callers (upd_thread j f S) = callers S" "pool_made (upd_thread j f S) = pool_made S"
  "length (dthreads (upd_thread j f S)) = length (dthreads S)"
  by (simp_all add: upd_thread_def)

lemma upd_thread_nth:
  "k < length (dthreads S) \<Longrightarrow>
     dthreads (upd_thread j f S) ! k = (if k = j then f (dthreads S ! j) else dthreads S ! k)"
  by (simp add: upd_thread_def)

lemma step_ok: "thread_ok up t \<Longrightarrow> thread_ok up (t\<lparr>work := dedicated_step up (connected t) (work t)\<rparr>)"
  using up_step_ok down_step_ok by (cases up) simp_all

lemma thread_exec_ok:
  assumes "thread_exec e S = Some S'" and ok: "\<forall>t\<in>set (dthreads S). thread_ok (interp S) t"
  shows "\<forall>t\<in>set (dthreads S'). thread_ok (interp S') t"
proof (cases e)
  case (TReserve m f)
  with assms show ?thesis by (auto simp: Let_def new_thread_ok split: if_splits)
next
  case (THandle j m)
  show ?thesis
  proof (cases "\<exists>m'. handle_message j (interp S) True True (pool_made S) m = Forward m'")
    case True
    then obtain m' where f: "handle_message j (interp S) True True (pool_made S) m = Forward m'" by blast
    note k = forward_kind [OF this]
    have "\<forall>t\<in>set (dthreads (upd_thread j (send_thread m') S)). thread_ok (interp S) t"
      by (rule all_upd [OF ok]) (use assms(1) THandle k in \<open>auto split: if_splits intro!: send_thread_ok\<close>)
    with assms THandle f show ?thesis by (auto split: if_splits)
  next
    case False
    with assms THandle have "S' = S" by (auto split: if_splits action.splits)
    with ok show ?thesis by simp
  qed
next
  case (TDrop j)
  have "\<forall>t\<in>set (dthreads (upd_thread j (\<lambda>t. t\<lparr>connected := False\<rparr>) S)). thread_ok (interp S) t"
    by (rule all_upd [OF ok]) (rule drop_ok)
  with assms TDrop show ?thesis by (auto split: if_splits)
next
  case (TStep j)
  have "\<forall>t\<in>set (dthreads (upd_thread j (\<lambda>t. t\<lparr>work := dedicated_step (interp S) (connected (dthreads S ! j)) (work (dthreads S ! j))\<rparr>) S)).
      thread_ok (interp S) t"
    by (rule all_upd [OF ok]) (rule step_ok)
  with assms TStep show ?thesis by (auto simp: Let_def split: if_splits)
next
  case TFinalize
  with assms show ?thesis using finalize_ok by fastforce
qed (use assms in \<open>auto split: if_splits\<close>)

lemma thread_reachable_ok: "thread_reachable n S \<Longrightarrow> \<forall>t\<in>set (dthreads S). thread_ok (interp S) t"
proof (induction rule: thread_reachable.induct)
  case start
  show ?case by (simp add: thread_start_def)
qed (rule thread_exec_ok)

section \<open>The counter\<close>

definition abs_gil :: "thread_sys \<Rightarrow> gil" where
  "abs_gil S = \<lparr>threads = gil_count S, dedicated = length (filter (\<lambda>t. phase_of t \<noteq> WGone) (dthreads S)),
     backing_out = callers S, has_pool = pool_made S\<rparr>"

lemma filter_update:
  assumes "j < length xs"
  shows "length (filter P (xs[j := y])) + (if P (xs ! j) then 1 else 0) = length (filter P xs) + (if P y then 1 else 0)"
proof -
  have "filter P xs = filter P (take j xs @ xs ! j # drop (Suc j) xs)" using id_take_nth_drop [OF assms] by simp
  then show ?thesis by (simp add: upd_conv_take_nth_drop [OF assms])
qed

lemma dedicated_upd:
  assumes "j < length (dthreads S)" and "phase_of (f (dthreads S ! j)) = WGone \<longleftrightarrow> phase_of (dthreads S ! j) = WGone"
  shows "dedicated (abs_gil (upd_thread j f S)) = dedicated (abs_gil S)"
  using filter_update [OF assms(1), of "\<lambda>t. phase_of t \<noteq> WGone" "f (dthreads S ! j)"] assms(2)
  by (simp add: abs_gil_def upd_thread_def split: if_splits)

lemma send_thread_phase: "phase_of (send_thread m t) = phase_of t"
  by (simp add: send_thread_def split: prod.split)

lemma thread_exec_gil:
  assumes "thread_exec e S = Some S'" and "limit_ok n e"
  shows "gil_step n (abs_gil S) (abs_gil S') \<or> abs_gil S' = abs_gil S"
proof (cases e)
  case (TReserve m f)
  then have "abs_gil S' = snd (gil_reserve m (abs_gil S))"
    using assms(1) by (auto simp: abs_gil_def gil_reserve_def Let_def new_thread_def)
  with TReserve assms(2) show ?thesis by (simp add: gil_step.reserve)
next
  case (TBackOut strict)
  then have "0 < callers S" and "abs_gil S' = snd (gil_back_out strict (abs_gil S))"
    using assms(1) by (auto simp: abs_gil_def gil_back_out_def Let_def split: if_splits)
  with gil_step.back_out [of "abs_gil S" n strict] show ?thesis by (simp add: abs_gil_def)
next
  case (THandle j m)
  have "abs_gil (upd_thread j (send_thread m') S) = abs_gil S" if "j < length (dthreads S)" for m'
    using dedicated_upd [OF that, of "send_thread m'"] by (simp add: send_thread_phase abs_gil_def)
  with THandle assms(1) show ?thesis by (auto split: if_splits action.splits)
next
  case (TDrop j)
  with assms(1) dedicated_upd [of j S "\<lambda>t. t\<lparr>connected := False\<rparr>"] show ?thesis
    by (auto simp: abs_gil_def split: if_splits)
next
  case (TStep j)
  let ?w = "dedicated_step (interp S) (connected (dthreads S ! j)) (work (dthreads S ! j))"
  let ?f = "\<lambda>t. t\<lparr>work := ?w\<rparr>"
  from TStep assms(1) have j: "j < length (dthreads S)" and o: "\<not> over (phase_of (dthreads S ! j))"
    and S': "S' = (if fst ?w = WGone then (upd_thread j ?f S)\<lparr>gil_count := gil_count S - 1\<rparr> else upd_thread j ?f S)"
    by (auto simp: Let_def split: if_splits)
  note fu = filter_update [OF j, of "\<lambda>t. phase_of t \<noteq> WGone" "?f (dthreads S ! j)"]
  show ?thesis
  proof (cases "fst ?w = WGone")
    case True
    with fu o have "Suc (length (filter (\<lambda>t. phase_of t \<noteq> WGone) (dthreads (upd_thread j ?f S)))) = dedicated (abs_gil S)"
      by (simp add: over_def abs_gil_def upd_thread_def)
    then have "0 < dedicated (abs_gil S)"
      and "length (filter (\<lambda>t. phase_of t \<noteq> WGone) (dthreads (upd_thread j ?f S))) = dedicated (abs_gil S) - 1" by simp_all
    moreover from this True S' have "abs_gil S' = gil_thread_end (abs_gil S)"
      by (simp add: abs_gil_def gil_thread_end_def)
    ultimately show ?thesis using gil_step.thread_end [of "abs_gil S" n] by simp
  next
    case False
    with S' o dedicated_upd [OF j, of ?f] show ?thesis by (simp add: abs_gil_def over_def)
  qed
next
  case TFinalize
  with assms(1) show ?thesis by (auto simp: abs_gil_def)
qed

lemma thread_reachable_gil: "thread_reachable n S \<Longrightarrow> gil_reachable n (abs_gil S)"
proof (induction rule: thread_reachable.induct)
  case start
  show ?case using gil_reachable.start by (simp add: abs_gil_def thread_start_def)
next
  case (step S e S')
  then show ?case using thread_exec_gil [OF step(3,2)] by (metis gil_reachable.step)
qed

section \<open>After the end of the interpreter\<close>

fun own_thread_step :: "nat \<Rightarrow> thread_event \<Rightarrow> bool" where
  "own_thread_step j (TStep k) \<longleftrightarrow> k = j"
| "own_thread_step j _ \<longleftrightarrow> False"

lemma down_exec:
  assumes "thread_exec e S = Some S'" and "\<not> interp S" and "j < length (dthreads S)"
  shows "\<not> interp S' \<and> j < length (dthreads S') \<and> done_by (dthreads S' ! j) = done_by (dthreads S ! j)
    \<and> down_rank (phase_of (dthreads S' ! j)) + (if own_thread_step j e then 1 else 0) \<le> down_rank (phase_of (dthreads S ! j))"
proof (cases e)
  case (TStep k)
  obtain ph q h where w: "work (dthreads S ! k) = (ph, q, h)" by (metis prod.exhaust)
  obtain ph' q' h' where d: "dedicated_step False (connected (dthreads S ! k)) (ph, q, h) = (ph', q', h')"
    by (metis prod.exhaust)
  from assms TStep w d dedicated_worker.down [OF d] show ?thesis
    by (auto simp: Let_def upd_thread_nth split: if_splits)
qed (use assms in \<open>auto simp: Let_def nth_append upd_thread_nth handle_message_def split: if_splits\<close>)

lemma down_run:
  assumes "thread_run es S = Some S'" and "\<not> interp S" and "j < length (dthreads S)"
  shows "done_by (dthreads S' ! j) = done_by (dthreads S ! j)
    \<and> down_rank (phase_of (dthreads S' ! j)) + length (filter (own_thread_step j) es) \<le> down_rank (phase_of (dthreads S ! j))"
  using assms
proof (induction es arbitrary: S)
  case (Cons e es)
  then obtain S1 where S1: "thread_exec e S = Some S1" "thread_run es S1 = Some S'" by (auto split: option.splits)
  from down_exec [OF S1(1) Cons.prems(2,3)] Cons.IH [OF S1(2)] show ?case by (auto split: if_splits)
qed simp

section \<open>The workers of the shared pool\<close>

text \<open>
  All workers read one channel, whose sender is in a static and is never dropped.
\<close>

record worker_pool =
  wphases :: "PoolTask wphase list"
  wqueue :: "PoolTask list"
  wbehaviors :: "nat \<Rightarrow> behavior"

definition GilPool_new :: "nat \<Rightarrow> (nat \<Rightarrow> behavior) \<Rightarrow> worker_pool" where
  "GilPool_new n hs = \<lparr>wphases = replicate n WCheck, wqueue = [], wbehaviors = hs\<rparr>"

definition worker_pool_step :: "bool \<Rightarrow> nat \<Rightarrow> worker_pool \<Rightarrow> worker_pool" where
  "worker_pool_step up i P =
     (case pool_worker_step up True (wphases P ! i, wqueue P, wbehaviors P) of
        (ph, q, hs) \<Rightarrow> \<lparr>wphases = (wphases P)[i := ph], wqueue = q, wbehaviors = hs\<rparr>)"

definition held_tasks :: "worker_pool \<Rightarrow> PoolTask list" where
  "held_tasks P = concat (map in_hand (wphases P))"

definition abstracts :: "worker_pool \<Rightarrow> gil_pool \<Rightarrow> bool" where
  "abstracts P g \<longleftrightarrow> pool_queue g = wqueue P \<and> mset (pool_held g) = mset (held_tasks P) \<and> pool_behaviors g = wbehaviors P"

lemma held_update:
  assumes "i < length phs"
  shows "mset (concat (map in_hand (phs[i := ph]))) + mset (in_hand (phs ! i))
    = mset (concat (map in_hand phs)) + mset (in_hand ph)"
proof -
  have "mset (concat (map in_hand phs)) = mset (concat (map in_hand (take i phs @ phs ! i # drop (Suc i) phs)))"
    using id_take_nth_drop [OF assms] by simp
  then show ?thesis by (simp add: upd_conv_take_nth_drop [OF assms])
qed

lemma in_hand_le: "length (in_hand ph) \<le> 1"
  by (cases ph) simp_all

lemma held_less:
  fixes phs :: "'a wphase list"
  assumes "i < length phs" and "in_hand (phs ! i) = []"
  shows "length (concat (map in_hand phs)) < length phs"
proof -
  have le: "length (concat (map in_hand xs)) \<le> length xs" for xs :: "'a wphase list"
  proof (induction xs)
    case (Cons ph xs)
    then show ?case using in_hand_le [of ph] by simp
  qed simp
  have "length (concat (map in_hand phs)) = length (concat (map in_hand (take i phs @ phs ! i # drop (Suc i) phs)))"
    using id_take_nth_drop [OF assms(1)] by simp
  with assms le [of "take i phs"] le [of "drop (Suc i) phs"] show ?thesis by simp
qed

section \<open>Two runs\<close>

lemma thread_run_reachable:
  "thread_run es S = Some S' \<Longrightarrow> list_all (limit_ok n) es \<Longrightarrow> thread_reachable n S \<Longrightarrow> thread_reachable n S'"
  by (induction es arbitrary: S) (auto split: option.splits intro: thread_reachable.step)

definition ex_used :: "thread_event list" where
  "ex_used = [TReserve 1 7, TReserve 1 8, THandle 0 (User [1]), THandle 0 (System (HotSwap 9)), THandle 0 (User [2]),
     TStep 0, TStep 0, TStep 0, TStep 0]"

definition ex_used_thread :: dthread where
  "ex_used_thread = \<lparr>work = (WCheck, [System (HotSwap 9), User [2]], \<lparr>current = 7, calls = [(7, [1])]\<rparr>), connected = True,
     first = 7, accepted = [User [1], System (HotSwap 9), User [2]]\<rparr>"

lemmas thread_run_defs = thread_start_def new_thread_def upd_thread_def send_thread_def handle_message_def
  dedicated_step_def recv_timeout_def over_def thread_message_def call_behavior_def swap_behavior_def Let_def

lemma ex_used_run:
  "thread_run ex_used thread_start = Some \<lparr>interp = True, gil_count = 2, callers = 1, pool_made = False, dthreads = [ex_used_thread]\<rparr>"
  by (simp add: ex_used_def ex_used_thread_def thread_run_defs)

text \<open>The interpreter is finalized between the second check of a thread and its call.\<close>

definition ex_race :: "thread_event list" where
  "ex_race = [TReserve 1 7, THandle 0 (User [1]), TStep 0, TStep 0, TStep 0, TFinalize, TStep 0]"

lemma ex_race_run:
  "thread_run ex_race thread_start = Some \<lparr>interp = False, gil_count = 1, callers = 0, pool_made = False,
     dthreads = [\<lparr>work = (WPanicked, [], \<lparr>current = 7, calls = []\<rparr>), connected = True, first = 7, accepted = [User [1]]\<rparr>]\<rparr>"
  by (simp add: ex_race_def thread_run_defs)

lemmas ex_thread_reachable =
  thread_run_reachable [OF ex_used_run _ thread_reachable.start, of 1]
  thread_run_reachable [OF ex_race_run _ thread_reachable.start, of 1]

section \<open>Properties\<close>

text \<open>
  C27: a dedicated thread runs an actor's messages in order. Whatever the interleaving of handlers,
  threads, spawns and shutdown, the calls a thread has made are those that running some first part of
  the messages its channel accepted inline makes, hot swaps included; and while the interpreter is up
  nothing is lost: what it has not run is in its hand or waits in the channel.
\<close>

theorem thread_runs_accepted_in_order:
  assumes "thread_reachable n S" and "t \<in> set (dthreads S)"
  shows "\<exists>ms rest. accepted t = ms @ rest \<and> done_by t = fold run_inline ms \<lparr>current = first t, calls = []\<rparr>
    \<and> (interp S \<longrightarrow> rest = in_hand (phase_of t) @ fst (snd (work t)))"
  using thread_reachable_ok [OF assms(1)] assms(2) by (auto simp: thread_ok_def runs_def)

theorem thread_runs_accepted_in_order_witness:
  "\<exists>ms rest. accepted ex_used_thread = ms @ rest
    \<and> done_by ex_used_thread = fold run_inline ms \<lparr>current = 7, calls = []\<rparr> \<and> rest = [System (HotSwap 9), User [2]]"
  using thread_runs_accepted_in_order [OF ex_thread_reachable(1), of ex_used_thread]
  by (simp add: ex_used_def) (simp add: ex_used_thread_def)

text \<open>
  C16: a thread whose actor has ended finishes the work and ends. Once the handler and with it the last
  sender is dropped and while the interpreter is up, at most four steps per waiting message and four
  more bring the thread to its end, its channel empty, every message it ever accepted run in order
  exactly as if it had been run inline.
\<close>

theorem dropped_thread_finishes:
  assumes "thread_reachable n S" and "interp S" and "t \<in> set (dthreads S)"
    and "4 * length (fst (snd (work t))) + 4 \<le> k"
  shows "(dedicated_step True False ^^ k) (work t)
    = (WGone, [], fold run_inline (accepted t) \<lparr>current = first t, calls = []\<rparr>)"
proof -
  obtain ph q h where w: "work t = (ph, q, h)" by (metis prod.exhaust)
  have ok: "thread_ok True t" using thread_reachable_ok [OF assms(1)] assms(2,3) by simp
  then obtain ms where ms: "accepted t = ms @ in_hand ph @ q" "h = runs ms (first t)" using w by (auto simp: thread_ok_def)
  have no_exit: "\<forall>m\<in>set (in_hand ph @ q). \<not> (\<exists>i. m = System (Exit i))" using ok ms(1) by (auto simp: thread_ok_def)
  then have "fold (\<lambda>m h. snd (thread_message m h)) (in_hand ph @ q) h = fold run_inline (in_hand ph @ q) h"
    by (intro fold_cong) (auto simp: thread_message_inline)
  with dedicated_worker.finishes [OF no_exit, of k h] ok w assms(4) ms show ?thesis
    by (simp add: thread_ok_def runs_def)
qed

theorem dropped_thread_finishes_witness:
  "(dedicated_step True False ^^ 12) (work ex_used_thread)
    = (WGone, [], \<lparr>current = 9, calls = [(7, [1]), (9, [2])]\<rparr>)"
  using dropped_thread_finishes [OF ex_thread_reachable(1), of ex_used_thread 12]
  by (simp add: ex_used_def) (simp add: ex_used_thread_def call_behavior_def swap_behavior_def)

text \<open>
  C29: every dedicated thread ends with the interpreter. In any run after the interpreter has been
  finalized a thread takes at most three steps, runs no callback, and has ended after the third.
\<close>

theorem threads_end_with_interpreter:
  assumes "\<not> interp S" and "thread_run es S = Some S'" and "j < length (dthreads S)"
  shows "done_by (dthreads S' ! j) = done_by (dthreads S ! j) \<and> length (filter (own_thread_step j) es) \<le> 3
    \<and> (length (filter (own_thread_step j) es) = 3 \<longrightarrow> over (phase_of (dthreads S' ! j)))"
  using down_run [OF assms(2,1,3)] down_rank_le [of "phase_of (dthreads S ! j)"] by (auto simp flip: down_rank_over)

theorem threads_end_with_interpreter_witness:
  "\<exists>S'. thread_run [TStep 0] \<lparr>interp = False, gil_count = 2, callers = 1, pool_made = False, dthreads = [ex_used_thread]\<rparr> = Some S'
    \<and> calls (done_by (dthreads S' ! 0)) = [(7, [1])]"
proof -
  let ?S = "\<lparr>interp = False, gil_count = 2, callers = 1, pool_made = False, dthreads = [ex_used_thread]\<rparr>"
  obtain S' where "thread_run [TStep 0] ?S = Some S'" by (simp add: ex_used_thread_def over_def Let_def)
  with threads_end_with_interpreter [OF _ this, of 0] show ?thesis by (auto simp: ex_used_thread_def)
qed

text \<open>
  C28: the counter of dedicated threads is exact. Whatever the interleaving, it is the number of threads
  whose loop has not come to its end plus the callers that have counted themselves in and found the
  limit reached; no more threads exist than the largest limit in force, and while the interpreter is up
  all those counted run. So a spawn is refused or sent to the pool only when the limit is reached.
\<close>

theorem thread_count_exact:
  assumes "thread_reachable n S"
  shows "gil_count S = length (filter (\<lambda>t. phase_of t \<noteq> WGone) (dthreads S)) + callers S
    \<and> length (filter (\<lambda>t. phase_of t \<noteq> WGone) (dthreads S)) \<le> n
    \<and> (interp S \<longrightarrow> gil_count S = length (filter (\<lambda>t. \<not> over (phase_of t)) (dthreads S)) + callers S)"
proof -
  have "interp S \<longrightarrow> filter (\<lambda>t. phase_of t \<noteq> WGone) (dthreads S) = filter (\<lambda>t. \<not> over (phase_of t)) (dthreads S)"
    using thread_reachable_ok [OF assms] by (auto simp: thread_ok_def over_def intro!: filter_cong)
  with gil_invariant [OF thread_reachable_gil [OF assms]] show ?thesis by (auto simp: abs_gil_def)
qed

theorem thread_count_exact_witness:
  "(2 :: nat) = length (filter (\<lambda>t. \<not> over (phase_of t)) [ex_used_thread]) + 1"
  using thread_count_exact [OF ex_thread_reachable(1)] by (simp add: ex_used_def)

text \<open>
  The workers of the pool do what the abstract pool of \<open>PyMembrane\<close> does, in which \<open>n\<close> workers take tasks
  in order and run those they hold in any order: a step of a worker is one of its steps or changes
  nothing it sees.
\<close>

theorem pool_workers_refine:
  assumes "abstracts P g" and "i < length (wphases P)"
  shows "\<exists>g'. (pool_step (length (wphases P)))\<^sup>=\<^sup>= g g' \<and> abstracts (worker_pool_step True i P) g'"
proof -
  note h = held_update [OF assms(2)]
  note sd = worker_pool_step_def pool_worker_step_def held_tasks_def abstracts_def
  have stutter: ?thesis if "abstracts (worker_pool_step True i P) g" using that by blast
  show ?thesis
  proof (cases "wphases P ! i")
    case (WCall t)
    with h [of WCheck] have m: "mset (held_tasks P) = add_mset t (mset (held_tasks (worker_pool_step True i P)))"
      by (simp add: sd)
    with assms(1) have "t \<in># mset (pool_held g)" by (simp add: abstracts_def)
    then obtain us vs where g: "pool_held g = us @ t # vs" by (auto dest: split_list)
    let ?g = "g\<lparr>pool_held := us @ vs, pool_behaviors := pool_execute t (pool_behaviors g)\<rparr>"
    have "abstracts (worker_pool_step True i P) ?g"
      using assms(1) m g WCall by (simp add: abstracts_def) (simp add: worker_pool_step_def pool_worker_step_def)
    with pool_step.run_task [OF g] show ?thesis by blast
  next
    case WRecv
    show ?thesis
    proof (cases "wqueue P")
      case Nil
      with WRecv h [of WCheck] assms(1) show ?thesis by (intro stutter) (simp add: sd recv_timeout_def)
    next
      case (Cons t q)
      let ?g = "g\<lparr>pool_queue := q, pool_held := pool_held g @ [t]\<rparr>"
      have "length (pool_held g) < length (wphases P)"
        using held_less [OF assms(2)] WRecv assms(1) mset_eq_length by (fastforce simp: abstracts_def held_tasks_def)
      moreover have "abstracts (worker_pool_step True i P) ?g"
        using assms(1) WRecv Cons h [of "WGot t"] by (simp add: sd recv_timeout_def)
      moreover have "pool_queue g = t # q" using assms(1) Cons by (simp add: abstracts_def)
      ultimately show ?thesis using pool_step.take_task by blast
    qed
  next
    case (WGot t)
    with h [of "WCall t"] have "mset (held_tasks (worker_pool_step True i P)) = mset (held_tasks P)" by (simp add: sd)
    with assms(1) WGot show ?thesis by (intro stutter) (simp add: abstracts_def, simp add: worker_pool_step_def pool_worker_step_def)
  next
    case WCheck
    with h [of WRecv] assms(1) show ?thesis by (intro stutter) (simp add: sd)
  next
    case WGone
    with h [of WGone] assms(1) show ?thesis by (intro stutter) (simp add: sd)
  next
    case WPanicked
    with h [of WPanicked] assms(1) show ?thesis by (intro stutter) (simp add: sd)
  qed
qed

text \<open>
  The check before the call does not protect it: when the interpreter is finalized in between, the call
  panics, and the thread is counted for ever.
\<close>

theorem shutdown_race_panics:
  "\<exists>S. thread_reachable 1 S \<and> \<not> interp S \<and> map phase_of (dthreads S) = [WPanicked] \<and> gil_count S = 1"
  using ex_thread_reachable(2) by (simp add: ex_race_def) fastforce

end
