(* ===== verification/Spec2Isabelle.thy ===== *)
theory Spec2Isabelle
  imports Links Recovery Server PyPackage NodeMembrane Closures GilThreads
begin

text \<open>
  A verification development for Iris, an actor runtime in Rust with Python and Node bindings. All
  source files named here are under \<^verbatim>\<open>src/src/\<close>, the Python package is \<^verbatim>\<open>src/iris/__init__.py\<close>.

  \<^bold>\<open>The program.\<close> A \<^verbatim>\<open>Runtime\<close> (\<^verbatim>\<open>lib.rs\<close>) hands out process identifiers from a slab (\<^verbatim>\<open>pid.rs\<close>), gives every
  actor a mailbox (\<^verbatim>\<open>mailbox.rs\<close>) and a task that receives from it, and runs an exit protocol when the
  task's body ends: the mailbox entry goes, the supervisors (\<^verbatim>\<open>supervisor.rs\<close>: one global, more by path)
  are told and restart children through factories, the identifier is freed and linked actors get an
  exit message. Names and paths map to identifiers (\<^verbatim>\<open>registry.rs\<close>); timers send messages later; nodes
  talk over TCP (\<^verbatim>\<open>network.rs\<close>). The Python binding (\<^verbatim>\<open>py.rs\<close>) adds blocking receives, callbacks on threads
  that release the interpreter lock and shared buffers (\<^verbatim>\<open>buffer.rs\<close>); the Node binding is \<^verbatim>\<open>node.rs\<close>.

  \<^bold>\<open>The theories,\<close> in the order they build on each other:
  \<^item> \<open>Prelude\<close>: integer widths, positions and removal in lists, iteration orders of maps, the lemma
    collections.
  \<^item> \<open>Pid\<close> (\<^verbatim>\<open>pid.rs\<close>): record \<open>SlabAllocator\<close>, its operations, the identifier layout on words. The contract of
    a source of identifiers is the locale \<open>pid_source\<close>, interpreted on the slab. Shown: fresh, exact,
    stale identifiers stay invalid until \<open>2 ^ 32 - 1\<close> deallocations.
  \<^item> \<open>Registry\<close> (\<^verbatim>\<open>registry.rs\<close>): record \<open>NameRegistry\<close>; locale \<open>naming\<close>. Shown: the last binding counts, the two
    listings are exact.
  \<^item> \<open>Channel\<close>: the tokio channels the mailbox is built on; locale \<open>fifo_channel\<close>.
  \<^item> \<open>Mailbox\<close> (\<^verbatim>\<open>mailbox.rs\<close>): both halves over two channels, a stash and a counter; a future is its polls.
    Shown: refinement of a two-queue specification, first match of a selective receive, conservation
    and order over arbitrary runs, exact counter.
  \<^item> \<open>Supervisor\<close> (\<^verbatim>\<open>supervisor.rs\<close>): record \<open>Supervisor\<close>, the calls, the restart tasks one attempt at a time,
    step relation \<open>sup_step\<close>; locale \<open>link_table\<close>. A method is one step here. Shown: symmetric links, marks
    belong to running tasks, the restart loop ends as specified.
  \<^item> \<open>Links\<close> (\<^verbatim>\<open>supervisor.rs\<close>): the link table call by call. A pending \<^verbatim>\<open>link\<close>, \<^verbatim>\<open>unlink\<close> or \<^verbatim>\<open>linked_pids\<close> is the
    list of calls on the map that it still has to make, and \<open>links_step\<close> interleaves them. Shown: run alone
    the methods are those of \<open>Supervisor\<close>; links are symmetric and \<^verbatim>\<open>linked_pids\<close> is exact as long as no \<^verbatim>\<open>link\<close>
    overlaps a cut of the same pair; and a run in which one does.
  \<^item> \<open>Buffer\<close> (\<^verbatim>\<open>buffer.rs\<close>): the registry over an explicit heap.
  \<^item> \<open>Runtime\<close> and \<open>Lifecycle\<close> (\<^verbatim>\<open>lib.rs\<close>): record \<open>Runtime\<close> with stores for the shared objects, every public
    function, the handler loops (\<open>body_poll\<close>) and the exit protocol (\<open>exit_step\<close>, the code after
    \<^verbatim>\<open>actor_handle.await\<close>, which the four spawn functions share). \<open>rt_step\<close> interleaves calls, loops, exit
    protocols, restart rounds and the reports of monitors; \<open>rt_inv\<close> is its invariant. Shown: identifiers, tasks and mailboxes
    agree in every reachable state, sends arrive or come back, stopped actors end, links are notified.
  \<^item> \<open>Host\<close>: the interface between the runtime and the systems built around it. The locale \<open>runtime_host\<close>
    asks that the runtime's invariant holds in every state and gives the guarantees of the calls;
    \<open>moving_host\<close> gets there from the steps of a system. Interpreted on the runtime itself, on the
    timers, the server and the Python node.
  \<^item> \<open>Timers\<close> (\<^verbatim>\<open>lib.rs\<close>): the timer map and tasks with a clock, interleaved with the runtime's steps. Shown:
    a one-shot timer sends at most once and not too early, a timer that is due delivers.
  \<^item> \<open>Closures\<close> (\<^verbatim>\<open>lib.rs\<close>): the closure that makes an actor's future and the mutex of the slab. Shown: what
    is harmless, and that a panic or a nested spawn under the guard takes the slab from everyone.
  \<^item> \<open>Network\<close> (\<^verbatim>\<open>network.rs\<close>): frames, timed reads and writes over event lists, the connection loop, the
    client calls, the connection pool one call at a time, the monitor. Shown: no dependence on how bytes are cut,
    delivery in order, answers, the outcome of a connection on every input, outage detection.
  \<^item> \<open>Pool\<close> (\<^verbatim>\<open>network.rs\<close>, \<^verbatim>\<open>lib.rs\<close>): \<^verbatim>\<open>Runtime::send_remote\<close> with every call in a task, the tasks of the
    connections and the bounded channels, all interleaved (\<open>pool_exec\<close>, invariant \<open>pool_inv\<close>). Shown: frames
    are never mixed, a message is queued once or not at all, what arrives is a first part of what was
    accepted, a send ends, and run alone it refines the sequential call of \<open>Network\<close>. Three runs show
    what the interleaving can do: two sends swap, a working connection loses its entry, an accepted
    message is lost.
  \<^item> \<open>Recovery\<close>: exit protocol and supervisor together; shown: a supervised actor that dies is replaced.
  \<^item> \<open>Server\<close>: \<^verbatim>\<open>start_server\<close> and the tasks of its connections, interleaved with the runtime's own steps;
    shown: a peer can only send, the runtime's invariants hold on a server, and a connection is served
    in order whatever happens between its frames.
  \<^item> \<open>PyMailbox\<close> and \<open>PyMembrane\<close> (\<^verbatim>\<open>py.rs\<close>): conversion and matcher; the blocking receives, proved once in the
    locale \<open>receive_loop\<close> and interpreted on \<^verbatim>\<open>recv\<close> and \<^verbatim>\<open>selective_recv\<close>; buffers, factories, push actors with
    their three execution paths, the thread limit.
  \<^item> \<open>GilThreads\<close> (\<^verbatim>\<open>py.rs\<close>): the loops of the dedicated threads and of the pool's workers step by step, with
    the checks for a finalized interpreter; locale \<open>worker_loop\<close>, interpreted on both. Shown: messages run
    in order and none is lost while the interpreter is up, threads finish their work when the actor
    ends and stop when the interpreter does, the counter is exact; the step by step models refine the
    counter and the pool of \<open>PyMembrane\<close>. A run shows the race between the check and the call.
  \<^item> \<open>PyApi\<close> (\<^verbatim>\<open>py.rs\<close>): the functions of the module and the remaining methods of \<^verbatim>\<open>PyRuntime\<close>; a node
    (\<open>py_node\<close>) is runtime, timers, thread counter, buffers, connections and monitors, \<open>py_step\<close> interleaves
    Python calls with all of them. Shown: no sequence of calls breaks an invariant, and a call that does
    not block and raises has changed nothing.
  \<^item> \<open>PyPackage\<close> (the Python package): the methods of its class \<^verbatim>\<open>Runtime\<close> over \<open>PyApi\<close>. Shown: \<^verbatim>\<open>send_named\<close>
    agrees with the runtime's, programs stay in the states of \<open>PyApi\<close>.
  \<^item> \<open>NodeMembrane\<close> (\<^verbatim>\<open>node.rs\<close>): conversion, identifiers as \<^verbatim>\<open>i64\<close>, the push handler, the runtime object.
    Shown: an identifier means the same in every call after its way through JavaScript.
  \<^item> this theory: properties that need several components, among them the way of a message from a remote
    send through pool, connection and server to the queue of an actor.

  \<^bold>\<open>Conventions.\<close> A Rust method \<^verbatim>\<open>Type::method\<close> is \<open>Type_method\<close>. A panic is \<open>None\<close>, a \<^verbatim>\<open>Result\<close> a sum with the
  error on the left. The order in which a \<^verbatim>\<open>DashMap\<close> is iterated is an argument with \<open>iter_order\<close>. 
  \<^bold>\<open>Grain.\<close> The runtime's functions, the statements of the exit protocol and the rounds of loops and tasks
  are the steps that interleave. A method of a supervisor is one step of \<open>sup_step\<close> and \<open>rt_step\<close>, although
  the code makes several \<^verbatim>\<open>DashMap\<close> calls in it: \<^verbatim>\<open>notify_exit\<close> (the mark, the lookup, the group), the links
  and the restart task's bookkeeping after a factory call. What the finer grain does to the links is the
  subject of \<open>Links\<close>; for \<^verbatim>\<open>notify_exit\<close> it is not modelled. In \<open>Pool\<close> a connection task takes a message and
  writes it in one step.

  Callbacks, factories and matchers are arguments or numbered closures; what they do to the runtime is
  a sequence of calls of its public functions. The sleeps of loops become lists of rounds, and \<open>None\<close>
  says that a call still waits. Loops that end are \<open>fun\<close> or \<open>function\<close> with a termination proof: the
  selective receive by the messages in flight, the connection loop by the bytes to come, the restart
  loop by the attempts left, the exit protocol by its program counter, a remote send by its stage (at
  most eight steps).

  \<^bold>\<open>Bounds.\<close> The statements about identifiers assume that the slab holds at most \<open>2 ^ 32\<close> slots, the range
  of the index half of an identifier; those about timers and buffers that fewer than \<open>2 ^ 64\<close> were
  created; lengths on the wire are below \<open>2 ^ 32\<close>.

  \<^bold>\<open>Left out.\<close> A factory that panics (it ends its restart task and leaves the mark); a closure that panics, in
  the interleaved models (\<open>Closures\<close> has it); a \<^verbatim>\<open>std::thread::spawn\<close> that fails after the thread was
  counted; a matcher with state of its own, and a second reader that holds the lock of a mailbox; the boxed
  identifier that a failed \<^verbatim>\<open>PyCapsule_New\<close> leaks.

  \<^bold>\<open>Not modelled.\<close> Binding the listening socket and address resolution, pure I/O (whether they
  succeed is an argument); the tokio scheduler's fairness; logging; the registration of the
  Python module's contents; what an inline callback does when the interpreter goes down under it;
  \<^verbatim>\<open>message_to_js\<close>, which does not compile; N-API and the Python C API beyond what is said of them as
  arguments; the asyncio loop of \<^verbatim>\<open>selective_recv_blocking\<close>, the JavaScript entry file and the tests.
\<close>

section \<open>Properties that span components\<close>

text \<open>The messages that \<open>n\<close> receives of an actor's loop deliver.\<close>

fun recv_all :: "nat \<Rightarrow> mailbox \<Rightarrow> Message list" where
  "recv_all 0 mb = []"
| "recv_all (Suc n) mb = (case MailboxReceiver_recv mb of (r, mb) \<Rightarrow> delivered r @ recv_all n mb)"

text \<open>A receive from a mailbox that has a sender and is not empty.\<close>

lemma recv_next:
  assumes wf: "mail_wf mb" and tx: "tx_alive (sys_ch mb)" and ab: "mail_abs mb = (ss, us)"
    and ms: "map System ss @ map User us = m # ms"
  obtains mb' ss' us' where "MailboxReceiver_recv mb = (Ready (Some m), mb')" and "mail_wf mb'"
    and "tx_alive (sys_ch mb')" and "mail_abs mb' = (ss', us')" and "map System ss' @ map User us' = ms"
proof -
  obtain q mb' where q: "MailboxReceiver_recv mb = (q, mb')" by fastforce
  have wf': "mail_wf mb'" "tx_alive (sys_ch mb')" using recv_wf [OF wf] recv_ends [OF wf] tx q by (auto simp: same_ends_def)
  have r: "(q, mb') = (case MailboxReceiver_try_recv mb of (Some m, mb') \<Rightarrow> (Ready (Some m), mb') | (None, mb') \<Rightarrow> (Pending, mb'))"
    using tx mail_wf_ends(1) [OF wf] q by (simp add: recv_try_recv)
  show thesis
  proof (cases ss)
    case (Cons s rest)
    with try_recv_spec [of mb] ab r ms have "q = Ready (Some m)" "mail_abs mb' = (rest, us)" by (auto split: prod.splits)
    with that [of mb' rest us] q wf' Cons ms show thesis by simp
  next
    case Nil
    with ms obtain u rest where us: "us = u # rest" by (cases us) auto
    with Nil try_recv_spec [of mb] ab r ms have "q = Ready (Some m)" "mail_abs mb' = ([], rest)" by (auto split: prod.splits)
    with that [of mb' "[]" rest] q wf' Nil us ms show thesis by simp
  qed
qed

lemma recv_all_order:
  assumes "mail_wf mb" and "tx_alive (sys_ch mb)" and "mail_abs mb = (ss, us)"
  shows "recv_all (length ss + length us) mb = map System ss @ map User us"
proof -
  have "recv_all (length ms) mb = ms"
    if "mail_wf mb" "tx_alive (sys_ch mb)" "mail_abs mb = (ss, us)" "map System ss @ map User us = ms" for ms ss us mb
    using that
  proof (induction ms arbitrary: mb ss us)
    case (Cons m ms)
    show ?case
      by (rule recv_next [OF Cons.prems]) (use Cons.IH in \<open>simp add: delivered_def\<close>)
  qed simp
  from this [OF assms refl] show ?thesis by simp
qed

lemma poll_n_observed:
  assumes "pc t = Running" and "body t = ObservedBody" and "mail_wf (boxes R (abox t))"
    and "tx_alive (sys_ch (boxes R (abox t)))" and "mail_abs (boxes R (abox t)) = (ss, us)"
    and "map System ss @ map User us = ms"
  shows "\<exists>R'. poll_n (length ms) t R = (t, R') \<and> vecs R' (abox t) = vecs R (abox t) @ ms \<and> observers R' = observers R
    \<and> mail_abs (boxes R' (abox t)) = ([], [])"
  using assms
proof (induction ms arbitrary: R ss us)
  case (Cons m ms)
  obtain mb' ss' us' where n: "MailboxReceiver_recv (boxes R (abox t)) = (Ready (Some m), mb')" "mail_wf mb'"
    "tx_alive (sys_ch mb')" "mail_abs mb' = (ss', us')" "map System ss' @ map User us' = ms"
    by (rule recv_next [OF Cons.prems(3-6)])
  let ?R = "R\<lparr>boxes := (boxes R)(abox t := mb'), vecs := (vecs R)(abox t := vecs R (abox t) @ [m])\<rparr>"
  have "body_poll t R = (t, ?R)" using n(1) Cons.prems(2) by (simp add: body_poll_def)
  with Cons.IH [of ?R ss' us'] n Cons.prems(1,2) show ?case by auto
qed auto

lemma run_inline_system: "calls (fold run_inline (map System ss) h) = calls h"
  by (induction ss arbitrary: h) (auto simp: swap_behavior_def run_inline_def handle_message_def split: SystemMessage.split)

lemma run_inline_users:
  "calls (fold run_inline (map User us) h) = calls h @ map (Pair (current h)) us
   \<and> current (fold run_inline (map User us) h) = current h"
  by (induction us arbitrary: h) (simp_all add: call_behavior_def)

text \<open>
  C31: a hot swap overtakes the queue. When \<^verbatim>\<open>hot_swap\<close> reaches a running push actor whose callback runs
  inline or on a dedicated thread, every user message that is still waiting, though it was sent before the
  swap, is handled by the new callback, in order, and the new callback is the one in force afterwards: the
  swap is a system message, and those are received first. On the shared pool of workers two messages of
  one actor can run in either order, which this does not cover.
\<close>

theorem hot_swap_overtakes_queue:
  assumes "rt_reachable R" and "t \<in> set (actors R)" and "pc t = Running" and "mailboxes R (apid t) = Some (abox t)"
    and "mail_abs (boxes R (abox t)) = (ss, us)"
  shows "let mb = boxes (Runtime_hot_swap (apid t) ptr R) (abox t);
      received = recv_all (Suc (length ss + length us)) mb
    in (\<forall>h'\<in>{fold run_inline received h, thread_loop (forwarded received) h}.
          calls h' = calls h @ map (Pair ptr) us \<and> current h' = ptr)"
proof -
  let ?mb = "boxes R (abox t)"
  let ?mb' = "snd (MailboxSender_send (System (HotSwap ptr)) ?mb)"
  note inv = rt_reachable_inv [OF assms(1)]
  have wf: "mail_wf ?mb" by (rule rt_inv_wf [OF inv])
  have "rx_alive (sys_ch ?mb)" "tx_alive (sys_ch ?mb)"
    using inv assms(2-4) by (auto simp: rt_inv_def ends_ok_def)
  then have "tx_alive (sys_ch ?mb')" "mail_abs ?mb' = (ss @ [HotSwap ptr], us)"
    using send_alive(2) [OF wf, of "System (HotSwap ptr)"] send_ends [of ?mb "System (HotSwap ptr)"] assms(5)
    by (auto simp: same_ends_def)
  from recv_all_order [OF send_wf [OF wf] this]
  have "recv_all (Suc (length ss + length us)) ?mb' = map System ss @ System (HotSwap ptr) # map User us" by simp
  moreover have "boxes (Runtime_hot_swap (apid t) ptr R) (abox t) = ?mb'"
    by (simp add: Runtime_hot_swap_def assms(4) send_system_send)
  ultimately show ?thesis
    by (simp add: Let_def run_inline_users run_inline_system swap_behavior_def thread_loop_inline)
qed

definition ex_pushed :: Runtime where
  "ex_pushed = snd (Runtime_send (make_pid 0 1) (User [1]) (snd (the (Runtime_spawn_handler_with_budget 8 Runtime_new))))"

lemmas ex_pushed_simps = ex_pushed_def Runtime_spawn_handler_with_budget_def spawn_task_def remove_mailbox_def
  Runtime_new_def SlabAllocator_allocate_def SlabAllocator_new_def Let_def Runtime_send_def MailboxSender_send_def
  channel_def chan_defs

lemma ex_pushed_reachable: "rt_reachable ex_pushed"
proof -
  define R1 where "R1 = snd (the (Runtime_spawn_handler_with_budget 8 Runtime_new))"
  have "rt_exec (SpawnHandler 8) Runtime_new = Some R1" and room: "slab_room (slab R1)"
    by (simp_all add: R1_def ex_pushed_simps slab_room_def)
  then have "rt_reachable R1" using rt_exec_reachable [OF rt_reachable.start disjI1 [OF new_room(2)]] by blast
  moreover have "rt_exec (SendTo (make_pid 0 1) (User [1])) R1 = Some ex_pushed" by (simp add: ex_pushed_def R1_def)
  ultimately show ?thesis using rt_exec_reachable room by blast
qed

theorem hot_swap_overtakes_queue_witness:
  "calls (fold run_inline (recv_all 2 (boxes (Runtime_hot_swap (make_pid 0 1) 9 ex_pushed) 0)) \<lparr>current = 5, calls = []\<rparr>)
   = [(9, [1])]"
proof -
  let ?t = "\<lparr>apid = make_pid 0 1, abox = 0, body = HandlerBody 8 0, pc = Running, why = (Normal, None)\<rparr>"
  have "?t \<in> set (actors ex_pushed)" "mailboxes ex_pushed (apid ?t) = Some (abox ?t)"
    "mail_abs (boxes ex_pushed (abox ?t)) = ([], [[1]])"
    by (simp_all add: ex_pushed_simps mail_abs_def)
  from hot_swap_overtakes_queue [OF ex_pushed_reachable this(1) _ this(2,3), of 9 "\<lparr>current = 5, calls = []\<rparr>"]
  show ?thesis by (simp add: Let_def numeral_2_eq_2)
qed

text \<open>
  C32: an observed actor records everything. As many rounds of its loop as messages wait empty the mailbox
  of a running observed actor, and \<^verbatim>\<open>get_observed_messages\<close> then returns what it returned before,
  followed by the waiting system messages and the waiting user messages, each in the order they were
  sent, none lost and none twice.
\<close>

theorem observed_actor_records_all:
  assumes "rt_reachable R" and "t \<in> set (actors R)" and "pc t = Running" and "body t = ObservedBody"
    and "mailboxes R (apid t) = Some (abox t)" and "observers R (apid t) = Some (abox t)"
    and "mail_abs (boxes R (abox t)) = (ss, us)"
  shows "\<exists>R'. poll_n (length ss + length us) t R = (t, R')
    \<and> Runtime_get_observed_messages R' (apid t) =
        Some (the (Runtime_get_observed_messages R (apid t)) @ map System ss @ map User us)
    \<and> mail_abs (boxes R' (abox t)) = ([], [])"
proof -
  note inv = rt_reachable_inv [OF assms(1)]
  have "tx_alive (sys_ch (boxes R (abox t)))" using inv assms(2,3,5) by (auto simp: rt_inv_def ends_ok_def)
  from poll_n_observed [OF assms(3,4) rt_inv_wf [OF inv] this assms(7) refl] assms(6) show ?thesis
    by (auto simp: Runtime_get_observed_messages_def)
qed

definition ex_observed :: Runtime where
  "ex_observed = snd (Runtime_send (make_pid 0 1) (User [1]) (snd (the (Runtime_spawn_observed_handler 8 Runtime_new))))"

lemmas ex_observed_simps = ex_pushed_simps ex_observed_def Runtime_spawn_observed_handler_def

lemma ex_observed_reachable: "rt_reachable ex_observed"
proof -
  define R1 where "R1 = snd (the (Runtime_spawn_observed_handler 8 Runtime_new))"
  have "rt_exec (SpawnObserved 8) Runtime_new = Some R1" by (simp add: R1_def ex_observed_simps)
  then have "rt_reachable R1" using rt_exec_reachable [OF rt_reachable.start disjI1 [OF new_room(2)]] by blast
  moreover have "rt_exec (SendTo (make_pid 0 1) (User [1])) R1 = Some ex_observed" by (simp add: ex_observed_def R1_def)
  ultimately show ?thesis using rt_exec_reachable [of R1 "SendTo (make_pid 0 1) (User [1])"] by simp
qed

theorem observed_actor_records_all_witness:
  "\<exists>t R'. poll_n 1 t ex_observed = (t, R') \<and> Runtime_get_observed_messages R' (make_pid 0 1) = Some [User [1]]"
proof -
  let ?t = "\<lparr>apid = make_pid 0 1, abox = 0, body = ObservedBody, pc = Running, why = (Normal, None)\<rparr>"
  have "?t \<in> set (actors ex_observed)" "mailboxes ex_observed (apid ?t) = Some (abox ?t)"
    "observers ex_observed (apid ?t) = Some (abox ?t)" "mail_abs (boxes ex_observed (abox ?t)) = ([], [[1]])"
    "Runtime_get_observed_messages ex_observed (apid ?t) = Some []"
    by (simp_all add: ex_observed_simps mail_abs_def Runtime_get_observed_messages_def)
  with observed_actor_records_all [OF ex_observed_reachable this(1) _ _ this(2-4)] show ?thesis by auto
qed

text \<open>What a sequence of sends does to the mailbox of one actor.\<close>

lemma send_frame:
  "mailboxes (snd (Runtime_send p m R)) = mailboxes R" "actors (snd (Runtime_send p m R)) = actors R"
  by (simp_all add: Runtime_send_def split: option.split prod.split)

lemma send_elsewhere:
  assumes "rt_inv R" and "t \<in> set (actors R)" and "p \<noteq> apid t"
  shows "boxes (snd (Runtime_send p m R)) (abox t) = boxes R (abox t)"
proof (cases "mailboxes R p")
  case (Some a)
  from rt_inv_entry [OF assms(1) Some] obtain u where u: "u \<in> set (actors R)" "apid u = p" "abox u = a" by metis
  then have "a \<noteq> abox t" using box_unique [of "next_addr R" "actors R" u t] assms by (auto simp: rt_inv_def)
  with Some show ?thesis by (simp add: Runtime_send_def split: prod.split)
qed (simp add: Runtime_send_def)

lemma sends_to_actor:
  assumes "rt_inv R" and "t \<in> set (actors R)" and "pc t = Running" and "mailboxes R (apid t) = Some (abox t)"
    and "mail_abs (boxes R (abox t)) = (ss, us)"
  shows "mail_abs (boxes (fold (\<lambda>(p, d) R. snd (Runtime_send p (User d) R)) ms R) (abox t))
    = (ss, us @ map snd (filter (\<lambda>(p, d). p = apid t) ms))"
  using assms
proof (induction ms arbitrary: R us)
  case (Cons m ms)
  obtain p d where m: "m = (p, d)" by fastforce
  let ?R = "snd (Runtime_send p (User d) R)"
  have keeps: "rt_inv ?R" "t \<in> set (actors ?R)" "mailboxes ?R (apid t) = Some (abox t)"
    using Cons.prems rt_inv_send by (simp_all add: send_frame)
  show ?case
  proof (cases "p = apid t")
    case True
    obtain mb where "Runtime_send (apid t) (User d) R = (Inr (), R\<lparr>boxes := (boxes R)(abox t := mb)\<rparr>)"
      "mail_abs mb = spec_send (User d) (mail_abs (boxes R (abox t)))"
      by (rule send_running [OF Cons.prems(1,2,4,3)])
    then have "mail_abs (boxes ?R (abox t)) = (ss, us @ [d])" using True Cons.prems(5) by simp
    from Cons.IH [OF keeps(1,2) Cons.prems(3) keeps(3) this] True show ?thesis by (simp add: m)
  next
    case False
    from send_elsewhere [OF Cons.prems(1,2) this] Cons.prems(5)
    have "mail_abs (boxes ?R (abox t)) = (ss, us)" by simp
    from Cons.IH [OF keeps(1,2) Cons.prems(3) keeps(3) this] False show ?thesis by (simp add: m)
  qed
qed simp

text \<open>
  C12: remote sends reach the actor. Take a pooled connection in any reachable state of the sender's pool
  and a running actor on the other node. If the connection's writes succeed, it writes all it has
  accepted; and a server that reads this, however cut, serves it without error and appends to the
  actor's user queue exactly the payloads of the accepted calls that named the actor's identifier, each
  once and in the order of acceptance, behind what waited there, and none of the others.
\<close>

theorem remote_sends_reach_actor:
  assumes "pool_reachable S" and "i < length (pconns S)" and "ctask (pconns S ! i) = PRunning"
    and "rt_reachable Rs" and "t \<in> set (actors Rs)" and "pc t = Running" and "mailboxes Rs (apid t) = Some (abox t)"
    and "mail_abs (boxes Rs (abox t)) = (ss, us)"
    and "\<forall>j\<in>set (caccepted (pconns S ! i)). fits Rs (FUser (to_pid (stasks S ! j)) (payload (stasks S ! j)))"
  shows "\<exists>S'. pool_run (replicate (length (cqueue (pconns S ! i))) (EConn i None)) S = Some S'
    \<and> (\<forall>rs. stream rs = csent (pconns S' ! i) \<longrightarrow>
        (\<exists>c'. handle_connection \<lparr>rd = rs, wr = \<lparr>outcomes = [], written = []\<rparr>, srv = Rs\<rparr> = (Inr (), c')
          \<and> mail_abs (boxes (srv c') (abox t))
            = (ss, us @ map (\<lambda>j. payload (stasks S ! j))
                (filter (\<lambda>j. to_pid (stasks S ! j) = apid t) (caccepted (pconns S ! i))))))"
proof -
  let ?js = "caccepted (pconns S ! i)" and ?msg = "\<lambda>j. (to_pid (stasks S ! j), payload (stasks S ! j))"
  let ?fs = "map (\<lambda>(p, d). FUser p d) (map ?msg ?js)"
  have "conn_wf (stasks S) (pconns S ! i)" using pool_reachable_inv [OF assms(1)] assms(2) by (simp add: pool_inv_def)
  then obtain ws where ws: "map (\<lambda>j. task_frame (stasks S ! j)) ?js = ws @ cqueue (pconns S ! i)"
    "csent (pconns S ! i) = PROTOCOL_VERSION # concat ws" using assms(3) by (auto simp: conn_wf_def accepted_frames_def)
  define S' where "S' = upd_conn i (\<lambda>c. c\<lparr>cqueue := [], csent := csent c @ concat (cqueue c)\<rparr>) S"
  have run: "pool_run (replicate (length (cqueue (pconns S ! i))) (EConn i None)) S = Some S'"
    unfolding S'_def by (rule drain_connection [OF assms(2,3)])
  have "csent (pconns S' ! i) = PROTOCOL_VERSION # concat (map (\<lambda>j. task_frame (stasks S ! j)) ?js)"
    using assms(2) ws by (simp add: S'_def upd_conn_nth)
  also have "map (\<lambda>j. task_frame (stasks S ! j)) ?js = map encode ?fs" by (simp add: task_frame_def)
  finally have sent: "csent (pconns S' ! i) = PROTOCOL_VERSION # concat (map encode ?fs)" .
  have "\<exists>c'. handle_connection \<lparr>rd = rs, wr = \<lparr>outcomes = [], written = []\<rparr>, srv = Rs\<rparr> = (Inr (), c')
      \<and> mail_abs (boxes (srv c') (abox t)) = (ss, us @ map (\<lambda>j. payload (stasks S ! j))
          (filter (\<lambda>j. to_pid (stasks S ! j) = apid t) ?js))" if rs: "stream rs = csent (pconns S' ! i)" for rs
  proof -
    let ?c = "\<lparr>rd = rs, wr = \<lparr>outcomes = [], written = []\<rparr>, srv = Rs\<rparr>"
    have "\<forall>f\<in>set ?fs. fits (srv ?c) f" using assms(9) by auto
    then obtain c' where c': "handle_connection ?c = (Inr (), c')" "srv c' = fold deliver ?fs Rs"
      using serves_frames [of ?c ?fs] rs sent by auto
    have "map snd (filter (\<lambda>(p, d). p = apid t) (map ?msg ?js))
        = map (\<lambda>j. payload (stasks S ! j)) (filter (\<lambda>j. to_pid (stasks S ! j) = apid t) ?js)"
      by (simp add: filter_map comp_def)
    with sends_to_actor [OF rt_reachable_inv [OF assms(4)] assms(5-8), of "map ?msg ?js"] c' show ?thesis
      unfolding deliver_users by auto
  qed
  with run show ?thesis by blast
qed

definition ex_addressed :: "pool_event list" where
  "ex_addressed = [ECall ''n:1'' (make_pid 0 1) [7], ECall ''n:1'' 6 [8], task 0, task 0, task 0, task 0, task 1, task 1, task 1]"

definition ex_addressed_pool :: pool_sys where
  "ex_addressed_pool = \<lparr>POOL = [''n:1'' \<mapsto> 0],
     pconns = [\<lparr>caddr = ''n:1'', cqueue = [encode_user (make_pid 0 1) [7], encode_user 6 [8]], ctask = PRunning,
       csent = [PROTOCOL_VERSION], caccepted = [0, 1]\<rparr>],
     stasks = [\<lparr>dest = ''n:1'', to_pid = make_pid 0 1, payload = [7], stage = Finished (Inr ())\<rparr>,
       \<lparr>dest = ''n:1'', to_pid = 6, payload = [8], stage = Finished (Inr ())\<rparr>]\<rparr>"

lemma ex_addressed_reachable: "pool_reachable ex_addressed_pool"
proof -
  have "pool_run ex_addressed pool_start = Some ex_addressed_pool"
    by (simp add: ex_addressed_def ex_addressed_pool_def pool_run_defs)
  from pool_run_reachable [OF this pool_reachable.start] show ?thesis .
qed

theorem remote_sends_reach_actor_witness:
  "\<exists>S'. pool_run [EConn 0 None, EConn 0 None] ex_addressed_pool = Some S'
    \<and> (\<exists>c'. handle_connection \<lparr>rd = (csent (pconns S' ! 0), []), wr = \<lparr>outcomes = [], written = []\<rparr>, srv = ex_observed\<rparr> = (Inr (), c')
        \<and> mail_abs (boxes (srv c') 0) = ([], [[1], [7]]))"
proof -
  let ?t = "\<lparr>apid = make_pid 0 1, abox = 0, body = ObservedBody, pc = Running, why = (Normal, None)\<rparr>"
  have t: "?t \<in> set (actors ex_observed)" "mailboxes ex_observed (apid ?t) = Some (abox ?t)"
    "mail_abs (boxes ex_observed (abox ?t)) = ([], [[1]])" "network_max_payload ex_observed = 1024 * 1024"
    by (simp_all add: ex_observed_simps mail_abs_def)
  have c: "0 < length (pconns ex_addressed_pool)" "ctask (pconns ex_addressed_pool ! 0) = PRunning"
    "\<forall>j\<in>set (caccepted (pconns ex_addressed_pool ! 0)).
       fits ex_observed (FUser (to_pid (stasks ex_addressed_pool ! j)) (payload (stasks ex_addressed_pool ! j)))"
    using t(4) by (simp_all add: ex_addressed_pool_def)
  have ne: "make_pid 0 1 \<noteq> (6 :: pid)" by (simp add: make_pid_def)
  have st: "stream (bs, []) = bs" for bs by (simp add: stream_def)
  from remote_sends_reach_actor [OF ex_addressed_reachable c(1,2) ex_observed_reachable t(1) _ t(2,3) c(3)] ne st
  show ?thesis by (fastforce simp: ex_addressed_pool_def numeral_2_eq_2)
qed

end
